(* ===== verification/Kernel_Prelude.thy ===== *)
theory Kernel_Prelude
  imports Main "HOL-Library.Word"
begin

text \<open>
  Shared vocabulary of the development: the machine integers of the kernel, the outcome of a
  piece of kernel code (it returns, it panics, or it never returns), Rust's integer arithmetic
  in both build profiles, and the iterator operations on vectors (\<open>find\<close>, \<open>position\<close>,
  \<open>remove\<close>) with the lemmas that the components share.
\<close>

unbundle bit_operations_syntax

type_synonym u8 = "8 word"
type_synonym u32 = "32 word"
type_synonym u64 = "64 word"
type_synonym usize = "64 word"

named_theorems arith_chk \<open>unfolding of Rust's checked machine arithmetic\<close>
named_theorems vec_ops \<open>facts about the vector operations find, position and remove\<close>

section \<open>Outcomes\<close>

text \<open>
  \<open>Done\<close> is a normal return. \<open>Panic\<close> is any Rust panic (an assertion, an \<open>unwrap\<close>, a slice out
  of range, \<open>todo!\<close>): the panic handler of the kernel prints and halts. \<open>Hang\<close> is code that never
  returns, such as a spin lock that is waited for by its own holder.
\<close>

datatype 'a outcome = Done 'a | Panic | Hang

primrec and_then :: "'a outcome \<Rightarrow> ('a \<Rightarrow> 'b outcome) \<Rightarrow> 'b outcome" where
  "and_then (Done a) f = f a"
| "and_then Panic f = Panic"
| "and_then Hang f = Hang"

lemma and_then_eq_Done:
  "and_then m f = Done b \<longleftrightarrow> (\<exists>a. m = Done a \<and> f a = Done b)"
  by (cases m) auto

lemma and_then_assoc [simp]:
  "and_then (and_then m f) g = and_then m (\<lambda>a. and_then (f a) g)"
  by (cases m) auto

lemma and_then_Done [simp]: "and_then m Done = m"
  by (cases m) auto

lemma and_then_cong [fundef_cong]:
  "m = m' \<Longrightarrow> (\<And>a. m' = Done a \<Longrightarrow> f a = f' a) \<Longrightarrow> and_then m f = and_then m' f'"
  by (cases m') auto

text \<open>\<open>expect\<close> and \<open>unwrap\<close>: panic on the missing value.\<close>

definition unwrap :: "'a option \<Rightarrow> 'a outcome" where
  "unwrap v = (case v of Some a \<Rightarrow> Done a | None \<Rightarrow> Panic)"

lemma unwrap_simps [simp]: "unwrap (Some a) = Done a" "unwrap None = Panic"
  by (simp_all add: unwrap_def)

lemma unwrap_eq_Done [simp]: "unwrap v = Done a \<longleftrightarrow> v = Some a"
  by (simp add: unwrap_def split: option.splits)

lemma unwrap_not_Hang [simp]: "unwrap v \<noteq> Hang"
  by (simp add: unwrap_def split: option.splits)

section \<open>Machine arithmetic\<close>

text \<open>
  Rust's \<open>+\<close>, \<open>-\<close> and \<open>*\<close> on \<open>usize\<close> and \<open>u64\<close>. The flag is the build profile: with overflow
  checks (the dev profile) an overflow panics; without them (the release profile) it wraps.
\<close>

definition add_chk :: "bool \<Rightarrow> u64 \<Rightarrow> u64 \<Rightarrow> u64 outcome" where
  "add_chk oc a b = (if oc \<and> 2 ^ 64 \<le> unat a + unat b then Panic else Done (a + b))"

definition sub_chk :: "bool \<Rightarrow> u64 \<Rightarrow> u64 \<Rightarrow> u64 outcome" where
  "sub_chk oc a b = (if oc \<and> a < b then Panic else Done (a - b))"

definition mul_chk :: "bool \<Rightarrow> u64 \<Rightarrow> u64 \<Rightarrow> u64 outcome" where
  "mul_chk oc a b = (if oc \<and> 2 ^ 64 \<le> unat a * unat b then Panic else Done (a * b))"

definition checked_add :: "u64 \<Rightarrow> u64 \<Rightarrow> u64 option" where
  "checked_add a b = (if 2 ^ 64 \<le> unat a + unat b then None else Some (a + b))"

lemmas chk_defs [arith_chk] = add_chk_def sub_chk_def mul_chk_def checked_add_def

lemma unat_add_no_overflow:
  fixes a b :: u64
  shows "unat a + unat b < 2 ^ 64 \<Longrightarrow> unat (a + b) = unat a + unat b"
  by (simp add: unat_word_ariths)

lemma unat_lt_2p64: "unat (a :: u64) < 18446744073709551616"
  using unsigned_less[of a, where ?'a = nat] by simp

lemma checked_add_Some:
  "checked_add a b = Some c \<longleftrightarrow> unat a + unat b < 2 ^ 64 \<and> c = a + b"
  by (auto simp: checked_add_def)

lemma checked_add_unat:
  "checked_add a b = Some c \<Longrightarrow> unat c = unat a + unat b"
  by (auto simp: checked_add_Some intro: unat_add_no_overflow)

lemma add_chk_Done:
  "unat a + unat b < 2 ^ 64 \<Longrightarrow> add_chk oc a b = Done (a + b)"
  by (simp add: add_chk_def)

lemma sub_chk_Done: "b \<le> a \<Longrightarrow> sub_chk oc a b = Done (a - b)"
  by (simp add: sub_chk_def word_le_nat_alt word_less_nat_alt)

lemma add_chk_not_Hang [simp]: "add_chk oc a b \<noteq> Hang"
  by (simp add: add_chk_def)

lemma sub_chk_not_Hang [simp]: "sub_chk oc a b \<noteq> Hang"
  by (simp add: sub_chk_def)

lemma unat_of_nat_u64: "n < 2 ^ 64 \<Longrightarrow> unat (of_nat n :: u64) = n"
  by (simp add: unat_of_nat)

lemma unat_plus_one: "n \<noteq> - 1 \<Longrightarrow> unat (n + 1) = Suc (unat n)" for n :: u64
  using unatSuc [of n] by (metis add.commute add_eq_0_iff)

lemma unat_plus_one_less: "n \<noteq> - 1 \<Longrightarrow> unat n + 1 < 2 ^ 64" for n :: u64
  using unat_plus_one [of n] unat_lt_2p64 [of "n + 1"] by simp

lemma add_chk_one: "n \<noteq> - 1 \<Longrightarrow> add_chk oc n 1 = Done (n + 1)"
  using unat_plus_one_less [of n] by (simp add: add_chk_def)

lemma add_chk_max: "add_chk oc (- 1) 1 = (if oc then Panic else Done 0)"
  by (simp add: add_chk_def unsigned_minus_1_eq_mask mask_eq_exp_minus_1)

lemma less_plus_one: "k < n \<Longrightarrow> n \<noteq> - 1 \<Longrightarrow> k < n + 1" for k n :: u64
  by (simp add: word_less_nat_alt unat_plus_one)

lemma self_less_plus_one: "n \<noteq> - 1 \<Longrightarrow> n < n + 1" for n :: u64
  by (simp add: word_less_nat_alt unat_plus_one)

text \<open>The 8-byte slots of a block smaller than memory are different ones.\<close>

lemma eight_times_inj:
  assumes "i < 2 ^ 60" and "j < 2 ^ 60" and "8 * of_nat i = (8 * of_nat j :: u64)"
  shows "i = j"
proof -
  have "(of_nat (8 * i) :: u64) = of_nat (8 * j)" using assms(3) by simp
  moreover have "unat (of_nat (8 * i) :: u64) = 8 * i" "unat (of_nat (8 * j) :: u64) = 8 * j"
    using assms(1,2) by (auto intro!: unat_of_nat_u64 simp del: of_nat_mult)
  ultimately have "8 * i = 8 * j" by metis
  then show ?thesis by simp
qed

section \<open>Vectors\<close>

text \<open>
  \<open>iter().position(p)\<close> is the index of the first match, \<open>Vec::remove(i)\<close> drops the element at an
  index in range. \<open>iter().find(p)\<close> is \<^const>\<open>List.find\<close>.
\<close>

fun position :: "('a \<Rightarrow> bool) \<Rightarrow> 'a list \<Rightarrow> nat option" where
  "position P [] = None"
| "position P (x # xs) = (if P x then Some 0 else map_option Suc (position P xs))"

definition vec_remove :: "nat \<Rightarrow> 'a list \<Rightarrow> 'a list" where
  "vec_remove i xs = take i xs @ drop (Suc i) xs"

lemma position_None [vec_ops]: "position P xs = None \<longleftrightarrow> (\<forall>x \<in> set xs. \<not> P x)"
  by (induction xs) auto

lemma position_Some_less: "position P xs = Some i \<Longrightarrow> i < length xs \<and> P (xs ! i)"
  by (induction xs arbitrary: i) (auto split: if_splits)

lemma position_find: "position P xs = Some i \<Longrightarrow> List.find P xs = Some (xs ! i)"
  by (induction xs arbitrary: i) (auto split: if_splits)

lemma position_None_find: "position P xs = None \<longleftrightarrow> List.find P xs = None"
  by (induction xs) auto

lemma find_Some_set: "List.find P xs = Some x \<Longrightarrow> x \<in> set xs \<and> P x"
  by (auto simp: find_Some_iff)

lemma vec_remove_Cons [simp]:
  "vec_remove 0 (x # xs) = xs"
  "vec_remove (Suc i) (x # xs) = x # vec_remove i xs"
  by (simp_all add: vec_remove_def)

lemma set_vec_remove_subset: "set (vec_remove i xs) \<subseteq> set xs"
  by (auto simp: vec_remove_def dest: in_set_takeD in_set_dropD)

lemma length_vec_remove: "i < length xs \<Longrightarrow> length (vec_remove i xs) = length xs - 1"
  by (simp add: vec_remove_def)

lemma distinct_vec_remove: "distinct xs \<Longrightarrow> distinct (vec_remove i xs)"
  unfolding vec_remove_def
  by (metis distinct_append distinct_drop distinct_take set_take_disj_set_drop_if_distinct lessI
      less_imp_le_nat)

lemma map_vec_remove: "map f (vec_remove i xs) = vec_remove i (map f xs)"
  by (simp add: vec_remove_def take_map drop_map)

lemma set_vec_remove_distinct:
  "distinct xs \<Longrightarrow> i < length xs \<Longrightarrow> set (vec_remove i xs) = set xs - {xs ! i}"
proof (induction xs arbitrary: i)
  case Nil
  then show ?case by simp
next
  case (Cons x xs)
  show ?case
  proof (cases i)
    case 0
    with Cons.prems show ?thesis by auto
  next
    case (Suc j)
    with Cons.prems have j: "distinct xs" "j < length xs" by simp_all
    then have "set (vec_remove j xs) = set xs - {xs ! j}" by (rule Cons.IH)
    moreover have "x \<noteq> xs ! j" using j(2) Cons.prems(1) by (metis distinct.simps(2) nth_mem)
    ultimately show ?thesis by (simp add: Suc insert_Diff_if)
  qed
qed

lemma set_vec_remove_position:
  assumes "distinct xs" and "position ((=) y) xs = Some i"
  shows "set (vec_remove i xs) = set xs - {y}"
  using set_vec_remove_distinct [of xs i] position_Some_less [OF assms(2)] assms(1) by simp

section \<open>Pairs keyed by a handle\<close>

text \<open>
  Two components keep a vector of \<open>(handle, value)\<close> pairs and search it by handle. The lookup by
  \<open>find\<close>, the update through \<open>find\<close> over \<open>iter_mut\<close>, and the removal by \<open>position\<close> are the same
  code; these are their common definitions.
\<close>

definition pairs_get :: "'k \<Rightarrow> ('k \<times> 'v) list \<Rightarrow> 'v option" where
  "pairs_get k xs = map_option snd (List.find (\<lambda>x. fst x = k) xs)"

fun pairs_set :: "'k \<Rightarrow> 'v \<Rightarrow> ('k \<times> 'v) list \<Rightarrow> ('k \<times> 'v) list" where
  "pairs_set k v [] = []"
| "pairs_set k v (x # xs) = (if fst x = k then (k, v) # xs else x # pairs_set k v xs)"

definition pairs_delete :: "'k \<Rightarrow> ('k \<times> 'v) list \<Rightarrow> ('v \<times> ('k \<times> 'v) list) option" where
  "pairs_delete k xs =
     map_option (\<lambda>i. (snd (xs ! i), vec_remove i xs)) (position (\<lambda>x. fst x = k) xs)"

lemma pairs_get_simps [simp]:
  "pairs_get k [] = None"
  "pairs_get k (x # xs) = (if fst x = k then Some (snd x) else pairs_get k xs)"
  by (simp_all add: pairs_get_def)

lemma pairs_get_map_of: "pairs_get k xs = map_of xs k"
  by (induction xs) auto

lemma pairs_get_append:
  "pairs_get k (xs @ ys) = (case pairs_get k xs of Some v \<Rightarrow> Some v | None \<Rightarrow> pairs_get k ys)"
  by (induction xs) auto

lemma pairs_get_in: "pairs_get k xs = Some v \<Longrightarrow> (k, v) \<in> set xs"
  by (simp add: pairs_get_map_of map_of_SomeD)

lemma pairs_get_None: "pairs_get k xs = None \<longleftrightarrow> k \<notin> fst ` set xs"
  by (simp add: pairs_get_map_of map_of_eq_None_iff)

lemma pairs_set_fst [simp]: "map fst (pairs_set k v xs) = map fst xs"
  by (induction xs) auto

lemma pairs_get_set:
  "pairs_get k' (pairs_set k v xs) =
     (if k' = k \<and> pairs_get k xs \<noteq> None then Some v else pairs_get k' xs)"
  by (induction xs) auto

lemma set_pairs_set: "set (pairs_set k v xs) \<subseteq> insert (k, v) (set xs)"
  by (induction xs) auto

lemma pairs_delete_Nil [simp]: "pairs_delete k [] = None"
  by (simp add: pairs_delete_def)

lemma pairs_delete_Cons [simp]:
  "pairs_delete k (x # xs) =
     (if fst x = k then Some (snd x, xs)
      else map_option (\<lambda>(v, ys). (v, x # ys)) (pairs_delete k xs))"
  by (auto simp: pairs_delete_def option.map_comp intro: option.map_cong)

lemma pairs_delete_None: "pairs_delete k xs = None \<longleftrightarrow> pairs_get k xs = None"
  by (induction xs) auto

lemma pairs_delete_value: "pairs_delete k xs = Some (v, ys) \<Longrightarrow> pairs_get k xs = Some v"
  by (induction xs arbitrary: ys) (auto split: if_splits)

lemma pairs_delete_subset: "pairs_delete k xs = Some (v, ys) \<Longrightarrow> set ys \<subseteq> set xs"
  by (induction xs arbitrary: ys) (auto split: if_splits)

lemma pairs_delete_keys:
  "pairs_delete k xs = Some (v, ys) \<Longrightarrow> distinct (map fst xs) \<Longrightarrow>
     distinct (map fst ys) \<and> set (map fst ys) = set (map fst xs) - {k}"
proof (induction xs arbitrary: ys)
  case Nil
  then show ?case by simp
next
  case (Cons x xs)
  show ?case
  proof (cases "fst x = k")
    case True
    with Cons.prems show ?thesis by auto
  next
    case False
    with Cons.prems(1) obtain zs where zs: "pairs_delete k xs = Some (v, zs)" "ys = x # zs"
      by auto
    from Cons.prems(2) have "distinct (map fst xs)" "fst x \<notin> set (map fst xs)" by simp_all
    with Cons.IH [OF zs(1)] False show ?thesis by (auto simp: zs(2))
  qed
qed

lemma pairs_delete_get:
  assumes "pairs_delete k xs = Some (v, ys)" and "distinct (map fst xs)"
  shows "pairs_get k' ys = (if k' = k then None else pairs_get k' xs)"
proof (cases "k' = k")
  case True
  from pairs_delete_keys [OF assms] have "k \<notin> set (map fst ys)" by blast
  with True show ?thesis by (simp add: pairs_get_None)
next
  case False
  from assms(1) have "pairs_get k' ys = pairs_get k' xs"
    using False by (induction xs arbitrary: ys) (auto split: if_splits)
  with False show ?thesis by simp
qed

end
