(* ===== verification/Syscall_Abi.thy ===== *)
theory Syscall_Abi
  imports Kernel_Prelude
begin

text \<open>
  The numbers that cross the user/kernel boundary: the system call codes and the error codes of
  \<open>syscall/src/common.rs\<close> with their \<open>repr(u64)\<close> discriminants, the open modes, and the results
  of kernel operations. An operation on a state returns an outcome of a pair: the
  \<open>SyscallResult\<close> and the state it leaves, which a returned error does not undo.
\<close>

datatype syscall_code =
    Exit | Yield
  | CapabilityClone | CapabilityInspect | CapabilityRestrict | CapabilityDrop
  | FsOpen | FsHandleSeek | FsHandleRead | FsHandleWrite | FsHandleClose
  | ConversationCreateP2p | ConversationCreatePublic | ConversationTalk
  | ConversationCapShare | ConversationCapTransfer
  | ProcessMyPid | ProcessSpawn | ProcessCapShare | ProcessCapTransfer | ProcessExec
  | MemoryMapVirt | MemoryMapPhys | MemoryEditPerms | MemoryUnmap

text \<open>A variant without an explicit value has the value of the one before plus one.\<close>

fun syscall_discr :: "syscall_code \<Rightarrow> u64" where
  "syscall_discr Exit = 0"
| "syscall_discr Yield = 1"
| "syscall_discr CapabilityClone = 0x100"
| "syscall_discr CapabilityInspect = 0x101"
| "syscall_discr CapabilityRestrict = 0x102"
| "syscall_discr CapabilityDrop = 0x103"
| "syscall_discr FsOpen = 0x200"
| "syscall_discr FsHandleSeek = 0x201"
| "syscall_discr FsHandleRead = 0x202"
| "syscall_discr FsHandleWrite = 0x203"
| "syscall_discr FsHandleClose = 0x204"
| "syscall_discr ConversationCreateP2p = 0x300"
| "syscall_discr ConversationCreatePublic = 0x301"
| "syscall_discr ConversationTalk = 0x302"
| "syscall_discr ConversationCapShare = 0x303"
| "syscall_discr ConversationCapTransfer = 0x304"
| "syscall_discr ProcessMyPid = 0x400"
| "syscall_discr ProcessSpawn = 0x401"
| "syscall_discr ProcessCapShare = 0x402"
| "syscall_discr ProcessCapTransfer = 0x403"
| "syscall_discr ProcessExec = 0x404"
| "syscall_discr MemoryMapVirt = 0x500"
| "syscall_discr MemoryMapPhys = 0x501"
| "syscall_discr MemoryEditPerms = 0x502"
| "syscall_discr MemoryUnmap = 0x503"

datatype syscall_error =
    UnknownSyscall | NotImplemented | WrongParameters | NoMemory | StringNotUtf8 | InvalidPath
  | WrongDescriptor | FsNotSeekable | FsSeekOutOfRange | FsNotExecutable
  | WrongCapability | WrongCapabilityPerms | WrongProcess | MemoryAlreadyMapped | UnknownError

fun syscall_error_discr :: "syscall_error \<Rightarrow> u64" where
  "syscall_error_discr UnknownSyscall = 1"
| "syscall_error_discr NotImplemented = 2"
| "syscall_error_discr WrongParameters = 3"
| "syscall_error_discr NoMemory = 4"
| "syscall_error_discr StringNotUtf8 = 5"
| "syscall_error_discr InvalidPath = 6"
| "syscall_error_discr WrongDescriptor = 7"
| "syscall_error_discr FsNotSeekable = 8"
| "syscall_error_discr FsSeekOutOfRange = 9"
| "syscall_error_discr FsNotExecutable = 10"
| "syscall_error_discr WrongCapability = 11"
| "syscall_error_discr WrongCapabilityPerms = 12"
| "syscall_error_discr WrongProcess = 13"
| "syscall_error_discr MemoryAlreadyMapped = 14"
| "syscall_error_discr UnknownError = 0xFFFFFFFFFFFFFFFF"

type_synonym 'a syscall_result = "syscall_error + 'a"

text \<open>A kernel operation on a state \<open>'s\<close>: the result and the state it leaves.\<close>

type_synonym ('s, 'a) op = "('a syscall_result \<times> 's) outcome"

text \<open>The \<open>?\<close> operator: continue with the value, or return the error with the state as it is.\<close>

definition try_then :: "('s, 'a) op \<Rightarrow> ('a \<Rightarrow> 's \<Rightarrow> ('s, 'b) op) \<Rightarrow> ('s, 'b) op" where
  "try_then m f = and_then m (\<lambda>(r, s). case r of Inl err \<Rightarrow> Done (Inl err, s) | Inr a \<Rightarrow> f a s)"

lemma try_then_simps [simp]:
  "try_then (Done (Inl err, s)) f = Done (Inl err, s)"
  "try_then (Done (Inr a, s)) f = f a s"
  "try_then Panic f = Panic"
  "try_then Hang f = Hang"
  by (simp_all add: try_then_def)

lemma try_then_eq_Done:
  "try_then m f = Done (r, s') \<longleftrightarrow>
     (\<exists>err. m = Done (Inl err, s') \<and> r = Inl err) \<or> (\<exists>a s. m = Done (Inr a, s) \<and> f a s = Done (r, s'))"
  by (cases m) (auto simp: try_then_def split: sum.splits prod.splits)

text \<open>\<open>v.ok_or(err)?\<close> in a function that leaves the state alone.\<close>

definition ok_or :: "syscall_error \<Rightarrow> 'a option \<Rightarrow> 'a syscall_result" where
  "ok_or err v = (case v of Some a \<Rightarrow> Inr a | None \<Rightarrow> Inl err)"

lemma ok_or_simps [simp]: "ok_or err (Some a) = Inr a" "ok_or err None = Inl err"
  by (simp_all add: ok_or_def)

text \<open>\<open>FsOpenMode\<close>: the declared constants of the flag type.\<close>

definition fs_read :: u64 where "fs_read = 0x1"
definition fs_write :: u64 where "fs_write = 0x2"
definition fs_open_all :: u64 where "fs_open_all = fs_read OR fs_write"

section \<open>Facts on the codes\<close>

lemma syscall_discr_inj: "syscall_discr c = syscall_discr d \<longleftrightarrow> c = d"
  by (cases c; cases d) simp_all

lemma syscall_error_discr_inj: "syscall_error_discr c = syscall_error_discr d \<longleftrightarrow> c = d"
  by (cases c; cases d) simp_all

lemma syscall_error_discr_nonzero: "syscall_error_discr c \<noteq> 0"
  by (cases c) simp_all

end
