(* ===== verification/Externals.thy ===== *)
theory Externals
  imports Syscall_Abi
begin

text \<open>
  Everything the kernel calls that is not under \<open>src/\<close>, as one record of functions that the
  definitions take as their argument \<open>e\<close>: the build profile, the outcome of fallible
  reservations, and the third-party crates \<open>spin\<close>, \<open>num_enum\<close>, \<open>bitflags\<close> and \<open>x86_64\<close>.
  The predicates below state the documented behaviour of one crate each; a theorem that relies on
  a crate names its predicate. \<open>documented_env\<close> is a concrete instance that satisfies them all.
\<close>

text \<open>
  The guards of one \<open>spin::RwLock\<close> that are alive: a guard that is leaked
  (\<open>RwLockWriteGuard::leak\<close>) stays alive until \<open>force_write_unlock\<close>.
\<close>

datatype rwlock = Unlocked | ReadLocked nat | WriteLocked

text \<open>
  Addresses (\<open>VirtAddr\<close>, \<open>PhysAddr\<close>) are their 64-bit value; a page or a frame of
  4 KiB is its start address. \<open>None\<close> is a panic where the Rust function panics and the
  error where it returns a \<open>Result\<close>.
\<close>

record env =
  overflow_checks :: bool
  reserve_ok :: "nat \<Rightarrow> nat \<Rightarrow> bool"
  rw_may_read :: "rwlock \<Rightarrow> bool"
  rw_may_write :: "rwlock \<Rightarrow> bool"
  code_try_from :: "u64 \<Rightarrow> syscall_code option"
  error_try_from :: "u64 \<Rightarrow> syscall_error option"
  bf_contains :: "u64 \<Rightarrow> u64 \<Rightarrow> bool"
  bf_truncate :: "u64 \<Rightarrow> u64 \<Rightarrow> u64"
  virt_new :: "u64 \<Rightarrow> u64 option"
  virt_add :: "u64 \<Rightarrow> u64 \<Rightarrow> u64 option"
  virt_sub :: "u64 \<Rightarrow> u64 \<Rightarrow> u64 option"
  phys_try_new :: "u64 \<Rightarrow> u64 option"
  phys_new_truncate :: "u64 \<Rightarrow> u64"
  phys_add :: "u64 \<Rightarrow> u64 \<Rightarrow> u64 option"
  phys_sub :: "u64 \<Rightarrow> u64 \<Rightarrow> u64 option"
  from_start_address :: "u64 \<Rightarrow> u64 option"
  containing_address :: "u64 \<Rightarrow> u64"
  page_range :: "u64 \<Rightarrow> u64 \<Rightarrow> u64 list"
  page_range_inclusive :: "u64 \<Rightarrow> u64 \<Rightarrow> u64 list"
  frame_range :: "u64 \<Rightarrow> u64 \<Rightarrow> u64 list"
  interleave_shortest :: "u8 list list \<Rightarrow> (nat \<Rightarrow> u8 list) \<Rightarrow> u8 list list"

section \<open>Documented behaviour\<close>

text \<open>\<open>spin::RwLock\<close>: shared access waits for a writer, exclusive access for any guard.\<close>

definition spin_ok :: "env \<Rightarrow> bool" where
  "spin_ok e \<longleftrightarrow> (\<forall>l. rw_may_read e l \<longleftrightarrow> l \<noteq> WriteLocked) \<and> (\<forall>l. rw_may_write e l \<longleftrightarrow> l = Unlocked)"

text \<open>\<open>num_enum::TryFromPrimitive\<close>: a number converts to the variant with that discriminant.\<close>

definition num_enum_ok :: "env \<Rightarrow> bool" where
  "num_enum_ok e \<longleftrightarrow>
     (\<forall>n c. code_try_from e n = Some c \<longleftrightarrow> syscall_discr c = n) \<and>
     (\<forall>n c. error_try_from e n = Some c \<longleftrightarrow> syscall_error_discr c = n)"

text \<open>\<open>bitflags\<close>: \<open>contains\<close> is inclusion, \<open>from_bits_truncate\<close> drops undeclared bits.\<close>

definition bitflags_ok :: "env \<Rightarrow> bool" where
  "bitflags_ok e \<longleftrightarrow>
     (\<forall>a b. bf_contains e a b \<longleftrightarrow> a AND b = b) \<and> (\<forall>m a. bf_truncate e m a = a AND m)"

text \<open>
  \<open>x86_64\<close> 0.14: \<open>VirtAddr::new\<close> keeps an address whose bits 47 to 63 agree, sign-extends one
  whose bits 48 to 63 are clear, and panics on the others; sums and differences of addresses
  are the machine sum and difference, put through \<open>new\<close> again where they return.
\<close>

definition canonical :: "u64 \<Rightarrow> bool" where
  "canonical a \<longleftrightarrow> a < 0x0000800000000000 \<or> 0xFFFF800000000000 \<le> a"

definition sign_extend_47 :: "u64 \<Rightarrow> u64 option" where
  "sign_extend_47 a =
     (if canonical a then Some a
      else if a < 0x0001000000000000 then Some (a OR 0xFFFF000000000000) else None)"

definition virt_ok :: "env \<Rightarrow> bool" where
  "virt_ok e \<longleftrightarrow>
     (\<forall>a. virt_new e a = sign_extend_47 a) \<and>
     (\<forall>a n. virt_add e a n =
        (if overflow_checks e \<and> 2 ^ 64 \<le> unat a + unat n then None else sign_extend_47 (a + n))) \<and>
     (\<forall>a n. virt_sub e a n =
        (if overflow_checks e \<and> a < n then None else sign_extend_47 (a - n)))"

text \<open>\<open>PhysAddr\<close>: 52 bits; \<open>try_new\<close> refuses, \<open>new_truncate\<close> drops, sums panic beyond them.\<close>

definition phys_ok :: "env \<Rightarrow> bool" where
  "phys_ok e \<longleftrightarrow>
     (\<forall>a. phys_try_new e a = (if a < 0x0010000000000000 then Some a else None)) \<and>
     (\<forall>a. phys_new_truncate e a = a AND 0x000FFFFFFFFFFFFF) \<and>
     (\<forall>a n. phys_add e a n =
        (if unat a + unat n < 0x0010000000000000 then Some (a + n) else None)) \<and>
     (\<forall>a n. phys_sub e a n = (if n \<le> a then Some (a - n) else None))"

text \<open>
  Pages and frames of 4 KiB: \<open>from_start_address\<close> wants an aligned address,
  \<open>containing_address\<close> rounds down, and a range lists the starts from the first page up to,
  and for the inclusive range with, the last. The page after the last one of the lower half is
  the first one of the upper half.
\<close>

definition page_starts :: "u64 \<Rightarrow> nat \<Rightarrow> u64 list" where
  "page_starts a n = map (\<lambda>i. a + 4096 * of_nat i) [0..<n]"

definition upper_half :: u64 where "upper_half = 0xFFFF800000000000"
definition lower_end :: u64 where "lower_end = 0x0000800000000000"

definition pages_between :: "u64 \<Rightarrow> u64 \<Rightarrow> nat \<Rightarrow> u64 list" where
  "pages_between a b extra =
     (if a < lower_end \<and> upper_half \<le> b
      then page_starts a (unat (lower_end - a) div 4096) @
           page_starts upper_half (unat (b - upper_half) div 4096 + extra)
      else page_starts a (unat (b - a) div 4096 + extra))"

definition page_ok :: "env \<Rightarrow> bool" where
  "page_ok e \<longleftrightarrow>
     (\<forall>a. from_start_address e a = (if a AND 0xFFF = 0 then Some a else None)) \<and>
     (\<forall>a. containing_address e a = a AND NOT 0xFFF) \<and>
     (\<forall>a b. page_range e a b = (if a < b then pages_between a b 0 else [])) \<and>
     (\<forall>a b. page_range_inclusive e a b = (if a \<le> b then pages_between a b 1 else [])) \<and>
     (\<forall>a b. frame_range e a b = (if a < b then page_starts a (unat (b - a) div 4096) else []))"

text \<open>
  \<open>itertools::interleave_shortest\<close>: alternate the elements of two iterators until one has run
  out. The second iterator of the only use is endless, so the first one ends the sequence.
\<close>

fun interleave_from :: "u8 list list \<Rightarrow> (nat \<Rightarrow> u8 list) \<Rightarrow> nat \<Rightarrow> u8 list list" where
  "interleave_from [] f n = []"
| "interleave_from (x # xs) f n = x # f n # interleave_from xs f (Suc n)"

definition itertools_ok :: "env \<Rightarrow> bool" where
  "itertools_ok e \<longleftrightarrow> (\<forall>xs f. interleave_shortest e xs f = interleave_from xs f 0)"

section \<open>A concrete instance\<close>

definition all_codes :: "syscall_code list" where
  "all_codes = [Exit, Yield, CapabilityClone, CapabilityInspect, CapabilityRestrict, CapabilityDrop,
     FsOpen, FsHandleSeek, FsHandleRead, FsHandleWrite, FsHandleClose, ConversationCreateP2p,
     ConversationCreatePublic, ConversationTalk, ConversationCapShare, ConversationCapTransfer,
     ProcessMyPid, ProcessSpawn, ProcessCapShare, ProcessCapTransfer, ProcessExec, MemoryMapVirt,
     MemoryMapPhys, MemoryEditPerms, MemoryUnmap]"

definition all_errors :: "syscall_error list" where
  "all_errors = [UnknownSyscall, NotImplemented, WrongParameters, NoMemory, StringNotUtf8,
     InvalidPath, WrongDescriptor, FsNotSeekable, FsSeekOutOfRange, FsNotExecutable,
     WrongCapability, WrongCapabilityPerms, WrongProcess, MemoryAlreadyMapped, UnknownError]"

definition documented_env :: "bool \<Rightarrow> env" where
  "documented_env oc = \<lparr>
     overflow_checks = oc,
     reserve_ok = (\<lambda>_ _. True),
     rw_may_read = (\<lambda>l. l \<noteq> WriteLocked),
     rw_may_write = (\<lambda>l. l = Unlocked),
     code_try_from = (\<lambda>n. List.find (\<lambda>c. syscall_discr c = n) all_codes),
     error_try_from = (\<lambda>n. List.find (\<lambda>c. syscall_error_discr c = n) all_errors),
     bf_contains = (\<lambda>a b. a AND b = b),
     bf_truncate = (\<lambda>m a. a AND m),
     virt_new = sign_extend_47,
     virt_add = (\<lambda>a n. if oc \<and> 2 ^ 64 \<le> unat a + unat n then None else sign_extend_47 (a + n)),
     virt_sub = (\<lambda>a n. if oc \<and> a < n then None else sign_extend_47 (a - n)),
     phys_try_new = (\<lambda>a. if a < 0x0010000000000000 then Some a else None),
     phys_new_truncate = (\<lambda>a. a AND 0x000FFFFFFFFFFFFF),
     phys_add = (\<lambda>a n. if unat a + unat n < 0x0010000000000000 then Some (a + n) else None),
     phys_sub = (\<lambda>a n. if n \<le> a then Some (a - n) else None),
     from_start_address = (\<lambda>a. if a AND 0xFFF = 0 then Some a else None),
     containing_address = (\<lambda>a. a AND NOT 0xFFF),
     page_range = (\<lambda>a b. if a < b then pages_between a b 0 else []),
     page_range_inclusive = (\<lambda>a b. if a \<le> b then pages_between a b 1 else []),
     frame_range = (\<lambda>a b. if a < b then page_starts a (unat (b - a) div 4096) else []),
     interleave_shortest = (\<lambda>xs f. interleave_from xs f 0) \<rparr>"

lemma all_codes_complete: "c \<in> set all_codes"
  by (cases c) (simp_all add: all_codes_def)

lemma all_errors_complete: "c \<in> set all_errors"
  by (cases c) (simp_all add: all_errors_def)

lemma find_injective:
  assumes "\<And>c. c \<in> set xs" and "\<And>c d. f c = f d \<longleftrightarrow> c = d"
  shows "List.find (\<lambda>c. f c = n) xs = Some c \<longleftrightarrow> f c = n"
proof
  assume "List.find (\<lambda>c. f c = n) xs = Some c"
  then show "f c = n" by (simp add: find_Some_iff) blast
next
  assume n: "f c = n"
  show "List.find (\<lambda>c. f c = n) xs = Some c"
  proof (cases "List.find (\<lambda>c. f c = n) xs")
    case None
    with n assms(1) show ?thesis by (auto simp: find_None_iff)
  next
    case (Some d)
    then have "f d = n" by (simp add: find_Some_iff) blast
    with n assms(2) have "d = c" by metis
    with Some show ?thesis by simp
  qed
qed

lemma documented_spin [simp]: "spin_ok (documented_env oc)"
  by (simp add: spin_ok_def documented_env_def)

lemma documented_num_enum [simp]: "num_enum_ok (documented_env oc)"
  by (simp add: num_enum_ok_def documented_env_def find_injective
      all_codes_complete all_errors_complete syscall_discr_inj syscall_error_discr_inj)

lemma documented_bitflags [simp]: "bitflags_ok (documented_env oc)"
  by (simp add: bitflags_ok_def documented_env_def)

lemma documented_virt [simp]: "virt_ok (documented_env oc)"
  by (simp add: virt_ok_def documented_env_def)

lemma documented_phys [simp]: "phys_ok (documented_env oc)"
  by (simp add: phys_ok_def documented_env_def)

lemma documented_page [simp]: "page_ok (documented_env oc)"
  by (simp add: page_ok_def documented_env_def)

lemma documented_itertools [simp]: "itertools_ok (documented_env oc)"
  by (simp add: itertools_ok_def documented_env_def)

section \<open>What the operations return\<close>

lemma phys_Some:
  assumes "phys_ok e"
  shows "phys_try_new e a = Some x \<longleftrightarrow> a < 0x0010000000000000 \<and> x = a"
    and "phys_add e a n = Some x \<longleftrightarrow> unat a + unat n < 0x0010000000000000 \<and> x = a + n"
    and "phys_sub e a n = Some x \<longleftrightarrow> n \<le> a \<and> x = a - n"
  using assms by (auto simp: phys_ok_def)

lemma from_start_address_Some:
  "page_ok e \<Longrightarrow> from_start_address e a = Some x \<longleftrightarrow> a AND 0xFFF = 0 \<and> x = a"
  unfolding page_ok_def by (metis option.distinct(1) option.inject)

lemma page_ranges:
  assumes "page_ok e"
  shows "page_range e a b = (if a < b then pages_between a b 0 else [])"
    and "page_range_inclusive e a b = (if a \<le> b then pages_between a b 1 else [])"
    and "frame_range e a b = (if a < b then page_starts a (unat (b - a) div 4096) else [])"
    and "containing_address e a = a AND NOT 0xFFF"
  using assms unfolding page_ok_def by blast+

lemma virt_simps:
  assumes "virt_ok e"
  shows "virt_new e a = sign_extend_47 a"
    and "virt_add e a n =
      (if overflow_checks e \<and> 2 ^ 64 \<le> unat a + unat n then None else sign_extend_47 (a + n))"
    and "virt_sub e a n = (if overflow_checks e \<and> a < n then None else sign_extend_47 (a - n))"
  using assms unfolding virt_ok_def by blast+

section \<open>Locks\<close>

text \<open>The guards alive after an acquisition, and after a guard is dropped.\<close>

fun add_reader :: "rwlock \<Rightarrow> rwlock" where
  "add_reader (ReadLocked n) = ReadLocked (Suc n)"
| "add_reader _ = ReadLocked 1"

fun drop_reader :: "rwlock \<Rightarrow> rwlock" where
  "drop_reader (ReadLocked n) = (if n \<le> 1 then Unlocked else ReadLocked (n - 1))"
| "drop_reader l = l"

definition lock_read :: "env \<Rightarrow> rwlock \<Rightarrow> rwlock outcome" where
  "lock_read e l = (if rw_may_read e l then Done (add_reader l) else Hang)"

definition lock_write :: "env \<Rightarrow> rwlock \<Rightarrow> rwlock outcome" where
  "lock_write e l = (if rw_may_write e l then Done WriteLocked else Hang)"

lemma lock_read_unlocked [simp]:
  "spin_ok e \<Longrightarrow> lock_read e Unlocked = Done (ReadLocked 1)"
  "spin_ok e \<Longrightarrow> lock_read e (ReadLocked n) = Done (ReadLocked (Suc n))"
  "spin_ok e \<Longrightarrow> lock_read e WriteLocked = Hang"
  by (simp_all add: spin_ok_def lock_read_def)

lemma lock_write_unlocked [simp]:
  "spin_ok e \<Longrightarrow> lock_write e Unlocked = Done WriteLocked"
  "spin_ok e \<Longrightarrow> l \<noteq> Unlocked \<Longrightarrow> lock_write e l = Hang"
  by (simp_all add: spin_ok_def lock_write_def)

lemma lock_not_Panic [simp]: "lock_read e l \<noteq> Panic" "lock_write e l \<noteq> Panic"
  by (simp_all add: lock_read_def lock_write_def)

end
