(* ===== verification/Align.thy ===== *)
theory Align
  imports Externals
begin

text \<open>
  Rounding addresses: \<open>align_up\<close> of \<open>allocator/mod.rs\<close>, the layouts of the standard library
  (\<open>core::alloc::Layout\<close>), and the arithmetic of powers of two on words that the allocators and
  the paging code share.
\<close>

definition align_up :: "bool \<Rightarrow> usize \<Rightarrow> usize \<Rightarrow> usize outcome" where
  "align_up oc addr align =
     and_then (add_chk oc addr align) (\<lambda>x.
     and_then (sub_chk oc x 1) (\<lambda>y.
     and_then (sub_chk oc align 1) (\<lambda>m. Done (y AND NOT m))))"

text \<open>\<open>Layout\<close>: a size and an alignment; \<open>align_to\<close> raises the alignment, \<open>pad_to_align\<close> the size.\<close>

record layout =
  lay_size :: usize
  lay_align :: usize

definition isize_max :: usize where "isize_max = 0x7FFFFFFFFFFFFFFF"

text \<open>What the type guarantees: a power of two, and a padded size within \<open>isize\<close>.\<close>

definition layout_ok :: "layout \<Rightarrow> bool" where
  "layout_ok l \<longleftrightarrow> (\<exists>k < 64. lay_align l = 2 ^ k) \<and>
     unat (lay_size l) + unat (lay_align l) \<le> unat isize_max + 1"

definition align_to :: "layout \<Rightarrow> usize \<Rightarrow> layout option" where
  "align_to l a =
     (let m = max (lay_align l) a in
      if unat (lay_size l) + unat m \<le> unat isize_max + 1
      then Some (l\<lparr>lay_align := m\<rparr>) else None)"

definition pad_to_align :: "layout \<Rightarrow> layout" where
  "pad_to_align l =
     l\<lparr>lay_size := (lay_size l + lay_align l - 1) AND NOT (lay_align l - 1)\<rparr>"

section \<open>Facts\<close>

lemma and_not_mask_unat:
  fixes y :: u64
  shows "unat (y AND NOT (mask k)) = unat y - unat y mod 2 ^ k"
proof -
  have "y AND NOT (mask k) = y - take_bit k y"
  proof -
    have "NOT y AND take_bit k y = 0"
      by (rule bit_eqI) (auto simp: bit_simps)
    then have "y - take_bit k y = y AND NOT (take_bit k y)"
      by (rule disjunctive_diff_eq_and_not)
    also have "\<dots> = y AND NOT (mask k)"
      by (rule bit_eqI) (auto simp: bit_simps)
    finally show ?thesis ..
  qed
  moreover have t: "unat (take_bit k y) = unat y mod 2 ^ k"
    by (simp only: unsigned_take_bit_eq take_bit_eq_mod [of k "unat y"])
  moreover have "take_bit k y \<le> y"
    by (simp add: word_le_nat_alt t)
  ultimately show ?thesis by (simp add: unat_sub word_le_nat_alt)
qed

lemma pow2_minus_one: "(2 :: u64) ^ k - 1 = mask k"
  by (simp add: mask_eq_exp_minus_1)

lemma unat_pow2: "k < 64 \<Longrightarrow> unat ((2 :: u64) ^ k) = 2 ^ k"
  using unat_of_nat_u64 [of "2 ^ k"] power_strict_increasing [of k 64 "2 :: nat"] by simp

lemma round_up_unat:
  fixes n :: u64
  assumes "k < 64" and "unat n + 2 ^ k \<le> 2 ^ 64"
  shows "unat ((n + 2 ^ k - 1) AND NOT (2 ^ k - 1)) = (unat n + 2 ^ k - 1) div 2 ^ k * 2 ^ k"
proof -
  have n: "n + 2 ^ k - 1 = n + mask k" by (simp add: mask_eq_exp_minus_1)
  have "unat (mask k :: u64) = 2 ^ k - 1"
    using assms(1) unat_sub [of 1 "2 ^ k :: u64"]
    by (simp add: mask_eq_exp_minus_1 unat_pow2 word_le_nat_alt)
  then have "unat (n + mask k) = unat n + (2 ^ k - 1)"
    using assms(2) by (subst unat_add_no_overflow) (auto simp: Suc_le_eq)
  then show ?thesis
    using and_not_mask_unat [of "n + mask k" k]
    by (simp add: n pow2_minus_one minus_mod_eq_div_mult)
qed

text \<open>Rounding up in the naturals: the least multiple that is not smaller.\<close>

lemma round_up_nat:
  fixes n a :: nat
  assumes "0 < a"
  shows "n \<le> (n + a - 1) div a * a" and "(n + a - 1) div a * a < n + a"
    and "a dvd (n + a - 1) div a * a"
proof -
  define q where "q = (n + a - 1) div a * a"
  define r where "r = (n + a - 1) mod a"
  have "q + r = n + a - 1" by (simp add: q_def r_def)
  moreover have "r < a" using assms by (simp add: r_def)
  ultimately have "n \<le> q \<and> q < n + a" using assms by linarith
  then show "n \<le> (n + a - 1) div a * a" "(n + a - 1) div a * a < n + a"
    by (simp_all add: q_def)
  show "a dvd (n + a - 1) div a * a" by simp
qed

end
