(* ===== verification/Linked_List_Heap.thy ===== *)
theory Linked_List_Heap
  imports Align
begin

text \<open>
  The linked list allocator (\<open>allocator/linked_list.rs\<close>). A \<open>ListNode\<close> lives in the free
  region that it describes; the chain of exclusive references from the head is a list of nodes,
  each the address and the size of its region. The invariant says that the regions are aligned,
  large enough for a node, within the address space and pairwise disjoint.
\<close>

section \<open>The model\<close>

record list_node =
  node_addr :: usize
  node_size :: usize

text \<open>\<open>size_of::<ListNode>()\<close> and \<open>align_of::<ListNode>()\<close>: a \<open>usize\<close> and a reference.\<close>

definition size_of_node :: usize where "size_of_node = 16"
definition align_of_node :: usize where "align_of_node = 8"

definition end_addr :: "bool \<Rightarrow> list_node \<Rightarrow> usize outcome" where
  "end_addr oc n = add_chk oc (node_addr n) (node_size n)"

definition add_free_region :: "bool \<Rightarrow> usize \<Rightarrow> usize \<Rightarrow> list_node list \<Rightarrow> list_node list outcome" where
  "add_free_region oc addr sz head =
     and_then (align_up oc addr align_of_node) (\<lambda>a.
       if a \<noteq> addr then Panic
       else if sz < size_of_node then Panic
       else Done (\<lparr> node_addr = addr, node_size = sz \<rparr> # head))"

definition alloc_from_region ::
    "bool \<Rightarrow> list_node \<Rightarrow> usize \<Rightarrow> usize \<Rightarrow> (unit + usize) outcome" where
  "alloc_from_region oc region sz align =
     and_then (align_up oc (node_addr region) align) (\<lambda>alloc_start.
       case checked_add alloc_start sz of
         None \<Rightarrow> Done (Inl ())
       | Some alloc_end \<Rightarrow>
           and_then (end_addr oc region) (\<lambda>region_end.
             if region_end < alloc_end then Done (Inl ())
             else and_then (sub_chk oc region_end alloc_end) (\<lambda>excess_size.
               if 0 < excess_size \<and> excess_size < size_of_node then Done (Inl ())
               else Done (Inr alloc_start))))"

text \<open>First fit: the first suitable region is unlinked, the others keep their order.\<close>

fun find_region ::
    "bool \<Rightarrow> usize \<Rightarrow> usize \<Rightarrow> list_node list \<Rightarrow> ((list_node \<times> usize) option \<times> list_node list) outcome" where
  "find_region oc sz align [] = Done (None, [])"
| "find_region oc sz align (region # rest) =
     and_then (alloc_from_region oc region sz align) (\<lambda>r. case r of
         Inr alloc_start \<Rightarrow> Done (Some (region, alloc_start), rest)
       | Inl _ \<Rightarrow> and_then (find_region oc sz align rest) (\<lambda>(found, rest').
           Done (found, region # rest')))"

definition size_align :: "layout \<Rightarrow> (usize \<times> usize) outcome" where
  "size_align l =
     and_then (unwrap (align_to l align_of_node)) (\<lambda>l1.
       let l2 = pad_to_align l1 in Done (max (lay_size l2) size_of_node, lay_align l2))"

text \<open>\<open>None\<close> is the null pointer.\<close>

definition list_alloc ::
    "bool \<Rightarrow> layout \<Rightarrow> list_node list \<Rightarrow> (usize option \<times> list_node list) outcome" where
  "list_alloc oc l head =
     and_then (size_align l) (\<lambda>(sz, align).
     and_then (find_region oc sz align head) (\<lambda>(found, head').
       case found of
         None \<Rightarrow> Done (None, head')
       | Some (region, alloc_start) \<Rightarrow>
           and_then (unwrap (checked_add alloc_start sz)) (\<lambda>alloc_end.
           and_then (end_addr oc region) (\<lambda>region_end.
           and_then (sub_chk oc region_end alloc_end) (\<lambda>excess_size.
             if 0 < excess_size
             then and_then (add_free_region oc alloc_end excess_size head') (\<lambda>head''.
               Done (Some alloc_start, head''))
             else Done (Some alloc_start, head'))))))"

definition list_dealloc :: "bool \<Rightarrow> usize \<Rightarrow> layout \<Rightarrow> list_node list \<Rightarrow> list_node list outcome" where
  "list_dealloc oc ptr l head =
     and_then (size_align l) (\<lambda>(sz, _). add_free_region oc ptr sz head)"

definition list_heap_init :: "bool \<Rightarrow> usize \<Rightarrow> usize \<Rightarrow> list_node list outcome" where
  "list_heap_init oc heap_start heap_size = add_free_region oc heap_start heap_size []"

section \<open>The invariant\<close>

definition region_bytes :: "list_node \<Rightarrow> nat set" where
  "region_bytes r = {unat (node_addr r) ..< unat (node_addr r) + unat (node_size r)}"

definition node_ok :: "list_node \<Rightarrow> bool" where
  "node_ok r \<longleftrightarrow> 8 dvd unat (node_addr r) \<and> 16 \<le> unat (node_size r) \<and>
     unat (node_addr r) + unat (node_size r) < 2 ^ 64"

definition list_heap_ok :: "list_node list \<Rightarrow> bool" where
  "list_heap_ok h \<longleftrightarrow> (\<forall>r \<in> set h. node_ok r) \<and>
     sorted_wrt (\<lambda>r q. region_bytes r \<inter> region_bytes q = {}) h"

definition free_bytes :: "list_node list \<Rightarrow> nat set" where
  "free_bytes h = (\<Union>r \<in> set h. region_bytes r)"

definition block_bytes :: "usize \<Rightarrow> usize \<Rightarrow> nat set" where
  "block_bytes p n = {unat p ..< unat p + unat n}"

lemma list_heap_ok_Cons:
  "list_heap_ok (r # h) \<longleftrightarrow> node_ok r \<and> region_bytes r \<inter> free_bytes h = {} \<and> list_heap_ok h"
  by (auto simp: list_heap_ok_def free_bytes_def)

lemma free_bytes_simps [simp]:
  "free_bytes [] = {}" "free_bytes (r # h) = region_bytes r \<union> free_bytes h"
  by (simp_all add: free_bytes_def)

section \<open>Alignment\<close>

lemma align_up_pow2:
  assumes "k < 64" and "unat a + 2 ^ k < 2 ^ 64"
  shows "\<exists>r. align_up oc a (2 ^ k) = Done r \<and> unat a \<le> unat r \<and> unat r < unat a + 2 ^ k \<and> 2 ^ k dvd unat r"
proof -
  let ?r = "(a + 2 ^ k - 1) AND NOT (2 ^ k - 1)"
  have p: "unat ((2 :: u64) ^ k) = 2 ^ k" using assms(1) by (rule unat_pow2)
  have s: "unat (a + 2 ^ k) = unat a + 2 ^ k"
    using unat_add_no_overflow [of a "2 ^ k"] assms(2) by (simp add: p)
  have "(1 :: u64) \<le> a + 2 ^ k" "(1 :: u64) \<le> 2 ^ k" by (simp_all add: word_le_nat_alt s p Suc_le_eq)
  then have "align_up oc a (2 ^ k) = Done ?r"
    using assms(2) by (simp add: align_up_def add_chk_Done p sub_chk_Done)
  moreover have "unat ?r = (unat a + 2 ^ k - 1) div 2 ^ k * 2 ^ k"
    using assms by (intro round_up_unat) simp_all
  ultimately show ?thesis using round_up_nat [of "2 ^ k" "unat a"] by auto
qed

lemma align_up_fixed:
  assumes "8 dvd unat a" and "unat a + 8 < 2 ^ 64"
  shows "align_up oc a align_of_node = Done a"
proof -
  have k: "align_of_node = 2 ^ 3" by (simp add: align_of_node_def)
  from align_up_pow2 [of 3 a oc] assms(2) obtain r where r: "align_up oc a align_of_node = Done r"
    "unat a \<le> unat r" "unat r < unat a + 8" "8 dvd unat r" by (auto simp: k)
  from assms(1) r(4) obtain i j where "unat a = 8 * i" "unat r = 8 * j" by (auto elim!: dvdE)
  with r(2,3) have "unat r = unat a" by simp
  then have "r = a" by (simp add: word_unat_eq_iff)
  with r(1) show ?thesis by simp
qed

lemma add_free_region_ok:
  assumes "8 dvd unat a" and "16 \<le> unat n" and "unat a + unat n < 2 ^ 64"
  shows "add_free_region oc a n h = Done (\<lparr> node_addr = a, node_size = n \<rparr> # h)"
  using assms by (auto simp: add_free_region_def align_up_fixed size_of_node_def word_less_nat_alt)

section \<open>Searching\<close>

text \<open>The layout that \<open>size_align\<close> asks the list for: a power of two from 8 on, a padded sz.\<close>

lemma size_align_correct:
  assumes "layout_ok l" and "size_align l = Done (sz, align)"
  obtains k where "3 \<le> k" "k < 64" "align = 2 ^ k" "lay_align l dvd align" "lay_align l \<le> align"
    "lay_size l \<le> sz" "8 dvd unat sz" "16 \<le> unat sz"
proof -
  from assms(1) obtain j where j: "j < 64" "lay_align l = 2 ^ j" by (auto simp: layout_ok_def)
  define k where "k = max j 3"
  have uj: "unat (lay_align l) = 2 ^ j" using j by (simp add: unat_pow2)
  have k: "3 \<le> k" "k < 64" "j \<le> k" using j by (auto simp: k_def)
  have "(2 :: nat) ^ j \<le> 2 ^ 3 \<longleftrightarrow> j \<le> 3" by (rule power_increasing_iff) simp
  then have m: "max (lay_align l) align_of_node = 2 ^ k"
    using j(1) by (simp add: max_def align_of_node_def k_def word_le_nat_alt j(2) unat_pow2)
  from assms(2) have fits: "unat (lay_size l) + unat ((2 :: u64) ^ k) \<le> 2 ^ 63"
    and align: "align = 2 ^ k"
    and sz: "sz = max ((lay_size l + 2 ^ k - 1) AND NOT (2 ^ k - 1)) size_of_node"
    by (auto simp: size_align_def align_to_def pad_to_align_def m isize_max_def Let_def split: if_splits)
  define p where "p = (lay_size l + 2 ^ k - 1) AND NOT (2 ^ k - 1)"
  have up: "unat p = (unat (lay_size l) + 2 ^ k - 1) div 2 ^ k * 2 ^ k"
    unfolding p_def using fits k by (intro round_up_unat) (simp_all add: unat_pow2)
  have pk: "(0 :: nat) < 2 ^ k" by simp
  have p: "lay_size l \<le> p" "2 ^ k dvd unat p"
    using round_up_nat [OF pk, of "unat (lay_size l)"] by (simp_all add: up word_le_nat_alt)
  have "(8 :: nat) dvd 2 ^ k" using le_imp_power_dvd [OF k(1), of "2 :: nat"] by simp
  with p(2) have p8: "8 dvd unat p" by (rule dvd_trans [rotated])
  have "sz = max p size_of_node" by (simp add: sz p_def)
  moreover have "lay_align l dvd align" using j k align by (simp add: le_imp_power_dvd)
  moreover have "lay_align l \<le> align"
    using j k align by (simp add: word_le_nat_alt unat_pow2)
  moreover have "8 dvd unat (max p size_of_node)" "16 \<le> unat (max p size_of_node)"
    using p8 by (auto simp: max_def size_of_node_def word_le_nat_alt)
  moreover have "lay_size l \<le> max p size_of_node" using p(1) by (simp add: le_max_iff_disj)
  ultimately show ?thesis using k align that by blast
qed

text \<open>A region is accepted for a block inside of it, with no rest or a rest that holds a node.\<close>

definition fits_in :: "list_node \<Rightarrow> usize \<Rightarrow> usize \<Rightarrow> nat \<Rightarrow> bool" where
  "fits_in r st sz k \<longleftrightarrow> unat (node_addr r) \<le> unat st \<and> 2 ^ k dvd unat st \<and>
     unat st < unat (node_addr r) + 2 ^ k \<and>
     (let re = unat (node_addr r) + unat (node_size r); be = unat st + unat sz in
        be = re \<or> be + 16 \<le> re)"

lemma alloc_from_region_cases:
  assumes "node_ok r" and "k < 64" and "unat (node_addr r) + 2 ^ k < 2 ^ 64"
  shows "(\<exists>st. alloc_from_region oc r sz (2 ^ k) = Done (Inr st) \<and> fits_in r st sz k) \<or>
    alloc_from_region oc r sz (2 ^ k) = Done (Inl ())"
proof -
  from align_up_pow2 [OF assms(2,3), of oc] obtain st where
    st: "align_up oc (node_addr r) (2 ^ k) = Done st" "unat (node_addr r) \<le> unat st"
      "unat st < unat (node_addr r) + 2 ^ k" "2 ^ k dvd unat st" by blast
  have re: "end_addr oc r = Done (node_addr r + node_size r)"
    "unat (node_addr r + node_size r) = unat (node_addr r) + unat (node_size r)"
    using assms(1) by (auto simp: end_addr_def node_ok_def add_chk_Done unat_add_no_overflow)
  show ?thesis
  proof (cases "checked_add st sz")
    case None
    with st(1) show ?thesis by (simp add: alloc_from_region_def)
  next
    case (Some be)
    then have be: "unat be = unat st + unat sz" by (rule checked_add_unat)
    show ?thesis
    proof (cases "node_addr r + node_size r < be")
      case True
      with Some st(1) re(1) show ?thesis by (simp add: alloc_from_region_def)
    next
      case False
      then have le: "be \<le> node_addr r + node_size r" by simp
      have ex: "unat (node_addr r + node_size r - be) =
          unat (node_addr r) + unat (node_size r) - (unat st + unat sz)"
        using le by (simp add: unat_sub word_le_nat_alt re(2) be)
      have "unat st + unat sz \<le> unat (node_addr r) + unat (node_size r)"
        using le by (simp add: word_le_nat_alt re(2) be)
      with Some st re(1) le ex show ?thesis
        by (auto simp: alloc_from_region_def sub_chk_Done size_of_node_def fits_in_def Let_def
            word_less_nat_alt)
    qed
  qed
qed

lemma find_region_correct:
  assumes "list_heap_ok h" and "k < 64" and "\<forall>r \<in> set h. unat (node_addr r) + 2 ^ k < 2 ^ 64"
  shows "\<exists>found h'. find_region oc sz (2 ^ k) h = Done (found, h') \<and>
    (case found of
       None \<Rightarrow> h' = h
     | Some (r, st) \<Rightarrow> r \<in> set h \<and> fits_in r st sz k \<and> list_heap_ok (r # h') \<and>
         free_bytes (r # h') = free_bytes h \<and> set h' \<subseteq> set h)"
  using assms(1,3)
proof (induction h)
  case Nil
  then show ?case by simp
next
  case (Cons q h)
  from Cons.prems(1) have ok: "node_ok q" "region_bytes q \<inter> free_bytes h = {}" "list_heap_ok h"
    by (simp_all add: list_heap_ok_Cons)
  from Cons.prems(2) have q: "unat (node_addr q) + 2 ^ k < 2 ^ 64" by simp
  from Cons.IH ok(3) Cons.prems(2) obtain found h' where
    fr: "find_region oc sz (2 ^ k) h = Done (found, h')" and
    res: "case found of None \<Rightarrow> h' = h | Some (r, st) \<Rightarrow> r \<in> set h \<and> fits_in r st sz k \<and>
       list_heap_ok (r # h') \<and> free_bytes (r # h') = free_bytes h \<and> set h' \<subseteq> set h" by auto
  from alloc_from_region_cases [OF ok(1) assms(2) q, of oc sz] show ?case
  proof
    assume "\<exists>st. alloc_from_region oc q sz (2 ^ k) = Done (Inr st) \<and> fits_in q st sz k"
    with Cons.prems(1) show ?thesis by auto
  next
    assume "alloc_from_region oc q sz (2 ^ k) = Done (Inl ())"
    with fr have f: "find_region oc sz (2 ^ k) (q # h) = Done (found, q # h')" by simp
    show ?thesis
    proof (cases found)
      case None
      with f res show ?thesis by simp
    next
      case (Some p)
      then obtain r st where p: "found = Some (r, st)" by (cases p) simp
      with res have r: "r \<in> set h" "fits_in r st sz k" "node_ok r" "list_heap_ok h'"
        "region_bytes r \<inter> free_bytes h' = {}" "set h' \<subseteq> set h"
        and fb: "region_bytes r \<union> free_bytes h' = free_bytes h" by (simp_all add: list_heap_ok_Cons)
      have "list_heap_ok (r # q # h')"
        using r ok(1,2) fb [symmetric] by (simp add: list_heap_ok_Cons Int_Un_distrib) blast
      moreover have "free_bytes (r # q # h') = free_bytes (q # h)"
        using fb [symmetric] by (simp add: Un_left_commute)
      ultimately show ?thesis
        using r(1,2,6) by (intro exI [of _ found] exI [of _ "q # h'"]) (auto simp only: f p, auto)
    qed
  qed
qed

section \<open>Allocation and deallocation\<close>

text \<open>
  The bytes of a found region, cut at the block: alignment padding in front, the block, the rest.
\<close>

lemma region_split:
  assumes "fits_in r st sz k"
  shows "region_bytes r = {unat (node_addr r) ..< unat st} \<union> block_bytes st sz \<union>
      {unat st + unat sz ..< unat (node_addr r) + unat (node_size r)}"
  using assms by (auto simp: fits_in_def region_bytes_def block_bytes_def Let_def)

lemma list_alloc_cases:
  assumes "list_heap_ok h" and "layout_ok l" and "size_align l = Done (sz, align)"
    and "\<forall>r \<in> set h. unat (node_addr r) + unat align < 2 ^ 64"
  obtains (none) "list_alloc oc l h = Done (None, h)"
    | (some) r st h' h'' k where "list_alloc oc l h = Done (Some st, h'')" "align = 2 ^ k"
        "k < 64" "fits_in r st sz k" "list_heap_ok (r # h')" "free_bytes (r # h') = free_bytes h"
        "list_heap_ok h''" "region_bytes r =
          {unat (node_addr r) ..< unat st} \<union> block_bytes st sz \<union> (free_bytes h'' - free_bytes h')"
        "free_bytes h' \<subseteq> free_bytes h''"
        "free_bytes h'' \<inter> ({unat (node_addr r) ..< unat st} \<union> block_bytes st sz) = {}"
proof -
  from assms(2,3) obtain k where k: "3 \<le> k" "k < 64" "align = 2 ^ k" "8 dvd unat sz"
    by (rule size_align_correct)
  then have lim: "\<forall>r \<in> set h. unat (node_addr r) + 2 ^ k < 2 ^ 64"
    using assms(4) by (simp add: unat_pow2)
  from find_region_correct [OF assms(1) k(2) lim, of oc sz] obtain found h' where
    f: "find_region oc sz (2 ^ k) h = Done (found, h')" and
    res: "case found of None \<Rightarrow> h' = h | Some (r, st) \<Rightarrow> r \<in> set h \<and> fits_in r st sz k \<and>
       list_heap_ok (r # h') \<and> free_bytes (r # h') = free_bytes h \<and> set h' \<subseteq> set h" by blast
  show thesis
  proof (cases found)
    case None
    with f res assms(3) k(3) show thesis by (intro none) (simp add: list_alloc_def)
  next
    case (Some p)
    then obtain r st where p: "found = Some (r, st)" by (cases p) simp
    with res have fit: "fits_in r st sz k" and rok: "list_heap_ok (r # h')"
      and fb: "free_bytes (r # h') = free_bytes h" by simp_all
    then have nok: "node_ok r" and h'ok: "list_heap_ok h'"
      and dis: "region_bytes r \<inter> free_bytes h' = {}" by (simp_all add: list_heap_ok_Cons)
    define re where "re = unat (node_addr r) + unat (node_size r)"
    have re: "end_addr oc r = Done (node_addr r + node_size r)" "unat (node_addr r + node_size r) = re"
      "re < 2 ^ 64" using nok by (auto simp: end_addr_def node_ok_def add_chk_Done unat_add_no_overflow re_def)
    from fit have cut: "unat st + unat sz = re \<or> unat st + unat sz + 16 \<le> re"
      by (simp add: fits_in_def re_def Let_def)
    then have ca: "checked_add st sz = Some (st + sz)" and be: "unat (st + sz) = unat st + unat sz"
      using re(3) by (auto simp: checked_add_def unat_add_no_overflow)
    have le: "st + sz \<le> node_addr r + node_size r" using cut re(2) be by (auto simp: word_le_nat_alt)
    define ex where "ex = node_addr r + node_size r - (st + sz)"
    have uex: "unat ex = re - (unat st + unat sz)"
      using le by (simp add: ex_def unat_sub word_le_nat_alt re(2) be)
    note split = region_split [OF fit, folded re_def]
    have pre: "list_alloc oc l h =
       (if 0 < ex then and_then (add_free_region oc (st + sz) ex h') (\<lambda>h''. Done (Some st, h''))
        else Done (Some st, h'))"
      using f assms(3) k(3) p re(1) ca le
      by (simp add: list_alloc_def sub_chk_Done ex_def)
    show thesis
    proof (cases "0 < ex")
      case False
      then have "re = unat st + unat sz" using uex cut by (simp add: word_less_nat_alt)
      with split dis False pre k fit rok fb h'ok show thesis
        by (intro some [of st h' k r h']) auto
    next
      case True
      let ?n = "\<lparr> node_addr = st + sz, node_size = ex \<rparr>"
      have "8 dvd unat st"
        using fit k(1) le_imp_power_dvd [of 3 k "2 :: nat"] by (auto simp: fits_in_def intro: dvd_trans)
      then have d: "8 dvd unat (st + sz)" using k(4) be by simp
      have e16: "16 \<le> unat ex" "unat (st + sz) + unat ex = re"
        using True uex cut be by (auto simp: word_less_nat_alt)
      have rb: "region_bytes ?n = {unat st + unat sz ..< re}"
        using e16(2) be by (simp add: region_bytes_def)
      have "add_free_region oc (st + sz) ex h' = Done (?n # h')"
        using d e16 re(3) by (intro add_free_region_ok) simp_all
      then have a: "list_alloc oc l h = Done (Some st, ?n # h')" using True pre by simp
      have sub: "region_bytes ?n \<subseteq> region_bytes r" using split rb by blast
      have nodis: "region_bytes ?n \<inter> free_bytes h' = {}" using sub dis by blast
      have "list_heap_ok (?n # h')"
        using nodis h'ok d e16 re(3) by (simp add: list_heap_ok_Cons node_ok_def)
      moreover have "free_bytes (?n # h') - free_bytes h' = {unat st + unat sz ..< re}"
        using nodis rb by auto
      moreover have "free_bytes (?n # h') \<inter> ({unat (node_addr r) ..< unat st} \<union> block_bytes st sz) = {}"
        using split dis rb by (auto simp: block_bytes_def)
      ultimately show thesis
        using a k fit rok fb split by (intro some [of st "?n # h'" k r h']) auto
    qed
  qed
qed

lemma list_dealloc_ok:
  assumes "list_heap_ok h" and "size_align l = Done (sz, align)" and "16 \<le> unat sz"
    and "8 dvd unat p" and "unat p + unat sz < 2 ^ 64" and "block_bytes p sz \<inter> free_bytes h = {}"
  shows "\<exists>h'. list_dealloc oc p l h = Done h' \<and> list_heap_ok h' \<and>
    free_bytes h' = free_bytes h \<union> block_bytes p sz"
proof -
  let ?n = "\<lparr> node_addr = p, node_size = sz \<rparr>"
  have "list_dealloc oc p l h = Done (?n # h)"
    using assms by (simp add: list_dealloc_def add_free_region_ok)
  moreover have "region_bytes ?n = block_bytes p sz" by (simp add: region_bytes_def block_bytes_def)
  ultimately show ?thesis
    using assms by (auto simp: list_heap_ok_Cons node_ok_def)
qed

lemma size_align_pow2:
  assumes "layout_ok l" and "size_align l = Done (sz, align)" and "align = 2 ^ k" and "k < 64"
  shows "3 \<le> k"
proof -
  from assms(1,2) obtain j where j: "3 \<le> j" "j < 64" "align = 2 ^ j" by (rule size_align_correct)
  with assms(3) have "unat ((2 :: u64) ^ k) = unat ((2 :: u64) ^ j)" by simp
  then have "(2 :: nat) ^ k = 2 ^ j" using assms(4) j(2) by (simp only: unat_pow2)
  with j(1) show ?thesis by simp
qed

lemma list_alloc_ok:
  assumes "list_heap_ok h" and "layout_ok l" and "size_align l = Done (sz, align)"
    and "\<forall>r \<in> set h. unat (node_addr r) + unat align < 2 ^ 64"
  shows "\<exists>res h'. list_alloc oc l h = Done (res, h') \<and> list_heap_ok h' \<and>
    (case res of
       None \<Rightarrow> h' = h
     | Some p \<Rightarrow> unat (lay_align l) dvd unat p \<and> 8 dvd unat p \<and> lay_size l \<le> sz \<and>
         block_bytes p sz \<subseteq> free_bytes h \<and> block_bytes p sz \<inter> free_bytes h' = {} \<and>
         free_bytes h' \<subseteq> free_bytes h)"
  using assms
proof (cases rule: list_alloc_cases [where oc = oc])
  case none
  with assms(1) show ?thesis by simp
next
  case (some r st h' h'' k)
  from assms(2,3) obtain j where j: "align = 2 ^ j" "j < 64" "lay_align l dvd align"
    "lay_size l \<le> sz" by (rule size_align_correct)
  from assms(2) obtain i where i: "i < 64" "lay_align l = 2 ^ i" by (auto simp: layout_ok_def)
  have "lay_align l \<le> align" using assms(2,3) by (rule size_align_correct)
  then have "(2 :: nat) ^ i \<le> 2 ^ k"
    using i some(2,3) by (simp add: word_le_nat_alt unat_pow2)
  then have "i \<le> k" by simp
  then have "(2 :: nat) ^ i dvd 2 ^ k" by (rule le_imp_power_dvd)
  then have "unat (lay_align l) dvd unat st"
    using some(4) i by (auto simp: fits_in_def unat_pow2 intro: dvd_trans)
  moreover have "8 dvd unat st"
    using some(4) size_align_pow2 [OF assms(2,3) some(2,3)] le_imp_power_dvd [of 3 k "2 :: nat"]
    by (auto simp: fits_in_def intro: dvd_trans)
  moreover have "block_bytes st sz \<subseteq> free_bytes h" using some(6,8) by auto
  moreover have "free_bytes h'' \<subseteq> free_bytes h" using some(6,8) by auto
  moreover have "block_bytes st sz \<inter> free_bytes h'' = {}" using some(10) by auto
  ultimately show ?thesis using some(1,7) j(4) by auto
qed


definition example_heap :: "list_node list" where
  "example_heap = [\<lparr> node_addr = 0x1008, node_size = 24 \<rparr>, \<lparr> node_addr = 0x2008, node_size = 0x100 \<rparr>]"

definition example_layout :: layout where
  "example_layout = \<lparr> lay_size = 20, lay_align = 16 \<rparr>"

lemma example_heap_ok:
  "list_heap_ok example_heap" "\<forall>r \<in> set example_heap. unat (node_addr r) + unat (16 :: u64) < 2 ^ 64"
  by (auto simp: example_heap_def list_heap_ok_Cons region_bytes_def node_ok_def)
     (simp_all add: list_heap_ok_def)

lemma example_layout_ok: "layout_ok example_layout" "size_align example_layout = Done (32, 16)"
proof -
  have "(16 :: u64) = 2 ^ 4" by simp
  then show "layout_ok example_layout"
    unfolding layout_ok_def example_layout_def isize_max_def by (intro conjI exI [of _ 4]) simp_all
  show "size_align example_layout = Done (32, 16)"
    by (simp add: size_align_def example_layout_def align_to_def align_of_node_def isize_max_def
        pad_to_align_def size_of_node_def Let_def max_def)
qed


text \<open>
  Deallocation. Returning a block of the size of its layout that is aligned, inside the
  address space and disjoint from the free regions succeeds, keeps the invariant and makes
  exactly the bytes of the block free.
\<close>
theorem list_dealloc_correct:
  assumes "list_heap_ok h" and "layout_ok l" and "size_align l = Done (sz, align)"
    and "8 dvd unat p" and "unat p + unat sz < 2 ^ 64" and "block_bytes p sz \<inter> free_bytes h = {}"
  shows "\<exists>h'. list_dealloc oc p l h = Done h' \<and> list_heap_ok h' \<and>
    free_bytes h' = free_bytes h \<union> block_bytes p sz"
proof -
  from assms(2,3) have "16 \<le> unat sz" by (rule size_align_correct)
  with assms show ?thesis by (intro list_dealloc_ok) simp_all
qed

theorem list_dealloc_correct_witness:
  "\<exists>h'. list_dealloc False 0x3000 example_layout example_heap = Done h' \<and> list_heap_ok h'"
proof -
  have "block_bytes 0x3000 32 \<inter> free_bytes example_heap = {}"
    by (auto simp: example_heap_def block_bytes_def region_bytes_def)
  with list_dealloc_correct [OF example_heap_ok(1) example_layout_ok, of "0x3000" False]
  show ?thesis by auto
qed


lemma example_list_alloc:
  "list_alloc True example_layout example_heap = Done (Some 0x2010,
     [\<lparr> node_addr = 0x2030, node_size = 0xD8 \<rparr>, \<lparr> node_addr = 0x1008, node_size = 24 \<rparr>])"
  by (simp add: list_alloc_def example_layout_ok example_heap_def alloc_from_region_def align_up_def
      add_chk_def sub_chk_def checked_add_def end_addr_def size_of_node_def add_free_region_def
      align_of_node_def)


end
