(* ===== verification/Fixed_Block_Heap.thy ===== *)
theory Fixed_Block_Heap
  imports Linked_List_Heap "HOL-Library.Multiset"
begin

text \<open>
  The global allocator of the kernel (\<open>allocator/fixed_size_block.rs\<close>): one free list per block
  size in front of a fallback heap. The fallback, \<open>linked_list_allocator::Heap\<close>, is a
  third-party type and a parameter here (\<open>fallback\<close>); what it promises is the interface locale
  \<open>block_heap\<close> of the theory \<open>Heap_Safety\<close>, which the linked list allocator also provides.
\<close>

section \<open>The model\<close>

record 'h fallback =
  fb_init :: "usize \<Rightarrow> usize \<Rightarrow> 'h"
  fb_alloc :: "layout \<Rightarrow> 'h \<Rightarrow> usize option \<times> 'h"
  fb_dealloc :: "usize \<Rightarrow> layout \<Rightarrow> 'h \<Rightarrow> 'h"
  fb_size :: "'h \<Rightarrow> usize"
  fb_used :: "'h \<Rightarrow> usize"
  fb_free :: "'h \<Rightarrow> usize"

definition BLOCK_SIZES :: "usize list" where
  "BLOCK_SIZES = [8, 16, 32, 64, 128, 256, 512, 1024, 2048]"

text \<open>A free list is the stack of the addresses of its blocks, the head first.\<close>

record 'h fixed_heap =
  list_heads :: "usize list list"
  fallback_allocator :: 'h
  block_free :: usize

definition list_index :: "layout \<Rightarrow> nat option" where
  "list_index l =
     (let required_block_size = max (lay_size l) (lay_align l) in
      position (\<lambda>s. required_block_size \<le> s) BLOCK_SIZES)"

definition fixed_new :: "'h \<Rightarrow> 'h fixed_heap" where
  "fixed_new heap_empty = \<lparr> list_heads = replicate (length BLOCK_SIZES) [],
     fallback_allocator = heap_empty, block_free = 0 \<rparr>"

definition fixed_init :: "'h fallback \<Rightarrow> usize \<Rightarrow> usize \<Rightarrow> 'h fixed_heap \<Rightarrow> 'h fixed_heap" where
  "fixed_init fb heap_start heap_size s = s\<lparr>fallback_allocator := fb_init fb heap_start heap_size\<rparr>"

definition fallback_alloc :: "'h fallback \<Rightarrow> layout \<Rightarrow> 'h fixed_heap \<Rightarrow> usize option \<times> 'h fixed_heap" where
  "fallback_alloc fb l s =
     (case fb_alloc fb l (fallback_allocator s) of (p, h) \<Rightarrow> (p, s\<lparr>fallback_allocator := h\<rparr>))"

definition block_layout :: "nat \<Rightarrow> layout" where
  "block_layout i = \<lparr> lay_size = BLOCK_SIZES ! i, lay_align = BLOCK_SIZES ! i \<rparr>"

definition heap_size :: "'h fallback \<Rightarrow> 'h fixed_heap \<Rightarrow> usize" where
  "heap_size fb s = fb_size fb (fallback_allocator s)"

definition heap_used :: "'h fallback \<Rightarrow> bool \<Rightarrow> 'h fixed_heap \<Rightarrow> usize outcome" where
  "heap_used fb oc s = sub_chk oc (fb_used fb (fallback_allocator s)) (block_free s)"

definition heap_free :: "'h fallback \<Rightarrow> bool \<Rightarrow> 'h fixed_heap \<Rightarrow> usize outcome" where
  "heap_free fb oc s = add_chk oc (fb_free fb (fallback_allocator s)) (block_free s)"

definition fixed_alloc ::
    "'h fallback \<Rightarrow> bool \<Rightarrow> layout \<Rightarrow> 'h fixed_heap \<Rightarrow> (usize option \<times> 'h fixed_heap) outcome" where
  "fixed_alloc fb oc l s =
     (case list_index l of
        Some index \<Rightarrow>
          (case list_heads s ! index of
             node # next \<Rightarrow>
               and_then (sub_chk oc (block_free s) (BLOCK_SIZES ! index)) (\<lambda>bf.
                 Done (Some node, s\<lparr>list_heads := (list_heads s)[index := next], block_free := bf\<rparr>))
           | [] \<Rightarrow> Done (fallback_alloc fb (block_layout index) s))
      | None \<Rightarrow> Done (fallback_alloc fb l s))"

text \<open>\<open>size_of::<ListNode>()\<close> and \<open>align_of::<ListNode>()\<close> of the one-field node are 8.\<close>

definition fixed_dealloc ::
    "'h fallback \<Rightarrow> bool \<Rightarrow> usize \<Rightarrow> layout \<Rightarrow> 'h fixed_heap \<Rightarrow> 'h fixed_heap outcome" where
  "fixed_dealloc fb oc ptr l s =
     (case list_index l of
        Some index \<Rightarrow>
          (if \<not> 8 \<le> BLOCK_SIZES ! index then Panic
           else if \<not> 8 \<le> BLOCK_SIZES ! index then Panic
           else and_then (add_chk oc (block_free s) (BLOCK_SIZES ! index)) (\<lambda>bf.
             Done (s\<lparr>list_heads := (list_heads s)[index := ptr # (list_heads s ! index)],
                     block_free := bf\<rparr>)))
      | None \<Rightarrow>
          if ptr = 0 then Panic
          else Done (s\<lparr>fallback_allocator := fb_dealloc fb ptr l (fallback_allocator s)\<rparr>))"

section \<open>Block sizes\<close>

lemma length_BLOCK_SIZES [simp]: "length BLOCK_SIZES = 9"
  by (simp add: BLOCK_SIZES_def)

lemma nat_less_9: "i < 9 \<longleftrightarrow> i \<in> {0, 1, 2, 3, 4, 5, 6, 7, 8}" for i :: nat
  by auto

lemma BLOCK_SIZES_nth: "i < 9 \<Longrightarrow> BLOCK_SIZES ! i = 2 ^ (i + 3)"
  by (auto simp: nat_less_9 BLOCK_SIZES_def)

lemma unat_BLOCK_SIZES: "i < 9 \<Longrightarrow> unat (BLOCK_SIZES ! i) = 2 ^ (i + 3)"
  by (simp add: BLOCK_SIZES_nth unat_pow2 del: power_add)

lemma block_layout_ok: "i < 9 \<Longrightarrow> layout_ok (block_layout i)"
proof -
  assume i: "i < 9"
  have "(2 :: nat) ^ (i + 3) \<le> 2 ^ 11" using i by (intro power_increasing) simp_all
  then have "unat (BLOCK_SIZES ! i) \<le> 2048" using i by (simp add: unat_BLOCK_SIZES)
  moreover have "\<exists>k < 64. BLOCK_SIZES ! i = 2 ^ k"
    using i BLOCK_SIZES_nth [OF i] by (intro exI [of _ "i + 3"]) simp
  ultimately show ?thesis
    by (simp add: layout_ok_def block_layout_def isize_max_def)
qed

lemma position_least: "position P xs = Some i \<Longrightarrow> j < i \<Longrightarrow> \<not> P (xs ! j)"
  by (induction xs arbitrary: i j) (auto split: if_splits simp: nth_Cons split: nat.splits)

lemma list_index_Some:
  assumes "list_index l = Some i"
  shows "i < 9" and "lay_size l \<le> BLOCK_SIZES ! i" and "lay_align l \<le> BLOCK_SIZES ! i"
    and "j < i \<Longrightarrow> BLOCK_SIZES ! j < lay_size l \<or> BLOCK_SIZES ! j < lay_align l"
  using position_Some_less [OF assms [unfolded list_index_def Let_def]]
    position_least [OF assms [unfolded list_index_def Let_def], of j]
  by (auto simp: not_le less_max_iff_disj)

lemma list_index_None: "list_index l = None \<longleftrightarrow> 2048 < lay_size l \<or> 2048 < lay_align l"
proof
  assume "list_index l = None"
  then have "\<forall>s \<in> set BLOCK_SIZES. s < max (lay_size l) (lay_align l)"
    by (simp only: list_index_def position_None Let_def not_le)
  moreover have "2048 \<in> set BLOCK_SIZES" by (simp add: BLOCK_SIZES_def)
  ultimately show "2048 < lay_size l \<or> 2048 < lay_align l" by (auto simp: less_max_iff_disj)
next
  assume a: "2048 < lay_size l \<or> 2048 < lay_align l"
  have "s \<le> 2048" if "s \<in> set BLOCK_SIZES" for s
    using that by (auto simp: BLOCK_SIZES_def)
  with a show "list_index l = None"
    by (fastforce simp: list_index_def position_None Let_def not_le less_max_iff_disj)
qed

section \<open>Accounting\<close>

definition pool_bytes :: "usize list list \<Rightarrow> nat" where
  "pool_bytes hs = (\<Sum>i < 9. length (hs ! i) * unat (BLOCK_SIZES ! i))"

definition accounted :: "'h fixed_heap \<Rightarrow> bool" where
  "accounted s \<longleftrightarrow> length (list_heads s) = 9 \<and> unat (block_free s) = pool_bytes (list_heads s)"

lemma pool_bytes_update:
  assumes "i < 9" and "length hs = 9"
  shows "pool_bytes (hs[i := xs]) + length (hs ! i) * unat (BLOCK_SIZES ! i) =
    pool_bytes hs + length xs * unat (BLOCK_SIZES ! i)"
proof -
  let ?f = "\<lambda>hs i. length (hs ! i) * unat (BLOCK_SIZES ! i)"
  have fin: "finite {..<9 :: nat}" "i \<in> {..<9}" using assms(1) by auto
  have "sum (?f (hs[i := xs])) ({..<9} - {i}) = sum (?f hs) ({..<9} - {i})"
    by (rule sum.cong) auto
  then show ?thesis
    using sum.remove [OF fin, of "?f (hs[i := xs])"] sum.remove [OF fin, of "?f hs"] assms
    by (simp add: pool_bytes_def)
qed

text \<open>
  C19: The block free counter is exact. Allocation never panics on it, in either profile, and
  keeps it equal to the bytes of all blocks in the free lists; deallocation keeps it as long as
  the total stays below the address space; used and free bytes always add up to the size of
  the heap when they do for the fallback.
\<close>
theorem block_accounting:
  assumes "accounted s"
  shows "(\<exists>p s'. fixed_alloc fb oc l s = Done (p, s') \<and> accounted s') \<and>
    (pool_bytes (list_heads s) + 2048 < 2 ^ 64 \<and> ptr \<noteq> 0 \<longrightarrow>
       (\<exists>s'. fixed_dealloc fb oc ptr l s = Done s' \<and> accounted s')) \<and>
    (heap_used fb oc s = Done u \<and> heap_free fb oc s = Done f \<and>
       fb_size fb (fallback_allocator s) =
         fb_used fb (fallback_allocator s) + fb_free fb (fallback_allocator s) \<longrightarrow>
     u + f = heap_size fb s)"
proof (intro conjI impI)
  show "\<exists>p s'. fixed_alloc fb oc l s = Done (p, s') \<and> accounted s'"
  proof (cases "list_index l")
    case None
    with assms show ?thesis
      by (auto simp: fixed_alloc_def fallback_alloc_def accounted_def split: prod.splits)
  next
    case (Some i)
    from list_index_Some(1) [OF Some] have i: "i < 9" .
    show ?thesis
    proof (cases "list_heads s ! i")
      case Nil
      with Some assms show ?thesis
        by (auto simp: fixed_alloc_def fallback_alloc_def accounted_def split: prod.splits)
    next
      case (Cons p ps)
      have "pool_bytes ((list_heads s)[i := ps]) + unat (BLOCK_SIZES ! i) = unat (block_free s)"
        using pool_bytes_update [OF i, of "list_heads s" ps] assms Cons by (simp add: accounted_def)
      then have le: "BLOCK_SIZES ! i \<le> block_free s"
        and eq: "unat (block_free s - BLOCK_SIZES ! i) = pool_bytes ((list_heads s)[i := ps])"
        by (auto simp: word_le_nat_alt unat_sub)
      with Some Cons assms show ?thesis
        by (simp add: fixed_alloc_def sub_chk_Done accounted_def)
    qed
  qed
next
  assume a: "pool_bytes (list_heads s) + 2048 < 2 ^ 64 \<and> ptr \<noteq> 0"
  show "\<exists>s'. fixed_dealloc fb oc ptr l s = Done s' \<and> accounted s'"
  proof (cases "list_index l")
    case None
    with assms a show ?thesis by (simp add: fixed_dealloc_def accounted_def)
  next
    case (Some i)
    from list_index_Some(1) [OF Some] have i: "i < 9" .
    have b: "unat (BLOCK_SIZES ! i) \<le> 2048" "8 \<le> unat (BLOCK_SIZES ! i)"
      using i by (auto simp: nat_less_9 BLOCK_SIZES_def)
    have "pool_bytes ((list_heads s)[i := ptr # (list_heads s ! i)]) =
        unat (block_free s) + unat (BLOCK_SIZES ! i)"
      using pool_bytes_update [OF i, of "list_heads s" "ptr # (list_heads s ! i)"] assms
      by (simp add: accounted_def)
    moreover have "unat (block_free s) + unat (BLOCK_SIZES ! i) < 2 ^ 64"
      using assms a b(1) by (simp add: accounted_def)
    ultimately show ?thesis
      using Some assms b(2)
      by (simp add: fixed_dealloc_def add_chk_Done accounted_def unat_add_no_overflow word_le_nat_alt)
  qed
next
  assume "heap_used fb oc s = Done u \<and> heap_free fb oc s = Done f \<and>
       fb_size fb (fallback_allocator s) =
         fb_used fb (fallback_allocator s) + fb_free fb (fallback_allocator s)"
  then show "u + f = heap_size fb s"
    by (auto simp: heap_used_def heap_free_def heap_size_def sub_chk_def add_chk_def split: if_splits)
qed

definition stub_fallback :: "unit fallback" where
  "stub_fallback = \<lparr> fb_init = (\<lambda>_ _. ()), fb_alloc = (\<lambda>_ _. (None, ())), fb_dealloc = (\<lambda>_ _ _. ()),
     fb_size = (\<lambda>_. 0), fb_used = (\<lambda>_. 0), fb_free = (\<lambda>_. 0) \<rparr>"

definition example_fixed :: "'h \<Rightarrow> 'h fixed_heap" where
  "example_fixed h = \<lparr> list_heads = [[], [], [0x40, 0x80], [], [], [], [], [], []],
     fallback_allocator = h, block_free = 64 \<rparr>"

theorem block_accounting_witness:
  "\<exists>s'. fixed_dealloc stub_fallback True 0x100 \<lparr> lay_size = 5, lay_align = 1 \<rparr> (example_fixed ()) = Done s' \<and>
     accounted s'"
proof -
  have eq: "{..<9 :: nat} = {0, 1, 2, 3, 4, 5, 6, 7, 8}" by auto
  have "accounted (example_fixed ())" "pool_bytes (list_heads (example_fixed ())) = 64"
    by (simp_all add: accounted_def example_fixed_def pool_bytes_def eq BLOCK_SIZES_def)
  with block_accounting [OF this(1), of _ True] show ?thesis by simp
qed

end
