(* ===== verification/Heap_Safety.thy ===== *)
theory Heap_Safety
  imports Fixed_Block_Heap
begin

text \<open>
  Memory safety of the global allocator: blocks that are handed out never overlap. The interface
  \<open>block_heap\<close> says what a heap promises to the allocator in front of it; the client lemmas are
  proved over it, and the linked list allocator is shown to provide it.
\<close>

section \<open>The interface\<close>

text \<open>The bytes a heap sets aside for a block: its extent depends on the layout only.\<close>

definition span :: "(layout \<Rightarrow> nat) \<Rightarrow> usize \<times> layout \<Rightarrow> nat set" where
  "span extent x = {unat (fst x) ..< unat (fst x) + extent (snd x)}"

locale block_heap =
  fixes fb :: "'h fallback"
    and invar :: "'h \<Rightarrow> bool"
    and taken :: "'h \<Rightarrow> nat set"
    and extent :: "layout \<Rightarrow> nat"
    and valid :: "usize \<Rightarrow> layout \<Rightarrow> bool"
    and served :: "layout \<Rightarrow> bool"
  assumes extent_pos: "served l \<Longrightarrow> 0 < extent l"
    and extent_size: "served l \<Longrightarrow> unat (lay_size l) \<le> extent l"
    and alloc_some: "invar h \<Longrightarrow> served l \<Longrightarrow> fb_alloc fb l h = (Some p, h') \<Longrightarrow>
      invar h' \<and> valid p l \<and> unat (lay_align l) dvd unat p \<and>
      span extent (p, l) \<inter> taken h = {} \<and> taken h \<union> span extent (p, l) \<subseteq> taken h'"
    and alloc_none: "invar h \<Longrightarrow> served l \<Longrightarrow> fb_alloc fb l h = (None, h') \<Longrightarrow>
      invar h' \<and> taken h \<subseteq> taken h'"
    and dealloc: "invar h \<Longrightarrow> served l \<Longrightarrow> valid p l \<Longrightarrow> span extent (p, l) \<subseteq> taken h \<Longrightarrow>
      invar (fb_dealloc fb p l h) \<and> taken h - span extent (p, l) \<subseteq> taken (fb_dealloc fb p l h)"
    and served_blocks: "i < 9 \<Longrightarrow> served (block_layout i)"
begin

lemma span_in_taken:
  "invar h \<Longrightarrow> served l \<Longrightarrow> fb_alloc fb l h = (Some p, h') \<Longrightarrow> unat p \<in> taken h' - taken h"
  using alloc_some [of h l p h'] extent_pos [of l] by (fastforce simp: span_def)

end

section \<open>Blocks and their overlap\<close>

text \<open>The layout that the fallback is asked for.\<close>

definition class_layout :: "layout \<Rightarrow> layout" where
  "class_layout l = (case list_index l of Some i \<Rightarrow> block_layout i | None \<Rightarrow> l)"

text \<open>All blocks in the free lists, and together with the live ones, each with its layout.\<close>

definition pool :: "usize list list \<Rightarrow> (usize \<times> layout) multiset" where
  "pool hs = (\<Sum>i < 9. image_mset (\<lambda>p. (p, block_layout i)) (mset (hs ! i)))"

definition live_blocks :: "(usize \<times> layout) multiset \<Rightarrow> (usize \<times> layout) multiset" where
  "live_blocks live = image_mset (\<lambda>(p, l). (p, class_layout l)) live"

definition all_blocks :: "'h fixed_heap \<Rightarrow> (usize \<times> layout) multiset \<Rightarrow> (usize \<times> layout) multiset" where
  "all_blocks s live = pool (list_heads s) + live_blocks live"

text \<open>No byte lies in two of the blocks.\<close>

definition separate :: "(layout \<Rightarrow> nat) \<Rightarrow> (usize \<times> layout) multiset \<Rightarrow> bool" where
  "separate extent M \<longleftrightarrow> (\<forall>b. size (filter_mset (\<lambda>x. b \<in> span extent x) M) \<le> 1)"

lemma separate_add:
  "separate extent (add_mset x M) \<longleftrightarrow>
     separate extent M \<and> (\<forall>y \<in># M. span extent x \<inter> span extent y = {})"
proof
  assume sep: "separate extent (add_mset x M)"
  have "size (filter_mset (\<lambda>x. b \<in> span extent x) M) \<le> 1" for b
    by (rule order_trans [OF _ sep [unfolded separate_def, rule_format, of b]])
       (intro size_mset_mono multiset_filter_mono, simp)
  moreover have "span extent x \<inter> span extent y = {}" if "y \<in># M" for y
  proof (rule ccontr)
    assume "span extent x \<inter> span extent y \<noteq> {}"
    then obtain b where "b \<in> span extent x" "b \<in> span extent y" by blast
    with sep [unfolded separate_def, rule_format, of b] that show False by (cases y) auto
  qed
  ultimately show "separate extent M \<and> (\<forall>y \<in># M. span extent x \<inter> span extent y = {})"
    by (simp add: separate_def)
next
  assume a: "separate extent M \<and> (\<forall>y \<in># M. span extent x \<inter> span extent y = {})"
  have "size (filter_mset (\<lambda>x. b \<in> span extent x) (add_mset x M)) \<le> 1" for b
  proof (cases "b \<in> span extent x")
    case True
    with a have "filter_mset (\<lambda>x. b \<in> span extent x) M = {#}"
      by (auto simp: filter_mset_eq_mempty_iff)
    then have "filter_mset (\<lambda>x. b \<in> span extent x) (add_mset x M) = {#x#}"
      using True by (simp only: filter_mset_add_mset if_True)
    then show ?thesis by (simp only: size_single)
  next
    case False
    with a show ?thesis by (simp add: separate_def)
  qed
  then show "separate extent (add_mset x M)" by (simp add: separate_def)
qed

lemma pool_update:
  assumes "i < 9" and "length hs = 9"
  shows "pool (hs[i := xs]) + image_mset (\<lambda>p. (p, block_layout i)) (mset (hs ! i)) =
    pool hs + image_mset (\<lambda>p. (p, block_layout i)) (mset xs)"
proof -
  let ?f = "\<lambda>hs i. image_mset (\<lambda>p. (p, block_layout i)) (mset (hs ! i))"
  have fin: "finite {..<9 :: nat}" "i \<in> {..<9}" using assms(1) by auto
  have "sum (?f (hs[i := xs])) ({..<9} - {i}) = sum (?f hs) ({..<9} - {i})"
    by (rule sum.cong) auto
  then show ?thesis
    using sum.remove [OF fin, of "?f (hs[i := xs])"] sum.remove [OF fin, of "?f hs"] assms
    by (simp add: pool_def)
qed

section \<open>The client\<close>

text \<open>
  A step of the allocator together with the multiset of the blocks that its clients hold:
  an allocation adds what it returns, a deallocation is of a block that is held.
\<close>

inductive heap_step ::
    "'h fallback \<Rightarrow> bool \<Rightarrow> (layout \<Rightarrow> bool) \<Rightarrow>
     'h fixed_heap \<times> (usize \<times> layout) multiset \<Rightarrow> 'h fixed_heap \<times> (usize \<times> layout) multiset \<Rightarrow> bool"
  for fb oc served where
  allocated: "served (class_layout l) \<Longrightarrow> fixed_alloc fb oc l s = Done (Some p, s') \<Longrightarrow>
     heap_step fb oc served (s, live) (s', add_mset (p, l) live)"
| exhausted: "served (class_layout l) \<Longrightarrow> fixed_alloc fb oc l s = Done (None, s') \<Longrightarrow>
     heap_step fb oc served (s, live) (s', live)"
| deallocated: "(p, l) \<in># live \<Longrightarrow> fixed_dealloc fb oc p l s = Done s' \<Longrightarrow>
     heap_step fb oc served (s, live) (s', live - {#(p, l)#})"

inductive_cases heap_stepE: "heap_step fb oc served (s, live) (s', live')"

inductive heap_run ::
    "'h fallback \<Rightarrow> bool \<Rightarrow> (layout \<Rightarrow> bool) \<Rightarrow>
     'h fixed_heap \<times> (usize \<times> layout) multiset \<Rightarrow> 'h fixed_heap \<times> (usize \<times> layout) multiset \<Rightarrow> bool"
  for fb oc served where
  stop: "heap_run fb oc served x x"
| more: "heap_run fb oc served x y \<Longrightarrow> heap_step fb oc served y z \<Longrightarrow> heap_run fb oc served x z"

definition heap_safe ::
    "('h \<Rightarrow> bool) \<Rightarrow> ('h \<Rightarrow> nat set) \<Rightarrow> (layout \<Rightarrow> nat) \<Rightarrow> (usize \<Rightarrow> layout \<Rightarrow> bool) \<Rightarrow> (layout \<Rightarrow> bool) \<Rightarrow>
     'h fixed_heap \<times> (usize \<times> layout) multiset \<Rightarrow> bool" where
  "heap_safe invar taken extent valid served x = (case x of (s, live) \<Rightarrow>
     length (list_heads s) = 9 \<and> invar (fallback_allocator s) \<and>
     separate extent (all_blocks s live) \<and>
     (\<forall>y \<in># all_blocks s live. span extent y \<subseteq> taken (fallback_allocator s) \<and>
        valid (fst y) (snd y) \<and> served (snd y) \<and> unat (lay_align (snd y)) dvd unat (fst y)))"

lemma heap_safe_D:
  assumes "heap_safe invar taken extent valid served (s, live)"
  shows "length (list_heads s) = 9" "invar (fallback_allocator s)"
    "separate extent (all_blocks s live)"
    "\<And>y. y \<in># all_blocks s live \<Longrightarrow> span extent y \<subseteq> taken (fallback_allocator s) \<and>
        valid (fst y) (snd y) \<and> served (snd y) \<and> unat (lay_align (snd y)) dvd unat (fst y)"
  using assms by (auto simp: heap_safe_def)

context block_heap
begin

lemma fallback_safe:
  assumes safe: "heap_safe invar taken extent valid served (s, live)"
    and lay: "served (class_layout l)"
    and al: "fallback_alloc fb (class_layout l) s = (Some p, s')"
  shows "heap_safe invar taken extent valid served (s', add_mset (p, l) live)"
proof -
  from al obtain h where h: "fb_alloc fb (class_layout l) (fallback_allocator s) = (Some p, h)"
    and s': "s' = s\<lparr>fallback_allocator := h\<rparr>"
    by (auto simp: fallback_alloc_def split: prod.splits)
  note D = heap_safe_D [OF safe]
  from alloc_some [OF D(2) lay h] have new: "invar h" "valid p (class_layout l)"
    "unat (lay_align (class_layout l)) dvd unat p"
    "span extent (p, class_layout l) \<inter> taken (fallback_allocator s) = {}"
    "taken (fallback_allocator s) \<union> span extent (p, class_layout l) \<subseteq> taken h" by simp_all
  have all: "all_blocks s' (add_mset (p, l) live) = add_mset (p, class_layout l) (all_blocks s live)"
    by (simp add: all_blocks_def live_blocks_def s')
  have "separate extent (all_blocks s' (add_mset (p, l) live))"
    unfolding all separate_add using D(3,4) new(4) by blast
  moreover have "span extent y \<subseteq> taken h \<and> valid (fst y) (snd y) \<and> served (snd y) \<and>
      unat (lay_align (snd y)) dvd unat (fst y)"
    if "y \<in># all_blocks s' (add_mset (p, l) live)" for y
    using that D(4) [of y] new lay unfolding all by auto
  ultimately show ?thesis using D(1) new(1) by (simp add: heap_safe_def s')
qed

lemma fallback_exhausted_safe:
  assumes safe: "heap_safe invar taken extent valid served (s, live)"
    and lay: "served (class_layout l)"
    and al: "fallback_alloc fb (class_layout l) s = (None, s')"
  shows "heap_safe invar taken extent valid served (s', live)"
proof -
  from al obtain h where h: "fb_alloc fb (class_layout l) (fallback_allocator s) = (None, h)"
    and s': "s' = s\<lparr>fallback_allocator := h\<rparr>"
    by (auto simp: fallback_alloc_def split: prod.splits)
  note D = heap_safe_D [OF safe]
  from alloc_none [OF D(2) lay h] D show ?thesis
    by (fastforce simp: heap_safe_def s' all_blocks_def)
qed

text \<open>Moving a block between its free list and the live blocks changes no block.\<close>

lemma same_blocks_safe:
  assumes "heap_safe invar taken extent valid served (s, live)"
    and "all_blocks s' live' = all_blocks s live"
    and "fallback_allocator s' = fallback_allocator s" and "length (list_heads s') = 9"
  shows "heap_safe invar taken extent valid served (s', live')"
  using assms by (simp add: heap_safe_def)

lemma alloc_cases:
  assumes "fixed_alloc fb oc l s = Done (r, s')"
  obtains (listed) i p ps where "list_index l = Some i" "i < 9" "list_heads s ! i = p # ps"
      "r = Some p" "list_heads s' = (list_heads s)[i := ps]"
      "fallback_allocator s' = fallback_allocator s"
    | (fallback) "fallback_alloc fb (class_layout l) s = (r, s')"
  using assms
  by (auto simp: fixed_alloc_def class_layout_def and_then_eq_Done
      split: option.splits list.splits dest: list_index_Some(1))

lemma alloc_safe:
  assumes safe: "heap_safe invar taken extent valid served (s, live)"
    and lay: "served (class_layout l)" and al: "fixed_alloc fb oc l s = Done (r, s')"
  shows "heap_safe invar taken extent valid served
    (s', case r of Some p \<Rightarrow> add_mset (p, l) live | None \<Rightarrow> live)"
  using al
proof (cases rule: alloc_cases)
  case (listed i p ps)
  note len = heap_safe_D(1) [OF safe]
  have cl: "class_layout l = block_layout i" using listed(1) by (simp add: class_layout_def)
  have "all_blocks s' (add_mset (p, l) live) = all_blocks s live"
    using pool_update [OF listed(2) len, of ps] listed(3,5)
    by (simp add: all_blocks_def live_blocks_def cl)
  from same_blocks_safe [OF safe this listed(6)] len listed(4,5) show ?thesis by simp
next
  case fallback
  then show ?thesis
    using fallback_safe [OF safe lay] fallback_exhausted_safe [OF safe lay] by (cases r) auto
qed

lemma dealloc_safe:
  assumes safe: "heap_safe invar taken extent valid served (s, live)"
    and held: "(p, l) \<in># live" and de: "fixed_dealloc fb oc p l s = Done s'"
  shows "heap_safe invar taken extent valid served (s', live - {#(p, l)#})"
proof -
  note D = heap_safe_D [OF safe]
  from held obtain rest where rest: "live = add_mset (p, l) rest" by (auto dest: multi_member_split)
  show ?thesis
  proof (cases "list_index l")
    case (Some i)
    from list_index_Some(1) [OF Some] have i: "i < 9" .
    from de Some have hs: "list_heads s' = (list_heads s)[i := p # (list_heads s ! i)]"
      and fa: "fallback_allocator s' = fallback_allocator s"
      by (auto simp: fixed_dealloc_def and_then_eq_Done split: if_splits)
    have cl: "class_layout l = block_layout i" using Some by (simp add: class_layout_def)
    have "all_blocks s' rest = all_blocks s live"
      using pool_update [OF i D(1), of "p # (list_heads s ! i)"]
      by (simp add: all_blocks_def live_blocks_def cl rest hs)
    from same_blocks_safe [OF safe this fa] D(1) rest show ?thesis by (simp add: hs)
  next
    case None
    then have cl: "class_layout l = l" by (simp add: class_layout_def)
    from de None have s': "s' = s\<lparr>fallback_allocator := fb_dealloc fb p l (fallback_allocator s)\<rparr>"
      by (simp add: fixed_dealloc_def split: if_splits)
    have all: "all_blocks s live = add_mset (p, l) (all_blocks s' rest)"
      by (simp add: all_blocks_def live_blocks_def cl rest s')
    then have "(p, l) \<in># all_blocks s live" by simp
    from D(4) [OF this] dealloc [OF D(2), of l p] have
      new: "invar (fb_dealloc fb p l (fallback_allocator s))"
        "taken (fallback_allocator s) - span extent (p, l)
          \<subseteq> taken (fb_dealloc fb p l (fallback_allocator s))" by simp_all
    from D(3) have sep: "separate extent (all_blocks s' rest)"
      "\<forall>y \<in># all_blocks s' rest. span extent (p, l) \<inter> span extent y = {}"
      unfolding all separate_add by simp_all
    have "span extent y \<subseteq> taken (fallback_allocator s') \<and> valid (fst y) (snd y) \<and> served (snd y) \<and>
        unat (lay_align (snd y)) dvd unat (fst y)" if y: "y \<in># all_blocks s' rest" for y
      using D(4) [of y] sep(2) y new(2) unfolding all by (auto simp: s')
    with sep(1) D(1) new(1) show ?thesis by (simp add: heap_safe_def rest s')
  qed
qed

lemma run_safe:
  assumes "heap_run fb oc served x y" and "heap_safe invar taken extent valid served x"
  shows "heap_safe invar taken extent valid served y"
  using assms
proof (induction rule: heap_run.induct)
  case (stop x)
  then show ?case .
next
  case (more x y z)
  then have "heap_safe invar taken extent valid served y" by blast
  with more.hyps(2) show ?case
    by (cases rule: heap_step.cases) (auto dest: alloc_safe dealloc_safe)
qed

lemma start_safe: "invar h \<Longrightarrow> heap_safe invar taken extent valid served (fixed_new h, {#})"
  by (simp add: heap_safe_def fixed_new_def all_blocks_def pool_def live_blocks_def separate_def
      nth_replicate)

text \<open>Two blocks that are held at the same time share no byte of what their layouts ask for.\<close>

lemma held_disjoint:
  assumes safe: "heap_safe invar taken extent valid served (s, add_mset (p, l) (add_mset (q, m) live))"
  shows "block_bytes p (lay_size l) \<inter> block_bytes q (lay_size m) = {}"
proof -
  have sub: "block_bytes p (lay_size l) \<subseteq> span extent (p, class_layout l)"
    if "served (class_layout l)" for p l
  proof -
    have "unat (lay_size l) \<le> unat (lay_size (class_layout l))"
      by (cases "list_index l")
         (auto simp: class_layout_def block_layout_def word_le_nat_alt [symmetric] dest: list_index_Some(2))
    with extent_size [OF that] show ?thesis by (auto simp: block_bytes_def span_def)
  qed
  have all: "all_blocks s (add_mset (p, l) (add_mset (q, m) live)) =
      add_mset (p, class_layout l) (add_mset (q, class_layout m) (all_blocks s live))"
    by (simp add: all_blocks_def live_blocks_def)
  note D = heap_safe_D [OF safe, unfolded all]
  from D(3) have "span extent (p, class_layout l) \<inter> span extent (q, class_layout m) = {}"
    by (auto simp: separate_add)
  moreover have "served (class_layout l)" "served (class_layout m)"
    using D(4) [of "(p, class_layout l)"] D(4) [of "(q, class_layout m)"] by simp_all
  ultimately show ?thesis using sub by blast
qed

end

section \<open>The linked list allocator provides the interface\<close>

text \<open>
  The linked list allocator of this repository as a heap behind the fixed size blocks. Its
  addresses stay below \<open>heap_limit\<close>, and alignments up to a page are served, so that rounding
  an address up never wraps.
\<close>

definition heap_limit :: nat where "heap_limit = 2 ^ 64 - 2 ^ 16"

definition linked_fallback :: "bool \<Rightarrow> list_node list fallback" where
  "linked_fallback oc = \<lparr>
     fb_init = (\<lambda>start sz. case list_heap_init oc start sz of Done h \<Rightarrow> h | _ \<Rightarrow> []),
     fb_alloc = (\<lambda>l h. case list_alloc oc l h of Done r \<Rightarrow> r | _ \<Rightarrow> (None, h)),
     fb_dealloc = (\<lambda>p l h. case list_dealloc oc p l h of Done h' \<Rightarrow> h' | _ \<Rightarrow> h),
     fb_size = (\<lambda>h. 0), fb_used = (\<lambda>h. 0), fb_free = (\<lambda>h. sum_list (map node_size h)) \<rparr>"

definition linked_invar :: "list_node list \<Rightarrow> bool" where
  "linked_invar h \<longleftrightarrow> list_heap_ok h \<and> (\<forall>r \<in> set h. unat (node_addr r) + unat (node_size r) \<le> heap_limit)"

definition linked_taken :: "list_node list \<Rightarrow> nat set" where
  "linked_taken h = {..<heap_limit} - free_bytes h"

definition linked_extent :: "layout \<Rightarrow> nat" where
  "linked_extent l = (case size_align l of Done (sz, _) \<Rightarrow> unat sz | _ \<Rightarrow> 0)"

definition linked_valid :: "usize \<Rightarrow> layout \<Rightarrow> bool" where
  "linked_valid p l \<longleftrightarrow> 8 dvd unat p"

definition linked_served :: "layout \<Rightarrow> bool" where
  "linked_served l \<longleftrightarrow> layout_ok l \<and> lay_align l \<le> 4096 \<and> (\<exists>r. size_align l = Done r)"

lemma linked_served_size_align:
  assumes "linked_served l"
  obtains sz align where "size_align l = Done (sz, align)" "layout_ok l" "unat align \<le> 4096"
    "linked_extent l = unat sz" "16 \<le> unat sz" "lay_size l \<le> sz"
proof -
  from assms obtain sz align where r: "layout_ok l" "lay_align l \<le> 4096" "size_align l = Done (sz, align)"
    by (auto simp: linked_served_def)
  have "16 \<le> unat sz" "lay_size l \<le> sz" using size_align_correct [OF r(1,3)] by blast+
  moreover have "align = max (lay_align l) 8"
    using r(3) by (auto simp: size_align_def align_to_def align_of_node_def pad_to_align_def Let_def
        split: if_splits)
  then have "unat align \<le> 4096" using r(2) by (auto simp: word_le_nat_alt max_def)
  ultimately show thesis using r that by (simp add: linked_extent_def)
qed

lemma linked_invar_room:
  "linked_invar h \<Longrightarrow> unat align \<le> 4096 \<Longrightarrow> \<forall>r \<in> set h. unat (node_addr r) + unat (align :: u64) < 2 ^ 64"
  by (fastforce simp: linked_invar_def heap_limit_def)

lemma linked_invar_free: "linked_invar h \<Longrightarrow> free_bytes h \<subseteq> {..<heap_limit}"
  by (fastforce simp: linked_invar_def free_bytes_def region_bytes_def)

lemma linked_invarI:
  assumes "list_heap_ok h" and "free_bytes h \<subseteq> {..<heap_limit}"
  shows "linked_invar h"
proof -
  have "unat (node_addr r) + unat (node_size r) \<le> heap_limit" if r: "r \<in> set h" for r
  proof -
    from assms(1) r have "16 \<le> unat (node_size r)" by (auto simp: list_heap_ok_def node_ok_def)
    then have "unat (node_addr r) + unat (node_size r) - 1 \<in> region_bytes r"
      by (auto simp: region_bytes_def)
    with r assms(2) have "unat (node_addr r) + unat (node_size r) - 1 < heap_limit"
      by (auto simp: free_bytes_def)
    then show ?thesis by simp
  qed
  with assms(1) show ?thesis by (simp add: linked_invar_def)
qed

lemma linked_alloc:
  assumes inv: "linked_invar h" and srv: "linked_served l"
    and al: "fb_alloc (linked_fallback oc) l h = (r, h')"
  shows "linked_invar h' \<and> linked_taken h \<subseteq> linked_taken h' \<and>
    (case r of None \<Rightarrow> True
     | Some p \<Rightarrow> linked_valid p l \<and> unat (lay_align l) dvd unat p \<and>
         span linked_extent (p, l) \<inter> linked_taken h = {} \<and> span linked_extent (p, l) \<subseteq> linked_taken h')"
proof -
  from srv obtain sz align where lay: "layout_ok l" "size_align l = Done (sz, align)" "unat align \<le> 4096"
    "linked_extent l = unat sz" by (elim linked_served_size_align)
  have ok: "list_heap_ok h" using inv by (simp add: linked_invar_def)
  from list_alloc_ok [OF ok lay(1,2) linked_invar_room [OF inv lay(3)], of oc] al
  have res: "list_alloc oc l h = Done (r, h')" "list_heap_ok h'"
    "case r of None \<Rightarrow> h' = h
     | Some p \<Rightarrow> unat (lay_align l) dvd unat p \<and> 8 dvd unat p \<and> lay_size l \<le> sz \<and>
         block_bytes p sz \<subseteq> free_bytes h \<and> block_bytes p sz \<inter> free_bytes h' = {} \<and>
         free_bytes h' \<subseteq> free_bytes h" by (auto simp: linked_fallback_def)
  show ?thesis
  proof (cases r)
    case None
    with res(3) inv show ?thesis by simp
  next
    case (Some p)
    have sp: "span linked_extent (p, l) = block_bytes p sz"
      by (simp add: span_def block_bytes_def lay(4))
    from Some res(3) linked_invar_free [OF inv] have "free_bytes h' \<subseteq> {..<heap_limit}" by auto
    with res(2) have "linked_invar h'" by (rule linked_invarI)
    with Some res(3) linked_invar_free [OF inv] show ?thesis
      by (auto simp: linked_taken_def linked_valid_def sp)
  qed
qed

lemma linked_dealloc:
  assumes inv: "linked_invar h" and srv: "linked_served l" and p: "linked_valid p l"
    and sub: "span linked_extent (p, l) \<subseteq> linked_taken h"
  shows "linked_invar (fb_dealloc (linked_fallback oc) p l h) \<and>
    linked_taken h - span linked_extent (p, l) \<subseteq> linked_taken (fb_dealloc (linked_fallback oc) p l h)"
proof -
  from srv obtain sz align where lay: "size_align l = Done (sz, align)"
    "linked_extent l = unat sz" "16 \<le> unat sz" by (elim linked_served_size_align)
  have sp: "span linked_extent (p, l) = block_bytes p sz"
    by (simp add: span_def block_bytes_def lay(2))
  from lay(3) have "unat p + unat sz - 1 \<in> block_bytes p sz" by (auto simp: block_bytes_def)
  with sub have lim: "unat p + unat sz \<le> heap_limit" using lay(3) by (auto simp: sp linked_taken_def)
  have ok: "list_heap_ok h" using inv by (simp add: linked_invar_def)
  from list_dealloc_ok [OF ok lay(1,3), of p oc] p lim sub obtain h' where
    h': "list_dealloc oc p l h = Done h'" "list_heap_ok h'" "free_bytes h' = free_bytes h \<union> block_bytes p sz"
    by (auto simp: linked_valid_def heap_limit_def sp linked_taken_def)
  have "free_bytes h' \<subseteq> {..<heap_limit}"
    using h'(3) lim linked_invar_free [OF inv] by (auto simp: block_bytes_def)
  with h'(2) have "linked_invar h'" by (rule linked_invarI)
  then show ?thesis using h' by (auto simp: linked_fallback_def linked_taken_def sp)
qed

lemma linked_served_blocks: "i < 9 \<Longrightarrow> linked_served (block_layout i)"
proof -
  assume i: "i < 9"
  have "lay_align (block_layout i) \<le> 4096"
    "\<exists>r. size_align (block_layout i) = Done r"
    using i by (auto simp: nat_less_9 block_layout_def BLOCK_SIZES_def size_align_def align_to_def
        align_of_node_def isize_max_def Let_def)
  with block_layout_ok [OF i] show ?thesis by (simp add: linked_served_def)
qed

interpretation linked: block_heap "linked_fallback oc" linked_invar linked_taken linked_extent
  linked_valid linked_served for oc
proof
  fix l assume "linked_served l"
  then obtain sz where "linked_extent l = unat sz" "16 \<le> unat sz" "lay_size l \<le> sz"
    by (elim linked_served_size_align)
  then show "0 < linked_extent l" "unat (lay_size l) \<le> linked_extent l"
    by (simp_all add: word_le_nat_alt)
next
  fix h l p h'
  assume "linked_invar h" "linked_served l" "fb_alloc (linked_fallback oc) l h = (Some p, h')"
  then show "linked_invar h' \<and> linked_valid p l \<and> unat (lay_align l) dvd unat p \<and>
      span linked_extent (p, l) \<inter> linked_taken h = {} \<and>
      linked_taken h \<union> span linked_extent (p, l) \<subseteq> linked_taken h'"
    using linked_alloc [of h l oc "Some p" h'] by simp
qed (auto dest: linked_alloc linked_dealloc intro: linked_served_blocks)

section \<open>No two live blocks overlap\<close>

text \<open>
  C1: Memory safety of the global allocator. Start from the empty fixed size block allocator
  over any heap that keeps the promises of the interface (hypothesis \<open>block_heap\<close>), and run any
  sequence of allocations and of deallocations of blocks that are held, in either build profile:
  two blocks that are held at the same time share no byte of their layouts, although freed
  blocks are handed out again from the free lists, for other layouts of the same class.
\<close>
theorem live_blocks_disjoint:
  assumes "block_heap fb invar taken extent valid served" and "invar h"
    and "heap_run fb oc served (fixed_new h, {#}) (s, add_mset (p, l) (add_mset (q, m) live))"
  shows "block_bytes p (lay_size l) \<inter> block_bytes q (lay_size m) = {}"
  by (rule block_heap.held_disjoint [OF assms(1)],
      rule block_heap.run_safe [OF assms(1,3) block_heap.start_safe [OF assms(1,2)]])

text \<open>Two blocks of the same class out of one region.\<close>

definition example_start :: "list_node list fixed_heap" where
  "example_start = fixed_new [\<lparr> node_addr = 0x1000, node_size = 0x1000 \<rparr>]"

definition example_two :: "list_node list fixed_heap" where
  "example_two = fixed_new [\<lparr> node_addr = 0x1040, node_size = 0xFC0 \<rparr>]"

lemmas example_eval = fixed_alloc_def fallback_alloc_def list_index_def BLOCK_SIZES_def block_layout_def
  linked_fallback_def list_alloc_def size_align_def align_to_def align_of_node_def isize_max_def
  pad_to_align_def size_of_node_def Let_def max_def alloc_from_region_def align_up_def add_chk_def
  sub_chk_def checked_add_def end_addr_def add_free_region_def fixed_new_def example_layout_def

lemma example_first:
  "fixed_alloc (linked_fallback True) True example_layout example_start =
     Done (Some 0x1000, fixed_new [\<lparr> node_addr = 0x1020, node_size = 0xFE0 \<rparr>])"
  by (simp add: example_eval example_start_def)

lemma example_second:
  "fixed_alloc (linked_fallback True) True example_layout
      (fixed_new [\<lparr> node_addr = 0x1020, node_size = 0xFE0 \<rparr>]) = Done (Some 0x1020, example_two)"
  by (simp add: example_eval example_two_def)

lemma example_served: "linked_served (class_layout example_layout)"
proof -
  have "list_index example_layout = Some (Suc (Suc 0))"
    by (simp add: list_index_def BLOCK_SIZES_def example_layout_def)
  then have "class_layout example_layout = block_layout (Suc (Suc 0))" by (simp add: class_layout_def)
  then show ?thesis by (simp add: linked_served_blocks)
qed

lemma example_run:
  "heap_run (linked_fallback True) True linked_served (example_start, {#})
     (example_two, add_mset (0x1020, example_layout) (add_mset (0x1000, example_layout) {#}))"
  using heap_run.more [OF heap_run.more [OF heap_run.stop heap_step.allocated]
      heap_step.allocated] example_served example_first example_second by fast

lemma example_invar: "linked_invar [\<lparr> node_addr = 0x1000, node_size = 0x1000 \<rparr>]"
  by (simp add: linked_invar_def list_heap_ok_def node_ok_def heap_limit_def)

theorem live_blocks_disjoint_witness:
  "block_bytes 0x1020 (lay_size example_layout) \<inter> block_bytes 0x1000 (lay_size example_layout) = {}"
  by (rule live_blocks_disjoint [OF linked.block_heap_axioms example_invar
        example_run [unfolded example_start_def]])

end
