(* ===== verification/Machine.thy ===== *)
theory Machine
  imports Externals
begin

text \<open>
  The part of the x86-64 processor that the assembly of the kernel uses: the general registers,
  the flags, \<open>cr3\<close>, the segment bases, and memory as 8-byte slots keyed by their address. The
  assembly of the repository only accesses aligned slots, so two accesses overlap exactly when
  their addresses are equal. The programs of \<open>context/switch.rs\<close> and \<open>syscalls\<close> are lists of
  these instructions in the order of the source.
\<close>

section \<open>State\<close>

datatype reg = Rax | Rbx | Rcx | Rdx | Rbp | Rsi | Rdi | Rsp | R8 | R9 | R10 | R11 | R12 | R13 | R14 | R15

record cpu =
  gpr :: "reg \<Rightarrow> u64"
  rflags :: u64
  cr3 :: u64
  fs_base :: u64
  gs_base :: u64
  kernel_gs_base :: u64
  slots :: "u64 \<Rightarrow> u64"

text \<open>
  The flags: the arithmetic flags (CF, PF, AF, ZF, SF, OF) that a comparison sets, and what
  \<open>popfq\<close> loads at privilege level 0 (all defined flags but RF, VM, VIF and VIP; bit 1 is one).
\<close>

definition arith_flags :: u64 where "arith_flags = 0x8D5"
definition loaded_flags :: u64 where "loaded_flags = 0x247FD5"

definition popf_value :: "u64 \<Rightarrow> u64" where
  "popf_value v = (v AND loaded_flags) OR 2"

definition even_parity :: "u64 \<Rightarrow> bool" where
  "even_parity v = even (length (filter (bit v) [0..<8]))"

definition cmp_flags :: "u64 \<Rightarrow> u64 \<Rightarrow> u64" where
  "cmp_flags a b = (let d = a - b in
     (if a < b then 0x1 else 0) OR
     (if even_parity d then 0x4 else 0) OR
     (if a AND 0xF < b AND 0xF then 0x10 else 0) OR
     (if d = 0 then 0x40 else 0) OR
     (if bit d 63 then 0x80 else 0) OR
     (if bit a 63 \<noteq> bit b 63 \<and> bit d 63 \<noteq> bit a 63 then 0x800 else 0))"

definition flags_after_cmp :: "u64 \<Rightarrow> u64 \<Rightarrow> u64 \<Rightarrow> u64" where
  "flags_after_cmp a b f = (f AND NOT arith_flags) OR cmp_flags a b"

definition zero_flag :: "u64 \<Rightarrow> bool" where "zero_flag f = bit f 6"

section \<open>Instructions\<close>

datatype instr =
    Load reg reg u64
  | Store reg u64 reg
  | LoadFs reg u64
  | StoreFs u64 reg
  | MovR reg reg
  | ReadCr3 reg
  | WriteCr3 reg
  | Cmp reg reg
  | Push reg
  | Pop reg
  | PushMem reg u64
  | PopMem reg u64
  | Pushfq
  | Popfq
  | Swapgs

definition set_reg :: "reg \<Rightarrow> u64 \<Rightarrow> cpu \<Rightarrow> cpu" where
  "set_reg r v c = c\<lparr>gpr := (gpr c)(r := v)\<rparr>"

definition set_slot :: "u64 \<Rightarrow> u64 \<Rightarrow> cpu \<Rightarrow> cpu" where
  "set_slot a v c = c\<lparr>slots := (slots c)(a := v)\<rparr>"

definition push_val :: "u64 \<Rightarrow> cpu \<Rightarrow> cpu" where
  "push_val v c = set_slot (gpr c Rsp - 8) v (set_reg Rsp (gpr c Rsp - 8) c)"

definition pop_step :: "cpu \<Rightarrow> cpu" where
  "pop_step c = set_reg Rsp (gpr c Rsp + 8) c"

fun exec :: "instr \<Rightarrow> cpu \<Rightarrow> cpu" where
  "exec (Load r b off) c = set_reg r (slots c (gpr c b + off)) c"
| "exec (Store b off r) c = set_slot (gpr c b + off) (gpr c r) c"
| "exec (LoadFs r off) c = set_reg r (slots c (fs_base c + off)) c"
| "exec (StoreFs off r) c = set_slot (fs_base c + off) (gpr c r) c"
| "exec (MovR r q) c = set_reg r (gpr c q) c"
| "exec (ReadCr3 r) c = set_reg r (cr3 c) c"
| "exec (WriteCr3 r) c = c\<lparr>cr3 := gpr c r\<rparr>"
| "exec (Cmp r q) c = c\<lparr>rflags := flags_after_cmp (gpr c r) (gpr c q) (rflags c)\<rparr>"
| "exec (Push r) c = push_val (gpr c r) c"
| "exec (Pop r) c = set_reg r (slots c (gpr c Rsp)) (pop_step c)"
| "exec (PushMem b off) c = push_val (slots c (gpr c b + off)) c"
| "exec (PopMem b off) c = (let c' = pop_step c in set_slot (gpr c' b + off) (slots c (gpr c Rsp)) c')"
| "exec Pushfq c = push_val (rflags c) c"
| "exec Popfq c = (pop_step c)\<lparr>rflags := popf_value (slots c (gpr c Rsp))\<rparr>"
| "exec Swapgs c = c\<lparr>gs_base := kernel_gs_base c, kernel_gs_base := gs_base c\<rparr>"

definition run :: "instr list \<Rightarrow> cpu \<Rightarrow> cpu" where
  "run is c = fold exec is c"

text \<open>A forward \<open>je\<close>: the instructions up to the label are skipped when the zero flag is set.\<close>

definition run_unless_equal :: "instr list \<Rightarrow> cpu \<Rightarrow> cpu" where
  "run_unless_equal is c = (if zero_flag (rflags c) then c else run is c)"

lemma run_simps [simp]:
  "run [] c = c" "run (i # is) c = run is (exec i c)" "run (is @ js) c = run js (run is c)"
  by (simp_all add: run_def)

lemmas machine_defs = set_reg_def set_slot_def push_val_def pop_step_def Let_def

section \<open>Flags\<close>

lemma zero_flag_or: "zero_flag (x OR y) \<longleftrightarrow> zero_flag x \<or> zero_flag y"
  by (simp add: zero_flag_def bit_or_iff)

lemma zero_flag_and: "zero_flag (x AND y) \<longleftrightarrow> zero_flag x \<and> zero_flag y"
  by (simp add: zero_flag_def bit_and_iff)

lemma zero_flag_if: "zero_flag (if P then x else 0) \<longleftrightarrow> P \<and> zero_flag x"
  by (simp add: zero_flag_def)

lemma zero_flag_consts:
  "\<not> zero_flag 0x1" "\<not> zero_flag 0x4" "\<not> zero_flag 0x10" "zero_flag 0x40" "\<not> zero_flag 0x80"
  "\<not> zero_flag 0x800" "\<not> zero_flag (NOT arith_flags)"
  by (simp_all add: zero_flag_def arith_flags_def bit_not_iff)

lemma zero_flag_after_cmp: "zero_flag (flags_after_cmp a b f) \<longleftrightarrow> a = b"
  by (simp only: flags_after_cmp_def cmp_flags_def Let_def zero_flag_or zero_flag_and zero_flag_if
      zero_flag_consts) simp

text \<open>A comparison leaves every other flag, in particular the interrupt and direction flags.\<close>

lemma and_not_or: "(x OR y) AND NOT m = (x AND NOT m) OR (y AND NOT m)" for x y m :: u64
  by (rule bit_word_eqI) (auto simp: bit_simps)

lemma if_and_not: "(if P then x else 0) AND NOT m = (if P then x AND NOT m else 0)" for x m :: u64
  by simp

lemma arith_consts:
  "0x1 AND NOT arith_flags = 0" "0x4 AND NOT arith_flags = 0" "0x10 AND NOT arith_flags = 0"
  "0x40 AND NOT arith_flags = 0" "0x80 AND NOT arith_flags = 0" "0x800 AND NOT arith_flags = 0"
  by (simp_all add: arith_flags_def)

lemma cmp_flags_only_arith: "cmp_flags a b AND NOT arith_flags = 0"
  by (simp only: cmp_flags_def Let_def and_not_or if_and_not arith_consts) simp

lemma flags_after_cmp_keeps: "flags_after_cmp a b f AND NOT arith_flags = f AND NOT arith_flags"
  by (simp add: flags_after_cmp_def and_not_or cmp_flags_only_arith and.assoc)

lemma popf_value_idem: "popf_value (popf_value v) = popf_value v"
  by (rule bit_word_eqI) (auto simp: popf_value_def bit_or_iff bit_and_iff)

text \<open>The flags a running processor can have are the ones that \<open>popfq\<close> loads as they are.\<close>

definition flags_ok :: "u64 \<Rightarrow> bool" where
  "flags_ok f \<longleftrightarrow> popf_value f = f"

lemma flags_ok_popf [simp]: "flags_ok (popf_value v)"
  by (simp add: flags_ok_def popf_value_idem)

lemma arith_loaded_consts:
  "0x1 AND loaded_flags = 0x1" "0x4 AND loaded_flags = 0x4" "0x10 AND loaded_flags = 0x10"
  "0x40 AND loaded_flags = 0x40" "0x80 AND loaded_flags = 0x80" "0x800 AND loaded_flags = 0x800"
  "2 AND arith_flags = 0"
  by (simp_all add: loaded_flags_def arith_flags_def)

lemma cmp_flags_loaded: "cmp_flags a b AND loaded_flags = cmp_flags a b"
proof -
  have or: "(x OR y) AND m = (x AND m) OR (y AND m)" for x y m :: u64
    by (rule bit_word_eqI) (auto simp: bit_simps)
  have cond: "(if P then x else 0) AND m = (if P then x AND m else 0)" for P and x m :: u64 by simp
  show ?thesis by (simp only: cmp_flags_def Let_def or cond arith_loaded_consts)
qed

lemma flags_after_cmp_ok:
  assumes "flags_ok f"
  shows "flags_ok (flags_after_cmp a b f)"
proof -
  have "bit (popf_value (flags_after_cmp a b f)) n = bit (flags_after_cmp a b f) n" for n
  proof -
    have 1: "bit f n = (bit f n \<and> bit loaded_flags n \<or> bit (2 :: u64) n)"
      using arg_cong [OF assms [unfolded flags_ok_def popf_value_def], of "\<lambda>w. bit w n"]
      by (simp only: bit_or_iff bit_and_iff)
    have 2: "bit (cmp_flags a b) n = (bit (cmp_flags a b) n \<and> bit loaded_flags n)"
      using arg_cong [OF cmp_flags_loaded, of "\<lambda>w. bit w n"] by (simp only: bit_and_iff)
    have 3: "\<not> (bit (2 :: u64) n \<and> bit arith_flags n)"
      using arg_cong [OF arith_loaded_consts(7), of "\<lambda>w. bit w n"]
      by (simp only: bit_and_iff bit_0_eq bot_apply) simp
    have 4: "n < 64" if "bit (2 :: u64) n \<or> bit f n" using that by (auto dest: bit_imp_le_length)
    show ?thesis
      using 1 2 3 4 by (simp only: popf_value_def flags_after_cmp_def bit_or_iff bit_and_iff bit_not_iff) auto
  qed
  then show ?thesis unfolding flags_ok_def by (intro bit_word_eqI)
qed

end
