(* ===== verification/Context_Switch.thy ===== *)
theory Context_Switch
  imports Machine
begin

text \<open>
  Switching between two contexts (\<open>context/switch.rs\<close>): the saved registers \<open>ContextRegs\<close>, and the
  naked function \<open>switch_task\<close> as the list of its instructions on the processor. Its abstract
  specification \<open>swap_context\<close> says what becomes of the two saved contexts and of the running
  one; the scheduler is built on that specification.
\<close>

section \<open>The model\<close>

record context_regs =
  c_cr3 :: usize
  c_rbx :: usize
  c_rbp :: usize
  c_r12 :: usize
  c_r13 :: usize
  c_r14 :: usize
  c_r15 :: usize
  c_rsp :: usize
  c_rflags :: usize

definition context_regs_default :: context_regs where
  "context_regs_default = \<lparr> c_cr3 = 0, c_rbx = 0, c_rbp = 0, c_r12 = 0, c_r13 = 0, c_r14 = 0,
     c_r15 = 0, c_rsp = 0, c_rflags = 0 \<rparr>"

text \<open>\<open>reload_cr3\<close> stores the address of the frame of the level 4 table.\<close>

definition reload_cr3 :: "u64 \<Rightarrow> context_regs \<Rightarrow> context_regs" where
  "reload_cr3 frame c = c\<lparr>c_cr3 := frame\<rparr>"

definition push_stack ::
    "bool \<Rightarrow> usize \<Rightarrow> context_regs \<Rightarrow> (u64 \<Rightarrow> u64) \<Rightarrow> (context_regs \<times> (u64 \<Rightarrow> u64)) outcome" where
  "push_stack oc val c m =
     and_then (sub_chk oc (c_rsp c) 8) (\<lambda>sp. Done (c\<lparr>c_rsp := sp\<rparr>, m(sp := val)))"

text \<open>The offsets of the fields (\<open>repr(C)\<close>): the order of the declaration, 8 bytes each.\<close>

definition off_cr3 :: u64 where "off_cr3 = 0"
definition off_rbx :: u64 where "off_rbx = 8"
definition off_rbp :: u64 where "off_rbp = 16"
definition off_r12 :: u64 where "off_r12 = 24"
definition off_r13 :: u64 where "off_r13 = 32"
definition off_r14 :: u64 where "off_r14 = 40"
definition off_r15 :: u64 where "off_r15 = 48"
definition off_rsp :: u64 where "off_rsp = 56"
definition off_rflags :: u64 where "off_rflags = 64"

lemmas off_defs = off_cr3_def off_rbx_def off_rbp_def off_r12_def off_r13_def off_r14_def
  off_r15_def off_rsp_def off_rflags_def

definition switch_asm :: "instr list" where
  "switch_asm = [
     Store Rdi off_rbx Rbx, Load Rbx Rsi off_rbx,
     Store Rdi off_rbp Rbp, Load Rbp Rsi off_rbp,
     Store Rdi off_r12 R12, Load R12 Rsi off_r12,
     Store Rdi off_r13 R13, Load R13 Rsi off_r13,
     Store Rdi off_r14 R14, Load R14 Rsi off_r14,
     Store Rdi off_r15 R15, Load R15 Rsi off_r15,
     Store Rdi off_rsp Rsp, Load Rsp Rsi off_rsp,
     Pushfq, PopMem Rdi off_rflags, PushMem Rsi off_rflags, Popfq]"

text \<open>
  \<open>switch_task\<close> up to its final jump to \<open>after_task_switch\<close>; the addresses of the two contexts
  come in \<open>rdi\<close> and \<open>rsi\<close>.
\<close>

definition switch_task :: "cpu \<Rightarrow> cpu" where
  "switch_task c =
     (let c1 = run [ReadCr3 Rcx, Load Rax Rsi off_cr3, Cmp Rcx Rax] c;
          c2 = run_unless_equal [WriteCr3 Rax] c1
      in run switch_asm c2)"

section \<open>Specification\<close>

text \<open>The context saved in memory at an address, and the one the processor runs in.\<close>

definition context_at :: "cpu \<Rightarrow> u64 \<Rightarrow> context_regs" where
  "context_at c a = \<lparr> c_cr3 = slots c (a + off_cr3), c_rbx = slots c (a + off_rbx),
     c_rbp = slots c (a + off_rbp), c_r12 = slots c (a + off_r12), c_r13 = slots c (a + off_r13),
     c_r14 = slots c (a + off_r14), c_r15 = slots c (a + off_r15), c_rsp = slots c (a + off_rsp),
     c_rflags = slots c (a + off_rflags) \<rparr>"

definition running :: "cpu \<Rightarrow> context_regs" where
  "running c = \<lparr> c_cr3 = cr3 c, c_rbx = gpr c Rbx, c_rbp = gpr c Rbp, c_r12 = gpr c R12,
     c_r13 = gpr c R13, c_r14 = gpr c R14, c_r15 = gpr c R15, c_rsp = gpr c Rsp,
     c_rflags = rflags c \<rparr>"

definition context_slots :: "u64 \<Rightarrow> u64 set" where
  "context_slots a = (\<lambda>off. a + off) ` {off_cr3, off_rbx, off_rbp, off_r12, off_r13, off_r14,
     off_r15, off_rsp, off_rflags}"

text \<open>
  The abstract switch from the running context to \<open>t\<close>: what is saved in \<open>f\<close> (all but its
  \<open>cr3\<close>, and with the arithmetic flags of the comparison), and what runs afterwards.
\<close>

definition swap_context :: "context_regs \<Rightarrow> context_regs \<Rightarrow> context_regs \<Rightarrow> context_regs \<times> context_regs" where
  "swap_context now f t =
     (now\<lparr>c_cr3 := c_cr3 f, c_rflags := flags_after_cmp (c_cr3 now) (c_cr3 t) (c_rflags now)\<rparr>,
      t\<lparr>c_rflags := popf_value (c_rflags t)\<rparr>)"

section \<open>The assembly implements the specification\<close>

lemma context_slots_mem:
  "a + off_cr3 \<in> context_slots a" "a + off_rbx \<in> context_slots a" "a + off_rbp \<in> context_slots a"
  "a + off_r12 \<in> context_slots a" "a + off_r13 \<in> context_slots a" "a + off_r14 \<in> context_slots a"
  "a + off_r15 \<in> context_slots a" "a + off_rsp \<in> context_slots a" "a + off_rflags \<in> context_slots a"
  by (simp_all add: context_slots_def)

lemma slots_apart:
  assumes "context_slots f \<inter> context_slots t = {}"
  shows "f + i \<in> context_slots f \<Longrightarrow> t + j \<in> context_slots t \<Longrightarrow> f + i \<noteq> t + j"
  using assms by (metis IntI empty_iff)

lemma switch_cr3:
  "run_unless_equal [WriteCr3 Rax] (run [ReadCr3 Rcx, Load Rax Rsi off_cr3, Cmp Rcx Rax] c) =
     (let t = slots c (gpr c Rsi + off_cr3) in
      c\<lparr>gpr := (gpr c)(Rcx := cr3 c, Rax := t), cr3 := t,
        rflags := flags_after_cmp (cr3 c) t (rflags c)\<rparr>)"
  by (cases c) (auto simp: run_unless_equal_def machine_defs zero_flag_after_cmp)

text \<open>The pairs of a store and a load, in general.\<close>

definition save_load :: "(reg \<times> u64) list \<Rightarrow> instr list" where
  "save_load rs = concat (map (\<lambda>(r, off). [Store Rdi off r, Load r Rsi off]) rs)"

lemma save_load_simps [simp]:
  "save_load [] = []" "save_load ((r, off) # rs) = Store Rdi off r # Load r Rsi off # save_load rs"
  by (simp_all add: save_load_def)

definition saved_slots :: "(reg \<Rightarrow> u64) \<Rightarrow> u64 \<Rightarrow> (reg \<times> u64) list \<Rightarrow> u64 \<Rightarrow> u64 option" where
  "saved_slots g f rs = map_of (map (\<lambda>(r, off). (f + off, g r)) rs)"

lemma saved_slots_cong:
  "(\<And>r. r \<in> fst ` set rs \<Longrightarrow> g r = g' r) \<Longrightarrow> saved_slots g f rs = saved_slots g' f rs"
  unfolding saved_slots_def by (rule arg_cong [of _ _ map_of]) force

lemma saved_slots_None: "saved_slots g f rs a = None \<longleftrightarrow> a \<notin> (\<lambda>(r, off). f + off) ` set rs"
  by (force simp: saved_slots_def map_of_eq_None_iff)

lemma run_save_load:
  assumes "distinct (map fst rs)" and "distinct (map snd rs)"
    and "Rdi \<notin> fst ` set rs" and "Rsi \<notin> fst ` set rs"
    and "\<forall>x \<in> snd ` set rs. \<forall>y \<in> snd ` set rs. gpr c Rdi + x \<noteq> gpr c Rsi + y"
  shows "run (save_load rs) c = c\<lparr>
      gpr := (\<lambda>r. case map_of rs r of Some off \<Rightarrow> slots c (gpr c Rsi + off) | None \<Rightarrow> gpr c r),
      slots := (\<lambda>a. case saved_slots (gpr c) (gpr c Rdi) rs a of Some v \<Rightarrow> v | None \<Rightarrow> slots c a)\<rparr>"
  using assms
proof (induction rs arbitrary: c)
  case Nil
  then show ?case by (simp add: saved_slots_def)
next
  case (Cons p rs)
  obtain r off where p: "p = (r, off)" by fastforce
  let ?c = "exec (Load r Rsi off) (exec (Store Rdi off r) c)"
  from Cons.prems have r: "r \<noteq> Rdi" "r \<noteq> Rsi" "r \<notin> fst ` set rs" "off \<notin> snd ` set rs"
    and ne: "gpr c Rdi + off \<noteq> gpr c Rsi + off"
    and ne': "\<forall>y \<in> snd ` set rs. gpr c Rdi + off \<noteq> gpr c Rsi + y"
    by (auto simp: p)
  have g: "gpr ?c = (gpr c)(r := slots c (gpr c Rsi + off))"
    and sl: "slots ?c = (slots c)(gpr c Rdi + off := gpr c r)"
    using r ne by (auto simp: machine_defs)
  have IH: "run (save_load rs) ?c = ?c\<lparr>
      gpr := (\<lambda>r. case map_of rs r of Some off \<Rightarrow> slots ?c (gpr ?c Rsi + off) | None \<Rightarrow> gpr ?c r),
      slots := (\<lambda>a. case saved_slots (gpr ?c) (gpr ?c Rdi) rs a of Some v \<Rightarrow> v | None \<Rightarrow> slots ?c a)\<rparr>"
    using Cons.prems r by (intro Cons.IH) (auto simp: p machine_defs)
  have gR: "gpr ?c Rdi = gpr c Rdi" "gpr ?c Rsi = gpr c Rsi" using r by (simp_all only: g) simp_all
  have 1: "(\<lambda>q. case map_of rs q of Some o' \<Rightarrow> slots ?c (gpr ?c Rsi + o') | None \<Rightarrow> gpr ?c q) =
      (\<lambda>q. case map_of (p # rs) q of Some o' \<Rightarrow> slots c (gpr c Rsi + o') | None \<Rightarrow> gpr c q)"
  proof
    fix q
    have "slots ?c (gpr ?c Rsi + o') = slots c (gpr c Rsi + o')" if "map_of rs q = Some o'" for o'
      using map_of_SomeD [OF that] ne' unfolding sl gR by (force simp: image_iff)
    moreover have "map_of rs r = None" using r(3) by (simp add: map_of_eq_None_iff)
    ultimately show "(case map_of rs q of Some o' \<Rightarrow> slots ?c (gpr ?c Rsi + o') | None \<Rightarrow> gpr ?c q) =
      (case map_of (p # rs) q of Some o' \<Rightarrow> slots c (gpr c Rsi + o') | None \<Rightarrow> gpr c q)"
      unfolding g by (auto simp: p split: option.splits)
  qed
  have sv: "saved_slots (gpr ?c) (gpr ?c Rdi) rs = saved_slots (gpr c) (gpr c Rdi) rs"
    unfolding gR by (rule saved_slots_cong) (unfold g, use r(3) in auto)
  have no: "saved_slots (gpr c) (gpr c Rdi) rs (gpr c Rdi + off) = None"
    using r(4) by (force simp: saved_slots_None)
  have 2: "(\<lambda>a. case saved_slots (gpr ?c) (gpr ?c Rdi) rs a of Some v \<Rightarrow> v | None \<Rightarrow> slots ?c a) =
      (\<lambda>a. case saved_slots (gpr c) (gpr c Rdi) (p # rs) a of Some v \<Rightarrow> v | None \<Rightarrow> slots c a)"
    unfolding sv sl using no by (auto simp: p saved_slots_def split: option.splits)
  have "run (save_load (p # rs)) c = run (save_load rs) ?c" by (simp add: p)
  also note IH
  finally show ?case unfolding 1 2 by (simp add: machine_defs)
qed

definition switched_regs :: "(reg \<times> u64) list" where
  "switched_regs = [(Rbx, off_rbx), (Rbp, off_rbp), (R12, off_r12), (R13, off_r13), (R14, off_r14),
     (R15, off_r15), (Rsp, off_rsp)]"

lemma switch_asm_split:
  "switch_asm = save_load switched_regs @ [Pushfq, PopMem Rdi off_rflags, PushMem Rsi off_rflags, Popfq]"
  by (simp add: switch_asm_def switched_regs_def)

lemma run_flag_tail:
  assumes "gpr c Rsp - 8 \<noteq> gpr c Rdi + off_rflags" and "gpr c Rsp - 8 \<noteq> gpr c Rsi + off_rflags"
    and "gpr c Rdi + off_rflags \<noteq> gpr c Rsi + off_rflags"
  shows "run [Pushfq, PopMem Rdi off_rflags, PushMem Rsi off_rflags, Popfq] c = c\<lparr>
    rflags := popf_value (slots c (gpr c Rsi + off_rflags)),
    slots := (slots c)(gpr c Rdi + off_rflags := rflags c,
                       gpr c Rsp - 8 := slots c (gpr c Rsi + off_rflags))\<rparr>"
proof -
  obtain g rf c3 fsb gsb kgs sl mr where c: "c = \<lparr> gpr = g, rflags = rf, cr3 = c3, fs_base = fsb,
      gs_base = gsb, kernel_gs_base = kgs, slots = sl, \<dots> = mr \<rparr>" by (cases c)
  show ?thesis
    using assms not_sym [OF assms(1)] not_sym [OF assms(2)] not_sym [OF assms(3)]
    by (simp add: c machine_defs)
qed

text \<open>The whole assembly, in one step.\<close>

definition saved_flags :: "cpu \<Rightarrow> u64 \<Rightarrow> u64 \<Rightarrow> u64 option" where
  "saved_flags c f = (saved_slots (gpr c) f switched_regs)(f + off_rflags \<mapsto> rflags c)"

lemma run_switch_asm:
  assumes dis: "context_slots (gpr c Rdi) \<inter> context_slots (gpr c Rsi) = {}"
    and stack: "slots c (gpr c Rsi + off_rsp) - 8 \<notin> context_slots (gpr c Rdi) \<union> context_slots (gpr c Rsi)"
  shows "run switch_asm c = c\<lparr>
      gpr := (\<lambda>r. case map_of switched_regs r of Some off \<Rightarrow> slots c (gpr c Rsi + off) | None \<Rightarrow> gpr c r),
      rflags := popf_value (slots c (gpr c Rsi + off_rflags)),
      slots := (\<lambda>a. case saved_flags c (gpr c Rdi) a of Some v \<Rightarrow> v | None \<Rightarrow>
         if a = slots c (gpr c Rsi + off_rsp) - 8 then slots c (gpr c Rsi + off_rflags) else slots c a)\<rparr>"
proof -
  let ?f = "gpr c Rdi" and ?t = "gpr c Rsi"
  have offs: "snd ` set switched_regs \<subseteq> {off_rbx, off_rbp, off_r12, off_r13, off_r14, off_r15, off_rsp}"
    by (simp add: switched_regs_def)
  have inF: "?f + x \<in> context_slots ?f" "?t + x \<in> context_slots ?t" if "x \<in> snd ` set switched_regs" for x
    using that offs by (auto simp: context_slots_def)
  have ne: "\<forall>x \<in> snd ` set switched_regs. \<forall>y \<in> snd ` set switched_regs. ?f + x \<noteq> ?t + y"
    using inF slots_apart [OF dis] by blast
  have dist: "distinct (map fst switched_regs)" "distinct (map snd switched_regs)"
    "Rdi \<notin> fst ` set switched_regs" "Rsi \<notin> fst ` set switched_regs"
    by (simp_all add: switched_regs_def off_defs)
  let ?g = "\<lambda>r. case map_of switched_regs r of Some off \<Rightarrow> slots c (?t + off) | None \<Rightarrow> gpr c r"
  let ?m = "\<lambda>a. case saved_slots (gpr c) ?f switched_regs a of Some v \<Rightarrow> v | None \<Rightarrow> slots c a"
  let ?c = "c\<lparr>gpr := ?g, slots := ?m\<rparr>"
  have first: "run (save_load switched_regs) c = ?c" by (rule run_save_load [OF dist ne])
  have g: "?g Rdi = ?f" "?g Rsi = ?t" "?g Rsp = slots c (?t + off_rsp)"
    by (simp_all add: switched_regs_def)
  have other: "off_rflags \<notin> snd ` set switched_regs" by (simp add: switched_regs_def off_defs)
  have keep: "saved_slots (gpr c) ?f switched_regs a = None"
    if "a \<notin> context_slots ?f \<or> a = ?f + off_rflags" for a
  proof -
    have "a \<noteq> ?f + x" if "x \<in> snd ` set switched_regs" for x
      using \<open>a \<notin> context_slots ?f \<or> a = ?f + off_rflags\<close> inF(1) [OF that] that other
      by (metis add_left_cancel)
    then show ?thesis by (force simp: saved_slots_None)
  qed
  have t: "?t + off_rflags \<notin> context_slots ?f" using dis context_slots_mem by blast
  then have flags: "?m (?t + off_rflags) = slots c (?t + off_rflags)" by (simp add: keep)
  have sp: "slots c (?t + off_rsp) - 8 \<notin> context_slots ?f" using stack by simp
  have "run switch_asm c = run [Pushfq, PopMem Rdi off_rflags, PushMem Rsi off_rflags, Popfq] ?c"
    by (simp only: switch_asm_split run_simps(3) first)
  also have "\<dots> = ?c\<lparr>rflags := popf_value (slots c (?t + off_rflags)),
      slots := ?m(?f + off_rflags := rflags c, slots c (?t + off_rsp) - 8 := slots c (?t + off_rflags))\<rparr>"
  proof -
    have "gpr ?c Rsp - 8 \<noteq> gpr ?c Rdi + off_rflags" "gpr ?c Rsp - 8 \<noteq> gpr ?c Rsi + off_rflags"
      "gpr ?c Rdi + off_rflags \<noteq> gpr ?c Rsi + off_rflags"
      using stack t context_slots_mem(9) by (auto simp: g)
    from run_flag_tail [OF this] show ?thesis by (simp add: g flags)
  qed
  also have "?m(?f + off_rflags := rflags c, slots c (?t + off_rsp) - 8 := slots c (?t + off_rflags)) =
      (\<lambda>a. case saved_flags c ?f a of Some v \<Rightarrow> v | None \<Rightarrow>
         if a = slots c (?t + off_rsp) - 8 then slots c (?t + off_rflags) else slots c a)"
    using sp keep context_slots_mem(9) by (auto simp: saved_flags_def fun_eq_iff)
  finally show ?thesis by simp
qed

text \<open>What the switch needs of memory: two contexts apart, and a new stack outside of both.\<close>

definition switch_room :: "cpu \<Rightarrow> bool" where
  "switch_room c \<longleftrightarrow> context_slots (gpr c Rdi) \<inter> context_slots (gpr c Rsi) = {} \<and>
     c_rsp (context_at c (gpr c Rsi)) - 8 \<notin> context_slots (gpr c Rdi) \<union> context_slots (gpr c Rsi)"

lemma saved_flags_at:
  "saved_flags c f (f + off_rbx) = Some (gpr c Rbx)" "saved_flags c f (f + off_rbp) = Some (gpr c Rbp)"
  "saved_flags c f (f + off_r12) = Some (gpr c R12)" "saved_flags c f (f + off_r13) = Some (gpr c R13)"
  "saved_flags c f (f + off_r14) = Some (gpr c R14)" "saved_flags c f (f + off_r15) = Some (gpr c R15)"
  "saved_flags c f (f + off_rsp) = Some (gpr c Rsp)" "saved_flags c f (f + off_rflags) = Some (rflags c)"
  "saved_flags c f (f + off_cr3) = None"
  by (simp_all add: saved_flags_def saved_slots_def switched_regs_def off_defs)

lemma saved_flags_outside: "a \<notin> context_slots f \<Longrightarrow> saved_flags c f a = None"
  by (auto simp: saved_flags_def saved_slots_def switched_regs_def context_slots_def)

lemma switch_task_effect:
  assumes "switch_room c"
  shows "context_at (switch_task c) (gpr c Rdi) =
      fst (swap_context (running c) (context_at c (gpr c Rdi)) (context_at c (gpr c Rsi)))"
    and "context_at (switch_task c) (gpr c Rsi) = context_at c (gpr c Rsi)"
    and "running (switch_task c) =
      snd (swap_context (running c) (context_at c (gpr c Rdi)) (context_at c (gpr c Rsi)))"
    and "a \<notin> context_slots (gpr c Rdi) \<Longrightarrow> a \<noteq> c_rsp (context_at c (gpr c Rsi)) - 8 \<Longrightarrow>
      slots (switch_task c) a = slots c a"
proof -
  let ?f = "gpr c Rdi" and ?t = "gpr c Rsi" and ?n = "slots c (gpr c Rsi + off_cr3)"
  let ?c = "c\<lparr>gpr := (gpr c)(Rcx := cr3 c, Rax := ?n), cr3 := ?n,
      rflags := flags_after_cmp (cr3 c) ?n (rflags c)\<rparr>"
  have dis: "context_slots ?f \<inter> context_slots ?t = {}"
    and sp: "slots c (?t + off_rsp) - 8 \<notin> context_slots ?f \<union> context_slots ?t"
    using assms by (simp_all add: switch_room_def context_at_def)
  have r: "switch_task c = run switch_asm ?c"
    using switch_cr3 [of c] by (simp add: switch_task_def Let_def)
  have dis': "context_slots (gpr ?c Rdi) \<inter> context_slots (gpr ?c Rsi) = {}" using dis by simp
  have sp': "slots ?c (gpr ?c Rsi + off_rsp) - 8 \<notin> context_slots (gpr ?c Rdi) \<union> context_slots (gpr ?c Rsi)"
    using sp by simp
  note out = run_switch_asm [OF dis' sp', folded r]
  have ne: "?f + x \<noteq> slots c (?t + off_rsp) - 8" "?t + x \<noteq> slots c (?t + off_rsp) - 8"
    if "x \<in> {off_cr3, off_rbx, off_rbp, off_r12, off_r13, off_r14, off_r15, off_rsp, off_rflags}" for x
    using that sp by (auto simp: context_slots_def)
  have keep: "saved_flags ?c ?f a = None" if "a \<in> context_slots ?t" for a
    using that dis by (intro saved_flags_outside) auto
  show "context_at (switch_task c) ?f = fst (swap_context (running c) (context_at c ?f) (context_at c ?t))"
    by (simp add: out context_at_def saved_flags_at swap_context_def running_def ne)
  show "context_at (switch_task c) ?t = context_at c ?t"
    by (simp add: out context_at_def keep context_slots_mem ne)
  show "running (switch_task c) = snd (swap_context (running c) (context_at c ?f) (context_at c ?t))"
    by (simp add: out running_def swap_context_def context_at_def switched_regs_def)
  show "slots (switch_task c) a = slots c a"
    if "a \<notin> context_slots ?f" "a \<noteq> c_rsp (context_at c ?t) - 8"
    using that by (simp add: out saved_flags_outside context_at_def)
qed

section \<open>Properties\<close>

text \<open>
  C24: The assembly of \<open>switch_task\<close> implements the abstract switch. The running context is saved
  in the first argument, whose \<open>cr3\<close> is left alone; the processor goes on in the context of the
  second argument, which stays as it was; and of memory nothing but the first context and
  the free slot below the new stack pointer changes.
\<close>
theorem switch_task_correct:
  assumes "switch_room c" and "f = gpr c Rdi" and "t = gpr c Rsi"
  shows "(context_at (switch_task c) f, running (switch_task c)) =
      swap_context (running c) (context_at c f) (context_at c t) \<and>
    context_at (switch_task c) t = context_at c t \<and>
    (\<forall>a. slots (switch_task c) a \<noteq> slots c a \<longrightarrow>
       a \<in> context_slots f \<or> a = c_rsp (context_at c t) - 8)"
  using switch_task_effect [OF assms(1)] assms(2,3) by auto

definition example_cpu :: cpu where
  "example_cpu = \<lparr> gpr = (\<lambda>r. if r = Rdi then 0x1000 else if r = Rsi then 0x2000 else if r = Rsp then 0x9000 else 7),
     rflags = 0x202, cr3 = 0x5000, fs_base = 0, gs_base = 0, kernel_gs_base = 0,
     slots = (\<lambda>a. if a = 0x2038 then 0x8000 else if a = 0x1000 then 0x5000 else 0) \<rparr>"

lemma example_cpu_room: "switch_room example_cpu"
  by (simp add: switch_room_def example_cpu_def context_slots_def off_defs context_at_def)

theorem switch_task_correct_witness:
  "c_rsp (running (switch_task example_cpu)) = 0x8000 \<and> c_rbx (context_at (switch_task example_cpu) 0x1000) = 7"
  using switch_task_correct [OF example_cpu_room, of "0x1000" "0x2000"]
  by (simp add: swap_context_def example_cpu_def context_at_def running_def off_defs)

text \<open>
  Switching away and back. A context that switches away and is later switched to again, with
  its saved registers as the first switch left them, goes on with the callee-saved registers, the
  stack pointer and the address space it had, and with its flags but for the arithmetic ones,
  which the calling convention does not preserve.
\<close>
theorem switch_round_trip:
  assumes "switch_room c" and "switch_room d" and "flags_ok (rflags c)"
    and "gpr d Rsi = gpr c Rdi" and "context_at d (gpr c Rdi) = context_at (switch_task c) (gpr c Rdi)"
    and "c_cr3 (context_at c (gpr c Rdi)) = cr3 c"
  shows "\<exists>fl. running (switch_task d) = (running c)\<lparr>c_rflags := fl\<rparr> \<and>
    fl AND NOT arith_flags = rflags c AND NOT arith_flags"
proof -
  let ?fl = "flags_after_cmp (cr3 c) (c_cr3 (context_at c (gpr c Rsi))) (rflags c)"
  have "running (switch_task d) = (running c)\<lparr>c_rflags := popf_value ?fl\<rparr>"
    using switch_task_effect(3) [OF assms(2)] switch_task_effect(1) [OF assms(1)] assms(4-6)
    by (simp add: swap_context_def running_def)
  moreover have "popf_value ?fl = ?fl"
    using flags_after_cmp_ok [OF assms(3)] by (simp add: flags_ok_def)
  ultimately show ?thesis using flags_after_cmp_keeps by metis
qed

text \<open>There and back again between the two contexts of the example.\<close>

definition example_back :: cpu where
  "example_back = (switch_task example_cpu)\<lparr>gpr := (gpr (switch_task example_cpu))(Rdi := 0x2000, Rsi := 0x1000)\<rparr>"

theorem switch_round_trip_witness:
  "c_rsp (running (switch_task example_back)) = 0x9000"
proof -
  note first = switch_task_effect [OF example_cpu_room]
  have ctx: "context_at example_back a = context_at (switch_task example_cpu) a" for a
    by (simp add: example_back_def context_at_def)
  have g: "gpr example_cpu Rdi = 0x1000" "gpr example_cpu Rsi = 0x2000" "gpr example_cpu Rsp = 0x9000"
    by (simp_all add: example_cpu_def)
  have "switch_room example_back"
    using first(1) by (simp add: switch_room_def ctx g swap_context_def running_def)
       (simp add: example_back_def context_slots_def off_defs)
  moreover have "flags_ok (rflags example_cpu)"
    by (simp add: example_cpu_def flags_ok_def popf_value_def loaded_flags_def)
  moreover have "c_cr3 (context_at example_cpu (gpr example_cpu Rdi)) = cr3 example_cpu"
    by (simp add: example_cpu_def context_at_def off_defs)
  ultimately have "\<exists>fl. running (switch_task example_back) = (running example_cpu)\<lparr>c_rflags := fl\<rparr> \<and>
    fl AND NOT arith_flags = rflags example_cpu AND NOT arith_flags"
    by (intro switch_round_trip [OF example_cpu_room]) (simp_all add: ctx g, simp add: example_back_def)
  then show ?thesis by (auto simp: running_def g)
qed

end
