(* ===== verification/User_Memory.thy ===== *)
theory User_Memory
  imports Externals
begin

text \<open>
  The check of user addresses (\<open>check_addr_userspace\<close> of \<open>syscalls/userspace.rs\<close>), the
  memory that a system call reads and writes through the current address space, and the UTF-8
  check of the standard library that \<open>open\<close> applies to the path.
\<close>

definition check_addr_userspace :: "usize \<Rightarrow> unit syscall_result" where
  "check_addr_userspace addr =
     (if addr AND push_bit 63 1 = 0 then Inr () else Inl WrongParameters)"

text \<open>
  The bytes that are mapped in the current address space and the addresses that may be written.
  An access outside of them faults, and the page fault handler halts the processor.
\<close>

record memory =
  mem_byte :: "u64 \<Rightarrow> u8 option"
  mem_writable :: "u64 \<Rightarrow> bool"

fun mem_read :: "memory \<Rightarrow> u64 \<Rightarrow> nat \<Rightarrow> u8 list outcome" where
  "mem_read m a 0 = Done []"
| "mem_read m a (Suc n) =
     (case mem_byte m a of
        None \<Rightarrow> Hang
      | Some b \<Rightarrow> and_then (mem_read m (a + 1) n) (\<lambda>bs. Done (b # bs)))"

fun mem_write :: "memory \<Rightarrow> u64 \<Rightarrow> u8 list \<Rightarrow> memory outcome" where
  "mem_write m a [] = Done m"
| "mem_write m a (b # bs) =
     (if mem_byte m a \<noteq> None \<and> mem_writable m a
      then mem_write (m\<lparr>mem_byte := (mem_byte m)(a := Some b)\<rparr>) (a + 1) bs else Hang)"

text \<open>\<open>core::str::from_utf8\<close>.\<close>

definition is_cont :: "u8 \<Rightarrow> bool" where
  "is_cont b \<longleftrightarrow> 0x80 \<le> b \<and> b \<le> 0xBF"

fun utf8_valid :: "u8 list \<Rightarrow> bool" where
  "utf8_valid [] = True"
| "utf8_valid (a # s) =
     (if a \<le> 0x7F then utf8_valid s
      else case s of
        [] \<Rightarrow> False
      | b # s \<Rightarrow>
          if 0xC2 \<le> a \<and> a \<le> 0xDF then is_cont b \<and> utf8_valid s
          else case s of
            [] \<Rightarrow> False
          | c # s \<Rightarrow>
              if a = 0xE0 then 0xA0 \<le> b \<and> b \<le> 0xBF \<and> is_cont c \<and> utf8_valid s
              else if a = 0xED then 0x80 \<le> b \<and> b \<le> 0x9F \<and> is_cont c \<and> utf8_valid s
              else if 0xE1 \<le> a \<and> a \<le> 0xEF then is_cont b \<and> is_cont c \<and> utf8_valid s
              else case s of
                [] \<Rightarrow> False
              | d # s \<Rightarrow>
                  (a = 0xF0 \<and> 0x90 \<le> b \<and> b \<le> 0xBF \<or> 0xF1 \<le> a \<and> a \<le> 0xF3 \<and> is_cont b \<or>
                   a = 0xF4 \<and> 0x80 \<le> b \<and> b \<le> 0x8F) \<and> is_cont c \<and> is_cont d \<and> utf8_valid s)"

section \<open>Facts\<close>

lemma top_bit_clear: "a AND 9223372036854775808 = 0 \<longleftrightarrow> a < 9223372036854775808" for a :: u64
proof -
  have "a AND 9223372036854775808 = a AND 2 ^ 63" by simp
  then have "a AND 9223372036854775808 = 0 \<longleftrightarrow> \<not> bit a 63"
    by (simp only: and_exp_eq_0_iff_not_bit)
  also have "\<dots> \<longleftrightarrow> even (unat a div 2 ^ 63)"
    using bit_iff_odd [of "unat a" 63] by (simp add: bit_unsigned_iff)
  also have "\<dots> \<longleftrightarrow> unat a div 2 ^ 63 = 0"
  proof -
    have "unat a div 2 ^ 63 < 2" using unat_lt_2p64 [of a] by (simp add: less_mult_imp_div_less)
    then show ?thesis by (auto simp: less_2_cases_iff)
  qed
  also have "\<dots> \<longleftrightarrow> unat a < 9223372036854775808" by (simp add: div_eq_0_iff)
  finally show ?thesis by (simp add: word_less_nat_alt)
qed

lemma check_addr_userspace_iff:
  "check_addr_userspace a = Inr () \<longleftrightarrow> a < 0x8000000000000000"
  "check_addr_userspace a = Inl err \<longleftrightarrow> \<not> a < 0x8000000000000000 \<and> err = WrongParameters"
  by (auto simp: check_addr_userspace_def top_bit_clear)

lemma check_addr_userspace_simps:
  "check_addr_userspace a = (if a < 0x8000000000000000 then Inr () else Inl WrongParameters)"
  by (simp add: check_addr_userspace_def top_bit_clear)

lemma mem_read_length: "mem_read m a n = Done bs \<Longrightarrow> length bs = n"
  by (induction n arbitrary: a bs) (auto split: option.splits simp: and_then_eq_Done)

lemma mem_read_not_Panic: "mem_read m a n \<noteq> Panic"
proof (induction n arbitrary: a)
  case 0
  then show ?case by simp
next
  case (Suc n)
  then show ?case by (cases "mem_read m (a + 1) n") (auto split: option.splits)
qed

end
