(* ===== verification/File_System.thy ===== *)
theory File_System
  imports User_Memory
begin

text \<open>
  The virtual file system: path navigation and the file handles (\<open>file/system.rs\<close>), the
  per-process root with its mounts (\<open>file/procfs.rs\<close>), the read-only init file system
  (\<open>file/initfs.rs\<close> over the tree of \<open>include_dir\<close>), and reading a whole file
  (\<open>file/mod.rs\<close>). A Rust \<open>str\<close> is its list of UTF-8 bytes. The two implementors of the trait
  \<open>PathHandle\<close> and the two of \<open>FileHandle\<close> are the constructors of a datatype each, and a call
  through the trait object is a case distinction.
\<close>

type_synonym str = "u8 list"

section \<open>Paths\<close>

datatype path_navigator_step = Current | Parent | RelCh str

fun split_once :: "u8 \<Rightarrow> str \<Rightarrow> (str \<times> str) option" where
  "split_once c [] = None"
| "split_once c (x # xs) =
     (if x = c then Some ([], xs)
      else map_option (\<lambda>(a, b). (x # a, b)) (split_once c xs))"

text \<open>\<open>0x2F\<close> is the slash, \<open>0x2E\<close> the dot.\<close>

definition path_step :: "str \<Rightarrow> path_navigator_step \<times> str" where
  "path_step s =
     (let (curr, rest) = (case split_once 0x2F s of Some (a, b) \<Rightarrow> (a, b) | None \<Rightarrow> (s, [])) in
      (if curr = [] \<or> curr = [0x2E] then Current
       else if curr = [0x2E, 0x2E] then Parent
       else RelCh curr, rest))"

datatype path_open_error = InvalidPathError | FolderNotFound | PathIsFile | ParentingNotSupported

datatype file_handle_error = NotSeekable | SeekOutOfRange

datatype path_type = FolderType | FileType

text \<open>The result of one \<open>open_dir\<close>: arrived, or a handle and the path left to follow there.\<close>

datatype 'h partial_path = DonePath 'h | PartialPath 'h str

section \<open>The init directory\<close>

datatype init_dir_entry = InitFile "u8 list" | InitFolder "(str \<times> init_dir_entry) list"

type_synonym init_dir = "(str \<times> init_dir_entry) list"

text \<open>\<open>InitDir::entry\<close>.\<close>

definition init_dir_entry_of :: "init_dir \<Rightarrow> str \<Rightarrow> init_dir_entry option" where
  "init_dir_entry_of d path = map_option snd (List.find (\<lambda>x. fst x = path) d)"

record init_fs_folder =
  init_path :: str
  init_folder :: init_dir
  init_file :: "(str \<times> u8 list) option"

definition from_init_dir :: "init_dir \<Rightarrow> str \<Rightarrow> init_fs_folder" where
  "from_init_dir dir mount_path = \<lparr> init_path = mount_path, init_folder = dir, init_file = None \<rparr>"

definition rel_open :: "init_fs_folder \<Rightarrow> str \<Rightarrow> path_open_error + init_fs_folder" where
  "rel_open f x =
     (if init_file f = None then Inl PathIsFile
      else (case List.find (\<lambda>y. fst y = x) (init_folder f) of
          None \<Rightarrow> Inl FolderNotFound
        | Some entry \<Rightarrow>
            (let (folder, file) = (case snd entry of
                 InitFile d \<Rightarrow> (init_folder f, Some (fst entry, d))
               | InitFolder d \<Rightarrow> (d, None))
             in Inr \<lparr> init_path = init_path f @ x, init_folder = folder, init_file = file \<rparr>)))"

section \<open>Path handles\<close>

text \<open>A process root holds the id of its process and the mounts, which are path handles again.\<close>

datatype path_handle = ProcRootPath proc_root_fs | InitFsPath init_fs_folder
  and proc_root_fs = ProcRootFs (root_proc: u64) (root_mounts: "(str \<times> path_handle) list")

definition proc_root_new :: "u64 \<Rightarrow> proc_root_fs" where
  "proc_root_new task = ProcRootFs task []"

definition proc_mount :: "str \<Rightarrow> path_handle \<Rightarrow> proc_root_fs \<Rightarrow> proc_root_fs" where
  "proc_mount name h r = ProcRootFs (root_proc r) (root_mounts r @ [(name, h)])"

definition proc_unmount :: "str \<Rightarrow> proc_root_fs \<Rightarrow> path_handle option \<times> proc_root_fs" where
  "proc_unmount name r =
     (case pairs_delete name (root_mounts r) of
        None \<Rightarrow> (None, r)
      | Some (h, ms) \<Rightarrow> (Some h, ProcRootFs (root_proc r) ms))"

lemma split_once_length: "split_once c s = Some (a, b) \<Longrightarrow> length b < length s"
  by (induction s arbitrary: a b) (auto split: if_splits simp: less_SucI)

lemma path_step_length: "s \<noteq> [] \<Longrightarrow> length (snd (path_step s)) < length s"
  by (auto simp: path_step_def split: option.splits dest: split_once_length)

function proc_open_dir :: "proc_root_fs \<Rightarrow> str \<Rightarrow> path_open_error + path_handle partial_path" where
  "proc_open_dir r remaining =
     (if remaining = [] then Inr (DonePath (ProcRootPath r))
      else (case fst (path_step remaining) of
          Current \<Rightarrow> proc_open_dir r (snd (path_step remaining))
        | Parent \<Rightarrow> Inl ParentingNotSupported
        | RelCh rel \<Rightarrow>
            (case List.find (\<lambda>x. fst x = rel) (root_mounts r) of
               Some x \<Rightarrow> Inr (PartialPath (snd x) (snd (path_step remaining)))
             | None \<Rightarrow> Inl InvalidPathError)))"
  by pat_completeness auto
termination
  by (relation "measure (length \<circ> snd)") (auto simp: path_step_length)

function init_open_dir :: "init_fs_folder \<Rightarrow> str \<Rightarrow> path_open_error + path_handle partial_path" where
  "init_open_dir folder remaining =
     (if remaining = [] then Inr (DonePath (InitFsPath folder))
      else (case fst (path_step remaining) of
          Current \<Rightarrow> init_open_dir folder (snd (path_step remaining))
        | Parent \<Rightarrow> Inl ParentingNotSupported
        | RelCh rel \<Rightarrow>
            (case rel_open folder rel of
               Inl err \<Rightarrow> Inl err
             | Inr folder' \<Rightarrow> init_open_dir folder' (snd (path_step remaining)))))"
  by pat_completeness auto
termination
  by (relation "measure (length \<circ> snd)") (auto simp: path_step_length)

declare proc_open_dir.simps [simp del] init_open_dir.simps [simp del]

fun open_dir :: "path_handle \<Rightarrow> str \<Rightarrow> path_open_error + path_handle partial_path" where
  "open_dir (ProcRootPath r) path = proc_open_dir r path"
| "open_dir (InitFsPath f) path = init_open_dir f path"

lemma proc_open_dir_shorter:
  "proc_open_dir r path = Inr (PartialPath h rest) \<Longrightarrow> length rest < length path"
proof (induction r path rule: proc_open_dir.induct)
  case (1 r remaining)
  show ?case
  proof (cases "remaining = []")
    case True
    with 1 show ?thesis by (simp add: proc_open_dir.simps)
  next
    case False
    with 1 path_step_length [OF False] show ?thesis
      by (simp add: proc_open_dir.simps [of r remaining] split: path_navigator_step.splits option.splits)
  qed
qed

lemma init_open_dir_done: "init_open_dir f path \<noteq> Inr (PartialPath h rest)"
proof (induction f path rule: init_open_dir.induct)
  case (1 folder remaining)
  then show ?case
    by (simp add: init_open_dir.simps [of folder remaining] split: path_navigator_step.splits sum.splits)
qed

lemma open_dir_shorter: "open_dir c path = Inr (PartialPath h rest) \<Longrightarrow> length rest < length path"
  by (cases c) (auto dest: proc_open_dir_shorter simp: init_open_dir_done)

function open_path_full :: "path_handle \<Rightarrow> str \<Rightarrow> path_open_error + path_handle" where
  "open_path_full cur path =
     (case open_dir cur path of
        Inl err \<Rightarrow> Inl err
      | Inr (DonePath x) \<Rightarrow> Inr x
      | Inr (PartialPath h x) \<Rightarrow> open_path_full h x)"
  by pat_completeness auto
termination
  by (relation "measure (length \<circ> snd)") (auto simp: open_dir_shorter)

declare open_path_full.simps [simp del]

fun ptype :: "path_handle \<Rightarrow> path_type" where
  "ptype (ProcRootPath r) = FolderType"
| "ptype (InitFsPath f) = (case init_file f of Some _ \<Rightarrow> FileType | None \<Rightarrow> FolderType)"

section \<open>File handles\<close>

text \<open>An init file and its index, or the bytes that an iterator has not delivered yet.\<close>

datatype file_handle = InitFsFileHandle "u8 list" nat | IteratorFileHandle "u8 list"

definition dir_names_to_handle :: "env \<Rightarrow> str list \<Rightarrow> file_handle" where
  "dir_names_to_handle e names =
     IteratorFileHandle (concat (interleave_shortest e names (\<lambda>_. [0x0A])))"

fun path_read :: "env \<Rightarrow> path_handle \<Rightarrow> file_handle" where
  "path_read e (ProcRootPath r) = dir_names_to_handle e (map fst (root_mounts r))"
| "path_read e (InitFsPath f) =
     (case init_file f of
        Some file \<Rightarrow> InitFsFileHandle (snd file) 0
      | None \<Rightarrow> dir_names_to_handle e (map fst (init_folder f)))"

fun file_seek :: "file_handle \<Rightarrow> usize \<Rightarrow> (file_handle_error + unit) \<times> file_handle" where
  "file_seek (InitFsFileHandle file index) at =
     (if length file < unat at then (Inl SeekOutOfRange, InitFsFileHandle file index)
      else (Inr (), InitFsFileHandle file (unat at)))"
| "file_seek (IteratorFileHandle s) at = (Inl NotSeekable, IteratorFileHandle s)"

text \<open>
  Reading into a buffer of the given length: the bytes written to its front (their number is the
  value returned) and the handle left. In the init file the slice \<open>[index..len]\<close> panics unless
  \<open>index \<le> len\<close>, and \<open>copy_from_slice\<close> panics unless both sides have the same length; an index
  beyond the file panics in either profile, by the subtraction or by the slice.
\<close>

fun file_read :: "file_handle \<Rightarrow> nat \<Rightarrow> (u8 list \<times> file_handle) outcome" where
  "file_read (InitFsFileHandle file index) at =
     (if length file < index then Panic
      else let len = min at (length file - index) in
        if len < index then Panic
        else let src = drop index (take len file) in
          if length src \<noteq> len then Panic
          else Done (src, InitFsFileHandle file index))"
| "file_read (IteratorFileHandle s) at =
     (case s of
        [] \<Rightarrow> Done ([], IteratorFileHandle [])
      | x # s' \<Rightarrow> if at = 0 then Panic else Done ([x], IteratorFileHandle s'))"

lemma file_read_length: "file_read h n = Done (w, h') \<Longrightarrow> length w \<le> n"
  by (cases h) (auto simp: Let_def split: if_splits list.splits)

text \<open>Reading a file into memory: \<open>resize(old_len, 0)\<close> and the slice from \<open>old_len\<close> on.\<close>

definition vec_resize :: "u8 list \<Rightarrow> nat \<Rightarrow> u8 \<Rightarrow> u8 list" where
  "vec_resize v n x = take n v @ replicate (n - length v) x"

definition slice_write :: "u8 list \<Rightarrow> nat \<Rightarrow> u8 list \<Rightarrow> u8 list" where
  "slice_write v i w = take i v @ w @ drop (i + length w) v"

function read_file_loop ::
    "env \<Rightarrow> nat \<Rightarrow> file_handle \<Rightarrow> u8 list \<Rightarrow> (u8 list syscall_result \<times> file_handle) outcome" where
  "read_file_loop e limit fh buffer =
     (let read_n = min 4096 (limit - length buffer) in
      if read_n = 0 then Done (Inl NoMemory, fh)
      else if \<not> reserve_ok e (length buffer) read_n then Done (Inl NoMemory, fh)
      else let old_len = length buffer; buffer1 = vec_resize buffer old_len 0 in
        and_then (file_read fh (length (drop old_len buffer1))) (\<lambda>(w, fh').
          let buffer2 = slice_write buffer1 old_len w;
              buffer3 = (if length w \<noteq> read_n then take (old_len + length w) buffer2 else buffer2)
          in if length w = 0 then Done (Inr buffer3, fh')
             else read_file_loop e limit fh' buffer3))"
  by pat_completeness auto
termination
proof (relation "measure (\<lambda>_. 0)", goal_cases)
  case 1
  then show ?case by simp
next
  case (2 e limit fh buffer read_n old_len buffer1 a w fh' buffer2 buffer3)
  then have "length w \<le> length (drop old_len buffer1)" by (auto dest: file_read_length)
  with 2 have False by (simp add: vec_resize_def)
  then show ?case ..
qed

declare read_file_loop.simps [simp del]

definition read_file_to_memory ::
    "env \<Rightarrow> file_handle \<Rightarrow> nat \<Rightarrow> (u8 list syscall_result \<times> file_handle) outcome" where
  "read_file_to_memory e fh limit = read_file_loop e limit fh []"

section \<open>Specification: walking a list of components\<close>

text \<open>
  The components of a path are the strings between its slashes; the empty ones and the dots
  mean "stay". \<open>walk\<close> follows the remaining ones through the handles.
\<close>

function components :: "str \<Rightarrow> str list" where
  "components s = (case split_once 0x2F s of None \<Rightarrow> [s] | Some (a, b) \<Rightarrow> a # components b)"
  by pat_completeness auto
termination
  by (relation "measure length") (auto dest: split_once_length)

declare components.simps [simp del]

definition stays :: "str \<Rightarrow> bool" where
  "stays c \<longleftrightarrow> c = [] \<or> c = [0x2E]"

definition significant :: "str \<Rightarrow> str list" where
  "significant s = filter (\<lambda>c. \<not> stays c) (components s)"

fun walk :: "path_handle \<Rightarrow> str list \<Rightarrow> path_open_error + path_handle" where
  "walk h [] = Inr h"
| "walk (ProcRootPath r) (c # cs) =
     (if c = [0x2E, 0x2E] then Inl ParentingNotSupported
      else case List.find (\<lambda>x. fst x = c) (root_mounts r) of
          None \<Rightarrow> Inl InvalidPathError
        | Some x \<Rightarrow> walk (snd x) cs)"
| "walk (InitFsPath f) (c # cs) =
     (if c = [0x2E, 0x2E] then Inl ParentingNotSupported
      else case rel_open f c of
          Inl err \<Rightarrow> Inl err
        | Inr f' \<Rightarrow> walk (InitFsPath f') cs)"

lemma significant_Nil [simp]: "significant [] = []"
  by (simp add: significant_def components.simps stays_def)

lemma significant_step:
  "s \<noteq> [] \<Longrightarrow> significant s =
     (case fst (path_step s) of
        Current \<Rightarrow> significant (snd (path_step s))
      | Parent \<Rightarrow> [0x2E, 0x2E] # significant (snd (path_step s))
      | RelCh c \<Rightarrow> c # significant (snd (path_step s)))"
  by (auto simp: significant_def components.simps [of s] components.simps [of "[]"] path_step_def
      stays_def split: option.splits)

lemma path_step_RelCh: "fst (path_step s) = RelCh c \<Longrightarrow> c \<noteq> [0x2E, 0x2E] \<and> \<not> stays c"
  by (auto simp: path_step_def stays_def split: option.splits if_splits)

text \<open>What one \<open>open_dir\<close> does, in terms of \<open>walk\<close>.\<close>

definition finish :: "path_open_error + path_handle partial_path \<Rightarrow> path_open_error + path_handle" where
  "finish r = (case r of
      Inl err \<Rightarrow> Inl err
    | Inr (DonePath h) \<Rightarrow> Inr h
    | Inr (PartialPath h rest) \<Rightarrow> walk h (significant rest))"

lemma proc_open_dir_walk: "finish (proc_open_dir r path) = walk (ProcRootPath r) (significant path)"
proof (induction r path rule: proc_open_dir.induct)
  case (1 r remaining)
  show ?case
  proof (cases "remaining = []")
    case True
    then show ?thesis by (simp add: proc_open_dir.simps [of r "[]"] finish_def)
  next
    case False
    with 1 show ?thesis
      by (auto simp: proc_open_dir.simps [of r remaining] significant_step finish_def
          split: path_navigator_step.splits option.splits dest: path_step_RelCh)
  qed
qed

lemma init_open_dir_walk: "finish (init_open_dir f path) = walk (InitFsPath f) (significant path)"
proof (induction f path rule: init_open_dir.induct)
  case (1 folder remaining)
  show ?case
  proof (cases "remaining = []")
    case True
    then show ?thesis by (simp add: init_open_dir.simps [of folder "[]"] finish_def)
  next
    case False
    with 1 show ?thesis
      by (auto simp: init_open_dir.simps [of folder remaining] significant_step
          split: path_navigator_step.splits sum.splits dest: path_step_RelCh)
         (auto simp: finish_def)
  qed
qed

lemma open_dir_walk: "finish (open_dir h path) = walk h (significant path)"
  by (cases h) (simp_all add: proc_open_dir_walk init_open_dir_walk)

lemma open_path_full_walk_eq: "open_path_full h path = walk h (significant path)"
proof (induction h path rule: open_path_full.induct)
  case (1 cur path)
  then show ?case
    using open_dir_walk [of cur path]
    by (auto simp: open_path_full.simps [of cur path] finish_def
        split: sum.splits partial_path.splits)
qed

text \<open>
  C11: Opening a path is walking its significant components: empty components and dots are
  skipped, a double dot is refused, a component at a process root selects the first mount of
  that name and continues in it, a component in the init file system goes through \<open>rel_open\<close>.
  In particular the loop of \<open>open_path_full\<close> ends on every path.
\<close>
theorem open_path_full_walks: "open_path_full h path = walk h (significant path)"
  by (rule open_path_full_walk_eq)

section \<open>The init file system\<close>

lemma walk_folder_only:
  "init_file f = None \<Longrightarrow> walk (InitFsPath f) cs = Inr h \<Longrightarrow> cs = [] \<and> h = InitFsPath f"
  by (cases cs) (auto simp: rel_open_def split: if_splits)

text \<open>
  C12: No file of the init file system can be opened: from the root that the kernel sets up
  for the init process, with the init directory mounted under any name, every path that opens at
  all opens a folder, whatever the directory holds. The guard of \<open>rel_open\<close> refuses to enter a
  folder, where it means to refuse to enter a file.
\<close>
theorem init_files_unreachable:
  assumes "open_path_full
      (ProcRootPath (proc_mount name (InitFsPath (from_init_dir dir mount_path)) (proc_root_new task)))
      path = Inr h"
  shows "ptype h = FolderType"
proof (cases "significant path")
  case Nil
  with assms show ?thesis by (auto simp: open_path_full_walk_eq proc_mount_def)
next
  case (Cons c cs)
  with assms show ?thesis
    by (auto simp: open_path_full_walk_eq proc_mount_def proc_root_new_def from_init_dir_def
        split: if_splits dest: walk_folder_only [rotated])
qed

definition example_init_dir :: init_dir where
  "example_init_dir = [([0x61], InitFile [1, 2, 3]), ([0x62], InitFolder [])]"

theorem init_files_unreachable_witness:
  "ptype (InitFsPath (from_init_dir example_init_dir [0x69])) = FolderType"
proof (rule init_files_unreachable)
  show "open_path_full (ProcRootPath (proc_mount [0x69]
      (InitFsPath (from_init_dir example_init_dir [0x69])) (proc_root_new 2))) [0x2F, 0x69] =
      Inr (InitFsPath (from_init_dir example_init_dir [0x69]))"
    by (simp add: open_path_full.simps proc_open_dir.simps init_open_dir.simps path_step_def
        proc_mount_def proc_root_new_def)
qed

text \<open>
  C13: Reading an init file. At the start of the file a read delivers the first bytes, as many
  as the buffer and the file hold, and leaves the index where it was, so the next read delivers
  the same bytes again; after a successful seek to any later position every read panics. A seek
  succeeds exactly up to the length of the file.
\<close>
theorem init_file_read_correct:
  "file_read (InitFsFileHandle file 0) n = Done (take n file, InitFsFileHandle file 0) \<and>
   (case file_seek (InitFsFileHandle file i) at of
      (Inl err, h) \<Rightarrow> length file < unat at \<and> err = SeekOutOfRange \<and> h = InitFsFileHandle file i
    | (Inr _, h) \<Rightarrow> unat at \<le> length file \<and> (file_read h n = Panic \<longleftrightarrow> at \<noteq> 0))"
proof (cases "at = 0")
  case True
  then show ?thesis by (simp add: Let_def min_def)
next
  case False
  then have "0 < unat at" by (simp add: unat_gt_0)
  moreover have "take (min n (length file)) file = take n file" by (simp add: min_def)
  ultimately show ?thesis by (auto simp: Let_def)
qed

lemma read_file_one_round:
  "read_file_to_memory e fh limit \<in> {Done (Inr [], fh), Done (Inl NoMemory, fh), Panic}"
proof -
  have "file_read fh 0 = Done ([], fh) \<or> file_read fh 0 = Panic"
    by (cases fh) (auto simp: Let_def split: list.splits)
  then show ?thesis
    by (auto simp: read_file_to_memory_def read_file_loop.simps [of e limit fh] Let_def
        vec_resize_def slice_write_def)
qed

text \<open>
  C14: Reading a file into memory always returns or panics, and it never returns a byte of the
  file: the buffer is resized to its old length, so the slice handed to the read is empty.
\<close>
theorem read_file_to_memory_empty:
  "read_file_to_memory e fh limit \<in> {Done (Inr [], fh), Done (Inl NoMemory, fh), Panic}"
  by (rule read_file_one_round)

section \<open>Directory listings\<close>

text \<open>Reading a handle to its end with a buffer of \<open>n\<close> bytes, at most \<open>k\<close> times.\<close>

fun drain :: "nat \<Rightarrow> nat \<Rightarrow> file_handle \<Rightarrow> u8 list outcome option" where
  "drain 0 n h = None"
| "drain (Suc k) n h =
     (case file_read h n of
        Done (w, h') \<Rightarrow>
          if w = [] then Some (Done [])
          else map_option (\<lambda>r. and_then r (\<lambda>bs. Done (w @ bs))) (drain k n h')
      | Panic \<Rightarrow> Some Panic
      | Hang \<Rightarrow> Some Hang)"

lemma drain_iterator:
  "0 < n \<Longrightarrow> length s < k \<Longrightarrow> drain k n (IteratorFileHandle s) = Some (Done s)"
proof (induction s arbitrary: k)
  case Nil
  then show ?case by (cases k) auto
next
  case (Cons x s)
  then obtain j where "k = Suc j" by (cases k) auto
  with Cons show ?case by simp
qed

lemma interleave_lines:
  "concat (interleave_from names (\<lambda>_. [0x0A]) i) = concat (map (\<lambda>x. x @ [0x0A]) names)"
  by (induction names arbitrary: i) auto

text \<open>
  Reading a folder delivers the names of its entries, each followed by a newline, in the
  order of the entries: a reader with a buffer of at least one byte that reads until it gets
  nothing collects exactly that listing, and one more read than there are bytes is enough.
\<close>
theorem directory_listing:
  assumes "itertools_ok e" and "0 < n"
    and "length (concat (map (\<lambda>x. fst x @ [0x0A]) (root_mounts r))) < k"
  shows "drain k n (path_read e (ProcRootPath r)) =
     Some (Done (concat (map (\<lambda>x. fst x @ [0x0A]) (root_mounts r))))"
proof -
  have "concat (interleave_shortest e (map fst (root_mounts r)) (\<lambda>_. [0x0A])) =
      concat (map (\<lambda>x. fst x @ [0x0A]) (root_mounts r))"
    using assms(1) by (simp add: itertools_ok_def interleave_lines comp_def)
  with assms(2,3) show ?thesis
    by (simp add: dir_names_to_handle_def drain_iterator del: length_concat)
qed

theorem directory_listing_witness:
  "drain 5 1 (path_read (documented_env True)
     (ProcRootPath (ProcRootFs 2 [([0x61, 0x62], ProcRootPath (proc_root_new 3)),
        ([], ProcRootPath (proc_root_new 3))]))) = Some (Done [0x61, 0x62, 0x0A, 0x0A])"
  using directory_listing [OF documented_itertools, of 1
      "ProcRootFs 2 [([0x61, 0x62], ProcRootPath (proc_root_new 3)),
        ([], ProcRootPath (proc_root_new 3))]" 5 True] by simp

end
