(* ===== verification/Capabilities.thy ===== *)
theory Capabilities
  imports Externals
begin

text \<open>
  The capability store of a task (\<open>capability/mod.rs\<close> and the storage and the bodies of
  the system calls of \<open>capability/syscall.rs\<close>): the capability types, the vector of handles, and
  clone, inspect, restrict and drop on the store of the current task. The locking of the current
  task and the transfer between tasks are in \<open>Task_Calls\<close>.

  The interface locale \<open>handle_table\<close> states what a table of handles promises its users: fresh
  handles, lookup after insertion, deletion of one handle only. The capability store here and
  the descriptor table in \<open>File_System\<close> are its two providers.
\<close>

section \<open>The model\<close>

definition cap_duplicate :: u64 where "cap_duplicate = 0x1"
definition cap_shareable :: u64 where "cap_shareable = 0x2"
definition cap_transfer :: u64 where "cap_transfer = 0x4"

datatype capability_type =
    MapPhysical u64 u64
  | MapVirtualToRam
  | SpawnProcess
  | ChannelCreate

record capability =
  cap_perms :: u32
  ctype :: capability_type

fun cap_id :: "capability_type \<Rightarrow> usize" where
  "cap_id (MapPhysical _ _) = 1"
| "cap_id MapVirtualToRam = 2"
| "cap_id SpawnProcess = 3"
| "cap_id ChannelCreate = 4"

record cap_storage =
  next_handle :: usize
  cap_handles :: "(usize \<times> capability) list"

text \<open>\<open>TaskCapabilityStorage::default()\<close>.\<close>

definition cap_storage_default :: cap_storage where
  "cap_storage_default = \<lparr> next_handle = 0, cap_handles = [] \<rparr>"

text \<open>The handle is consumed before the fallible reservation.\<close>

definition cap_insert :: "env \<Rightarrow> capability \<Rightarrow> cap_storage \<Rightarrow> (cap_storage, usize) op" where
  "cap_insert e cap s =
     (let k = next_handle s in
      and_then (add_chk (overflow_checks e) k 1) (\<lambda>n.
        let s' = s\<lparr>next_handle := n\<rparr> in
        if reserve_ok e (length (cap_handles s')) 1
        then Done (Inr k, s'\<lparr>cap_handles := cap_handles s' @ [(k, cap)]\<rparr>)
        else Done (Inl NoMemory, s')))"

definition cap_get :: "usize \<Rightarrow> cap_storage \<Rightarrow> capability option" where
  "cap_get h s = pairs_get h (cap_handles s)"

text \<open>\<open>get_mut\<close>: the reference is into the vector, so a write through it updates the entry.\<close>

definition cap_write :: "usize \<Rightarrow> capability \<Rightarrow> cap_storage \<Rightarrow> cap_storage" where
  "cap_write h c s = s\<lparr>cap_handles := pairs_set h c (cap_handles s)\<rparr>"

definition cap_delete :: "usize \<Rightarrow> cap_storage \<Rightarrow> capability syscall_result \<times> cap_storage" where
  "cap_delete h s =
     (case pairs_delete h (cap_handles s) of
        None \<Rightarrow> (Inl WrongCapability, s)
      | Some (c, hs) \<Rightarrow> (Inr c, s\<lparr>cap_handles := hs\<rparr>))"

definition has_perm :: "env \<Rightarrow> capability \<Rightarrow> u64 \<Rightarrow> bool" where
  "has_perm e c p = bf_contains e (ucast (cap_perms c)) p"

definition cap_clone :: "env \<Rightarrow> usize \<Rightarrow> cap_storage \<Rightarrow> (cap_storage, usize) op" where
  "cap_clone e h s =
     (case cap_get h s of
        None \<Rightarrow> Done (Inl WrongCapability, s)
      | Some c \<Rightarrow>
          if \<not> has_perm e c cap_duplicate then Done (Inl WrongCapabilityPerms, s)
          else cap_insert e c s)"

definition cap_inspect :: "usize \<Rightarrow> usize \<Rightarrow> cap_storage \<Rightarrow> (usize \<times> usize) syscall_result" where
  "cap_inspect what index s =
     (if what = 0 then Inr (of_nat (length (cap_handles s)), 0)
      else if what = 1 then
        (if unat index < length (cap_handles s)
         then (let x = cap_handles s ! unat index in Inr (fst x, cap_id (ctype (snd x))))
         else Inl WrongParameters)
      else if what = 2 then
        (case cap_get index s of
           Some x \<Rightarrow> Inr (ucast (cap_perms x), cap_id (ctype x))
         | None \<Rightarrow> Inl WrongCapability)
      else Inl WrongParameters)"

definition cap_restrict ::
    "env \<Rightarrow> usize \<Rightarrow> usize \<Rightarrow> usize \<Rightarrow> cap_storage \<Rightarrow> unit syscall_result \<times> cap_storage" where
  "cap_restrict e h a b s =
     (case cap_get h s of
        None \<Rightarrow> (Inl WrongCapability, s)
      | Some c \<Rightarrow>
          (case ctype c of
             MapPhysical f t \<Rightarrow>
               if b < a then (Inl WrongParameters, s)
               else (case phys_try_new e a of
                   None \<Rightarrow> (Inl WrongParameters, s)
                 | Some nfrom \<Rightarrow>
                    (case phys_try_new e b of
                       None \<Rightarrow> (Inl WrongParameters, s)
                     | Some nto \<Rightarrow>
                         if nfrom < f \<or> t < nto then (Inl WrongParameters, s)
                         else (Inr (), cap_write h (c\<lparr>ctype := MapPhysical nfrom nto\<rparr>) s)))
           | MapVirtualToRam \<Rightarrow> (Inl NotImplemented, s)
           | _ \<Rightarrow> (Inl WrongParameters, s)))"

definition cap_drop :: "usize \<Rightarrow> cap_storage \<Rightarrow> unit syscall_result \<times> cap_storage" where
  "cap_drop h s = (case cap_delete h s of
       (Inl err, s') \<Rightarrow> (Inl err, s')
     | (Inr _, s') \<Rightarrow> (Inr (), s'))"

section \<open>The interface of a handle table\<close>

text \<open>
  \<open>add\<close> and \<open>del\<close> return \<open>None\<close> where the operation fails; \<open>room\<close> says that the counter of
  handles has not reached its last value.
\<close>

locale handle_table =
  fixes entries :: "'s \<Rightarrow> ('k \<times> 'v) list"
    and invar :: "'s \<Rightarrow> bool"
    and room :: "'s \<Rightarrow> bool"
    and add :: "'v \<Rightarrow> 's \<Rightarrow> ('k \<times> 's) option"
    and del :: "'k \<Rightarrow> 's \<Rightarrow> ('v \<times> 's) option"
  assumes invar_distinct: "invar s \<Longrightarrow> distinct (map fst (entries s))"
    and add_entries: "add v s = Some (k, s') \<Longrightarrow> entries s' = entries s @ [(k, v)]"
    and add_fresh: "invar s \<Longrightarrow> add v s = Some (k, s') \<Longrightarrow> pairs_get k (entries s) = None"
    and add_invar: "invar s \<Longrightarrow> room s \<Longrightarrow> add v s = Some (k, s') \<Longrightarrow> invar s'"
    and del_entries: "del k s = Some (v, s') \<Longrightarrow> pairs_delete k (entries s) = Some (v, entries s')"
    and del_none: "del k s = None \<longleftrightarrow> pairs_get k (entries s) = None"
    and del_invar: "invar s \<Longrightarrow> del k s = Some (v, s') \<Longrightarrow> invar s'"
begin

lemma get_added:
  assumes "invar s" and "add v s = Some (k, s')"
  shows "pairs_get k' (entries s') = (if k' = k then Some v else pairs_get k' (entries s))"
  using add_entries [OF assms(2)] add_fresh [OF assms]
  by (simp add: pairs_get_append split: option.splits)

lemma get_deleted:
  assumes "invar s" and "del k s = Some (v, s')"
  shows "pairs_get k' (entries s') = (if k' = k then None else pairs_get k' (entries s))"
  using pairs_delete_get [OF del_entries [OF assms(2)] invar_distinct [OF assms(1)]] .

lemma deleted_value: "del k s = Some (v, s') \<Longrightarrow> pairs_get k (entries s) = Some v"
  using del_entries pairs_delete_value by metis

lemma pairs_delete_snoc:
  "pairs_get k xs = None \<Longrightarrow> pairs_delete k (xs @ [(k, v)]) = Some (v, xs)"
  by (induction xs) (auto split: if_splits)

lemma add_del:
  assumes "invar s" and "add v s = Some (k, s')"
  shows "\<exists>s''. del k s' = Some (v, s'') \<and> entries s'' = entries s"
proof -
  have d: "pairs_delete k (entries s') = Some (v, entries s)"
    using add_entries [OF assms(2)] add_fresh [OF assms] by (simp add: pairs_delete_snoc)
  then have "del k s' \<noteq> None"
    using del_none pairs_delete_None [of k "entries s'"] by simp
  then obtain w s'' where "del k s' = Some (w, s'')" by auto
  with del_entries [OF this] d show ?thesis by simp
qed

end

section \<open>The capability store provides it\<close>

text \<open>Handles are distinct and below the counter.\<close>

definition cap_storage_ok :: "cap_storage \<Rightarrow> bool" where
  "cap_storage_ok s \<longleftrightarrow>
     distinct (map fst (cap_handles s)) \<and> (\<forall>x \<in> set (cap_handles s). fst x < next_handle s)"

definition cap_room :: "cap_storage \<Rightarrow> bool" where
  "cap_room s \<longleftrightarrow> next_handle s \<noteq> - 1"

definition cap_add :: "env \<Rightarrow> capability \<Rightarrow> cap_storage \<Rightarrow> (usize \<times> cap_storage) option" where
  "cap_add e c s = (case cap_insert e c s of Done (Inr k, s') \<Rightarrow> Some (k, s') | _ \<Rightarrow> None)"

definition cap_del :: "usize \<Rightarrow> cap_storage \<Rightarrow> (capability \<times> cap_storage) option" where
  "cap_del h s = (case cap_delete h s of (Inr c, s') \<Rightarrow> Some (c, s') | _ \<Rightarrow> None)"

lemma cap_insert_cases:
  assumes "cap_insert e c s = Done (r, s')"
  obtains (stored) "r = Inr (next_handle s)"
      "s' = s\<lparr>next_handle := next_handle s + 1, cap_handles := cap_handles s @ [(next_handle s, c)]\<rparr>"
      "reserve_ok e (length (cap_handles s)) 1"
    | (no_memory) "r = Inl NoMemory" "s' = s\<lparr>next_handle := next_handle s + 1\<rparr>"
      "\<not> reserve_ok e (length (cap_handles s)) 1"
  using assms by (auto simp: cap_insert_def Let_def add_chk_def and_then_eq_Done split: if_splits)

lemma cap_add_Some:
  "cap_add e c s = Some (k, s') \<Longrightarrow> k = next_handle s \<and>
     s' = s\<lparr>next_handle := next_handle s + 1, cap_handles := cap_handles s @ [(next_handle s, c)]\<rparr>"
  by (auto simp: cap_add_def elim: cap_insert_cases split: outcome.splits sum.splits)

lemma cap_next_invar:
  "cap_storage_ok s \<Longrightarrow> cap_room s \<Longrightarrow> cap_storage_ok (s\<lparr>next_handle := next_handle s + 1\<rparr>)"
  by (auto simp: cap_storage_ok_def cap_room_def intro: less_plus_one)

lemma cap_append_invar:
  assumes "cap_storage_ok s" and "cap_room s"
  shows "cap_storage_ok
    (s\<lparr>next_handle := next_handle s + 1, cap_handles := cap_handles s @ [(next_handle s, c)]\<rparr>)"
  using assms by (auto simp: cap_storage_ok_def cap_room_def intro: less_plus_one self_less_plus_one)

lemma cap_fresh: "cap_storage_ok s \<Longrightarrow> pairs_get (next_handle s) (cap_handles s) = None"
  by (auto simp: cap_storage_ok_def pairs_get_None)

lemma cap_delete_simps:
  "cap_delete h s = (Inr c, s') \<Longrightarrow>
     \<exists>hs. pairs_delete h (cap_handles s) = Some (c, hs) \<and> s' = s\<lparr>cap_handles := hs\<rparr>"
  "cap_delete h s = (Inl err, s') \<Longrightarrow> s' = s \<and> err = WrongCapability \<and> cap_get h s = None"
  by (auto simp: cap_delete_def cap_get_def pairs_delete_None split: option.splits)

lemma cap_del_Some:
  "cap_del h s = Some (c, s') \<Longrightarrow>
     pairs_delete h (cap_handles s) = Some (c, cap_handles s') \<and> next_handle s' = next_handle s"
  by (auto simp: cap_del_def cap_delete_def split: option.splits)

lemma cap_subset_invar:
  assumes "cap_storage_ok s" and "distinct (map fst hs)" and "set (map fst hs) \<subseteq> set (map fst (cap_handles s))"
  shows "cap_storage_ok (s\<lparr>cap_handles := hs\<rparr>)"
proof -
  have "fst x < next_handle s" if "x \<in> set hs" for x
  proof -
    from that assms(3) have "fst x \<in> set (map fst (cap_handles s))" by auto
    then obtain y where "y \<in> set (cap_handles s)" "fst y = fst x" by auto
    with assms(1) show ?thesis by (metis cap_storage_ok_def)
  qed
  with assms(2) show ?thesis by (simp add: cap_storage_ok_def)
qed

interpretation caps: handle_table cap_handles cap_storage_ok cap_room "cap_add e" cap_del for e
proof (unfold_locales, goal_cases)
  case (1 s)
  then show ?case by (simp add: cap_storage_ok_def)
next
  case (2 v s k s')
  then show ?case using cap_add_Some by fastforce
next
  case (3 s v k s')
  then show ?case using cap_add_Some cap_fresh by blast
next
  case (4 s v k s')
  then show ?case using cap_add_Some cap_append_invar by blast
next
  case (5 k s v s')
  then show ?case by (simp add: cap_del_Some)
next
  case (6 k s)
  show ?case
    by (auto simp: cap_del_def cap_delete_def pairs_delete_None [symmetric] split: option.splits)
next
  case (7 s k v s')
  from cap_del_Some [OF 7(2)] have d: "pairs_delete k (cap_handles s) = Some (v, cap_handles s')"
    and n: "next_handle s' = next_handle s" by simp_all
  from pairs_delete_keys [OF d] 7(1) have "distinct (map fst (cap_handles s'))"
    "set (map fst (cap_handles s')) \<subseteq> set (map fst (cap_handles s))"
    by (auto simp: cap_storage_ok_def)
  from cap_subset_invar [OF 7(1) this] n show ?case by (simp add: cap_storage_ok_def)
qed

section \<open>Authority\<close>

text \<open>
  What a store allows its holder to do: a right together with the permission bits it is held
  with. A physical mapping capability is the right to every address of its closed range.
\<close>

datatype right = PhysByte u64 | RamMapping | Spawning | Channels

fun rights_of :: "capability_type \<Rightarrow> right set" where
  "rights_of (MapPhysical f t) = PhysByte ` {f..t}"
| "rights_of MapVirtualToRam = {RamMapping}"
| "rights_of SpawnProcess = {Spawning}"
| "rights_of ChannelCreate = {Channels}"

definition cap_authority :: "capability \<Rightarrow> (u32 \<times> right) set" where
  "cap_authority c = {cap_perms c} \<times> rights_of (ctype c)"

definition store_authority :: "cap_storage \<Rightarrow> (u32 \<times> right) set" where
  "store_authority s = (\<Union>x \<in> set (cap_handles s). cap_authority (snd x))"

lemma store_authority_mono:
  "set (cap_handles s') \<subseteq> set (cap_handles s) \<Longrightarrow> store_authority s' \<subseteq> store_authority s"
  by (auto simp: store_authority_def)

lemma cap_get_authority: "cap_get h s = Some c \<Longrightarrow> cap_authority c \<subseteq> store_authority s"
  by (force simp: store_authority_def cap_get_def dest: pairs_get_in)

lemma cap_insert_authority:
  assumes "cap_insert e c s = Done (r, s')"
  shows "store_authority s' \<subseteq> store_authority s \<union> cap_authority c"
  using assms by (cases rule: cap_insert_cases) (auto simp: store_authority_def)

lemma cap_delete_authority:
  assumes "cap_delete h s = (r, s')"
  shows "store_authority s' \<subseteq> store_authority s"
    and "r = Inr c \<Longrightarrow> cap_authority c \<subseteq> store_authority s"
proof -
  show "store_authority s' \<subseteq> store_authority s"
  proof (cases "pairs_delete h (cap_handles s)")
    case None
    with assms show ?thesis by (simp add: cap_delete_def)
  next
    case (Some p)
    then obtain d hs where p: "pairs_delete h (cap_handles s) = Some (d, hs)" by (cases p) simp
    then have "set hs \<subseteq> set (cap_handles s)" by (rule pairs_delete_subset)
    with p assms show ?thesis by (intro store_authority_mono) (auto simp: cap_delete_def)
  qed
next
  assume "r = Inr c"
  with assms have "cap_get h s = Some c"
    by (auto simp: cap_delete_def cap_get_def split: option.splits dest: pairs_delete_value)
  then show "cap_authority c \<subseteq> store_authority s" by (rule cap_get_authority)
qed

lemma cap_clone_authority:
  assumes "cap_clone e h s = Done (r, s')"
  shows "store_authority s' \<subseteq> store_authority s"
proof (cases "cap_get h s")
  case None
  with assms show ?thesis by (simp add: cap_clone_def)
next
  case (Some c)
  show ?thesis
  proof (cases "has_perm e c cap_duplicate")
    case True
    with Some assms have "cap_insert e c s = Done (r, s')" by (simp add: cap_clone_def)
    from cap_insert_authority [OF this] cap_get_authority [OF Some] show ?thesis by blast
  next
    case False
    with Some assms show ?thesis by (simp add: cap_clone_def)
  qed
qed

text \<open>What a successful restriction has checked.\<close>

lemma cap_restrict_cases:
  assumes "phys_ok e" and "cap_restrict e h a b s = (r, s')"
  obtains (ok) c f t where "r = Inr ()" "cap_get h s = Some c" "ctype c = MapPhysical f t"
      "f \<le> a" "a \<le> b" "b \<le> t" "s' = cap_write h (c\<lparr>ctype := MapPhysical a b\<rparr>) s"
    | (err) x where "r = Inl x" "s' = s"
  using assms
  by (auto simp: cap_restrict_def phys_ok_def not_less split: option.splits capability_type.splits if_splits)

lemma cap_restrict_authority:
  assumes "phys_ok e" and "cap_restrict e h a b s = (r, s')"
  shows "store_authority s' \<subseteq> store_authority s"
  using assms
proof (cases rule: cap_restrict_cases)
  case (ok c f t)
  let ?c = "c\<lparr>ctype := MapPhysical a b\<rparr>"
  have "cap_authority ?c \<subseteq> cap_authority c"
    using ok by (auto simp: cap_authority_def intro!: imageI intro: order_trans)
  moreover have "cap_authority c \<subseteq> store_authority s"
    using ok(2) by (rule cap_get_authority)
  moreover have "set (cap_handles s') \<subseteq> insert (h, ?c) (set (cap_handles s))"
    using set_pairs_set [of h ?c "cap_handles s"] by (simp add: ok(7) cap_write_def)
  ultimately show ?thesis by (fastforce simp: store_authority_def)
next
  case (err x)
  then show ?thesis by simp
qed

section \<open>Properties\<close>

lemma cap_insert_invar:
  assumes "cap_insert e c s = Done (r, s')" and "cap_storage_ok s" and "cap_room s"
  shows "cap_storage_ok s'"
  using assms by (cases rule: cap_insert_cases) (auto intro: cap_append_invar cap_next_invar)

lemma cap_delete_invar:
  assumes "cap_delete h s = (r, s')" and "cap_storage_ok s"
  shows "cap_storage_ok s'"
proof (cases r)
  case (Inl a)
  with assms show ?thesis by (metis cap_delete_simps(2))
next
  case (Inr c)
  with assms(1) have "cap_del h s = Some (c, s')" by (simp add: cap_del_def)
  with assms(2) show ?thesis by (rule caps.del_invar)
qed

lemma cap_write_invar: "cap_storage_ok s \<Longrightarrow> cap_storage_ok (cap_write h c s)"
proof -
  assume ok: "cap_storage_ok s"
  have "set (map fst (pairs_set h c (cap_handles s))) \<subseteq> set (map fst (cap_handles s))" by simp
  with ok show "cap_storage_ok (cap_write h c s)"
    unfolding cap_write_def by (intro cap_subset_invar) (simp_all add: cap_storage_ok_def)
qed

text \<open>
  Cloning a capability. It succeeds only on a handle that is present and carries the
  DUPLICATE permission; the new handle was unused, holds an equal capability, and every other
  handle keeps its capability. Where it fails the set of capabilities is unchanged and the error
  names the reason.
\<close>
theorem clone_correct:
  assumes "cap_storage_ok s" and "cap_clone e h s = Done (r, s')"
  shows "case r of
      Inr k \<Rightarrow> (\<exists>c. cap_get h s = Some c \<and> has_perm e c cap_duplicate \<and> cap_get k s = None \<and>
          (\<forall>h'. cap_get h' s' = (if h' = k then Some c else cap_get h' s)))
    | Inl err \<Rightarrow> cap_handles s' = cap_handles s \<and>
        (cap_get h s = None \<and> err = WrongCapability \<or>
         (\<exists>c. cap_get h s = Some c \<and> \<not> has_perm e c cap_duplicate \<and> err = WrongCapabilityPerms) \<or>
         (\<exists>c. cap_get h s = Some c \<and> has_perm e c cap_duplicate \<and> err = NoMemory))"
proof (cases "cap_get h s")
  case None
  with assms(2) show ?thesis by (auto simp: cap_clone_def)
next
  case (Some c)
  show ?thesis
  proof (cases "has_perm e c cap_duplicate")
    case False
    with Some assms(2) show ?thesis by (auto simp: cap_clone_def)
  next
    case True
    with Some assms(2) have ins: "cap_insert e c s = Done (r, s')" by (simp add: cap_clone_def)
    show ?thesis
    proof (cases r)
      case (Inl err)
      from ins Inl Some True show ?thesis by (cases rule: cap_insert_cases) auto
    next
      case (Inr k)
      with ins have add: "cap_add e c s = Some (k, s')" by (simp add: cap_add_def)
      from caps.add_fresh [OF assms(1) add] caps.get_added [OF assms(1) add] Some True Inr
      show ?thesis by (simp add: cap_get_def)
    qed
  qed
qed

definition example_store :: cap_storage where
  "example_store = \<lparr> next_handle = 2, cap_handles =
     [(0, \<lparr> cap_perms = 1, ctype = MapPhysical 0x1000 0x8FFF \<rparr>),
      (1, \<lparr> cap_perms = 2, ctype = SpawnProcess \<rparr>)] \<rparr>"

lemma example_store_ok: "cap_storage_ok example_store" "cap_room example_store"
  by (simp_all add: cap_storage_ok_def cap_room_def example_store_def)

lemma example_clone:
  "cap_clone (documented_env True) 0 example_store = Done (Inr 2,
     \<lparr> next_handle = 3, cap_handles = cap_handles example_store @
        [(2, \<lparr> cap_perms = 1, ctype = MapPhysical 0x1000 0x8FFF \<rparr>)] \<rparr>)"
  by (simp add: cap_clone_def cap_get_def example_store_def has_perm_def cap_duplicate_def
      documented_env_def cap_insert_def add_chk_def)

theorem clone_correct_witness:
  "\<exists>c. cap_get 0 example_store = Some c \<and> cap_get 2 example_store = None"
  using clone_correct [OF example_store_ok(1) example_clone] by auto

text \<open>
  C10: Restricting a capability never widens it: it succeeds only on a physical mapping
  capability and only for a range inside the old one, it replaces the range and keeps the
  permission bits and every other handle, and on an error the store is untouched.
\<close>
theorem restrict_narrows:
  assumes "phys_ok e" and "cap_storage_ok s" and "cap_restrict e h a b s = (r, s')"
  shows "cap_storage_ok s' \<and> (case r of
      Inl err \<Rightarrow> s' = s
    | Inr _ \<Rightarrow> (\<exists>c f t. cap_get h s = Some c \<and> ctype c = MapPhysical f t \<and> f \<le> a \<and> a \<le> b \<and> b \<le> t \<and>
        (\<forall>h'. cap_get h' s' =
           (if h' = h then Some (c\<lparr>ctype := MapPhysical a b\<rparr>) else cap_get h' s))))"
  using assms(1,3)
proof (cases rule: cap_restrict_cases)
  case (ok c f t)
  then have "cap_get h' s' = (if h' = h then Some (c\<lparr>ctype := MapPhysical a b\<rparr>) else cap_get h' s)"
    for h' by (auto simp: cap_write_def cap_get_def pairs_get_set)
  with ok show ?thesis by (auto intro: cap_write_invar assms(2))
next
  case (err x)
  with assms(2) show ?thesis by simp
qed

lemma example_restrict:
  "cap_restrict (documented_env False) 0 0x2000 0x2FFF example_store =
     (Inr (), cap_write 0 \<lparr> cap_perms = 1, ctype = MapPhysical 0x2000 0x2FFF \<rparr> example_store)"
  by (simp add: cap_restrict_def cap_get_def example_store_def documented_env_def)

theorem restrict_narrows_witness:
  "cap_storage_ok (cap_write 0 \<lparr> cap_perms = 1, ctype = MapPhysical 0x2000 0x2FFF \<rparr> example_store)"
  using restrict_narrows [OF documented_phys example_store_ok(1) example_restrict] by simp

text \<open>
  Inspection is coherent: with mode 1 every index below the count of mode 0 yields a
  handle and a type, indexes from the count on are refused, and mode 2 on the handle found
  yields the same type, now with the permission bits of the capability in place of the handle.
\<close>
theorem inspect_coherent:
  assumes "cap_storage_ok s" and "length (cap_handles s) < 2 ^ 64"
  shows "\<exists>n. cap_inspect 0 i s = Inr (n, 0) \<and>
    (if i < n
     then \<exists>h c. cap_inspect 1 i s = Inr (h, cap_id (ctype c)) \<and> cap_get h s = Some c \<and>
            cap_inspect 2 h s = Inr (ucast (cap_perms c), cap_id (ctype c))
     else cap_inspect 1 i s = Inl WrongParameters)"
proof -
  let ?n = "of_nat (length (cap_handles s)) :: u64"
  have lt: "i < ?n \<longleftrightarrow> unat i < length (cap_handles s)"
    using assms(2) by (simp only: word_less_nat_alt unat_of_nat_u64)
  have "cap_inspect 0 i s = Inr (?n, 0)" by (simp add: cap_inspect_def)
  moreover have "\<exists>h c. cap_inspect 1 i s = Inr (h, cap_id (ctype c)) \<and> cap_get h s = Some c \<and>
      cap_inspect 2 h s = Inr (ucast (cap_perms c), cap_id (ctype c))" if "i < ?n"
  proof -
    from that lt have l: "unat i < length (cap_handles s)" by simp
    obtain h c where hc: "cap_handles s ! unat i = (h, c)" by fastforce
    with l have "(h, c) \<in> set (cap_handles s)" by (metis nth_mem)
    with assms(1) have g: "cap_get h s = Some c"
      by (simp add: cap_get_def pairs_get_map_of cap_storage_ok_def)
    with l hc show ?thesis by (simp add: cap_inspect_def)
  qed
  moreover have "cap_inspect 1 i s = Inl WrongParameters" if "\<not> i < ?n"
    using that lt by (simp add: cap_inspect_def)
  ultimately show ?thesis by auto
qed

theorem inspect_coherent_witness:
  "\<exists>n. cap_inspect 0 1 example_store = Inr (n, 0)"
  using inspect_coherent [OF example_store_ok(1), of 1] by (simp add: example_store_def) blast

end
