(* ===== verification/File_Calls.thy ===== *)
theory File_Calls
  imports File_System Capabilities
begin

text \<open>
  The file descriptors of a task and the bodies of the file system calls
  (\<open>file/syscall.rs\<close>): \<open>open\<close>, \<open>seek\<close>, \<open>read\<close> and \<open>close\<close> on the storage of the current task.
  Each call is given in the two parts the code has, the part before the task is locked (the
  checks of the user addresses, the path) and the part under the lock; \<open>Task_Calls\<close> puts the
  lock of the current task between them.
\<close>

section \<open>The model\<close>

record file_storage =
  file_root :: proc_root_fs
  file_handles :: "(usize \<times> file_handle) list"
  next_descriptor :: usize

definition file_storage_new :: "u64 \<Rightarrow> file_storage" where
  "file_storage_new task =
     \<lparr> file_root = proc_root_new task, file_handles = [], next_descriptor = 1 \<rparr>"

text \<open>The next descriptor is a \<open>NonZeroUsize\<close>, so a wrapped counter panics in \<open>unwrap\<close>.\<close>

definition allocate_descriptor :: "env \<Rightarrow> file_storage \<Rightarrow> (usize \<times> file_storage) outcome" where
  "allocate_descriptor e s =
     (let x = next_descriptor s in
      and_then (add_chk (overflow_checks e) x 1) (\<lambda>n.
        if n = 0 then Panic else Done (x, s\<lparr>next_descriptor := n\<rparr>)))"

text \<open>The check of a user range: the first address, then the sum of address and length.\<close>

definition check_user_range :: "env \<Rightarrow> usize \<Rightarrow> usize \<Rightarrow> unit syscall_result outcome" where
  "check_user_range e a n =
     (case check_addr_userspace a of
        Inl err \<Rightarrow> Done (Inl err)
      | Inr _ \<Rightarrow> and_then (add_chk (overflow_checks e) a n) (\<lambda>b. Done (check_addr_userspace b)))"

text \<open>\<open>open\<close> up to the lock: the path, or the error; opening for writing is \<open>todo!()\<close>.\<close>

definition file_open_path ::
    "env \<Rightarrow> memory \<Rightarrow> usize \<Rightarrow> usize \<Rightarrow> usize \<Rightarrow> str syscall_result outcome" where
  "file_open_path e m path_ptr path_len mode =
     and_then (check_user_range e path_ptr path_len) (\<lambda>r. case r of
       Inl err \<Rightarrow> Done (Inl err)
     | Inr _ \<Rightarrow> and_then (mem_read m path_ptr (unat path_len)) (\<lambda>path.
         if \<not> utf8_valid path then Done (Inl StringNotUtf8)
         else let flags = bf_truncate e fs_open_all (mode AND 0xFF) in
           if bf_contains e flags fs_write then Panic else Done (Inr path)))"

text \<open>\<open>open\<close> under the lock.\<close>

definition file_open_at :: "env \<Rightarrow> str \<Rightarrow> file_storage \<Rightarrow> (file_storage, usize) op" where
  "file_open_at e path s =
     (case open_path_full (ProcRootPath (file_root s)) path of
        Inl err \<Rightarrow> Done (Inl InvalidPath, s)
      | Inr ph \<Rightarrow>
          let fh = path_read e ph in
          and_then (allocate_descriptor e s) (\<lambda>(d, s').
            Done (Inr d, s'\<lparr>file_handles := file_handles s' @ [(d, fh)]\<rparr>)))"

fun file_handle_error_code :: "file_handle_error \<Rightarrow> syscall_error" where
  "file_handle_error_code NotSeekable = FsNotSeekable"
| "file_handle_error_code SeekOutOfRange = FsSeekOutOfRange"

definition file_seek_at :: "usize \<Rightarrow> usize \<Rightarrow> file_storage \<Rightarrow> unit syscall_result \<times> file_storage" where
  "file_seek_at fd index s =
     (case pairs_get fd (file_handles s) of
        None \<Rightarrow> (Inl WrongDescriptor, s)
      | Some h \<Rightarrow>
          (let (r, h') = file_seek h index; s' = s\<lparr>file_handles := pairs_set fd h' (file_handles s)\<rparr>
           in case r of Inl err \<Rightarrow> (Inl (file_handle_error_code err), s') | Inr _ \<Rightarrow> (Inr (), s')))"

text \<open>\<open>read\<close> under the lock: the result is the count, and the memory has the bytes.\<close>

definition file_read_at ::
    "usize \<Rightarrow> usize \<Rightarrow> usize \<Rightarrow> memory \<Rightarrow> file_storage \<Rightarrow> (memory \<times> file_storage, usize) op" where
  "file_read_at fd at n m s =
     (case pairs_get fd (file_handles s) of
        None \<Rightarrow> Done (Inl WrongDescriptor, (m, s))
      | Some h \<Rightarrow>
          and_then (file_read h (unat n)) (\<lambda>(w, h').
            and_then (mem_write m at w) (\<lambda>m'.
              Done (Inr (of_nat (length w)),
                (m', s\<lparr>file_handles := pairs_set fd h' (file_handles s)\<rparr>)))))"

definition file_close_at :: "usize \<Rightarrow> file_storage \<Rightarrow> unit syscall_result \<times> file_storage" where
  "file_close_at fd s =
     (case pairs_delete fd (file_handles s) of
        None \<Rightarrow> (Inl WrongDescriptor, s)
      | Some (_, hs) \<Rightarrow> (Inr (), s\<lparr>file_handles := hs\<rparr>))"

section \<open>The descriptor table\<close>

text \<open>Descriptors are distinct, not zero and below the counter, which is not zero either.\<close>

definition file_storage_ok :: "file_storage \<Rightarrow> bool" where
  "file_storage_ok s \<longleftrightarrow>
     distinct (map fst (file_handles s)) \<and> next_descriptor s \<noteq> 0 \<and>
     (\<forall>x \<in> set (file_handles s). fst x < next_descriptor s \<and> fst x \<noteq> 0)"

definition file_add :: "env \<Rightarrow> file_handle \<Rightarrow> file_storage \<Rightarrow> (usize \<times> file_storage) option" where
  "file_add e h s = (case allocate_descriptor e s of
     Done (d, s') \<Rightarrow> Some (d, s'\<lparr>file_handles := file_handles s' @ [(d, h)]\<rparr>) | _ \<Rightarrow> None)"

definition file_del :: "usize \<Rightarrow> file_storage \<Rightarrow> (file_handle \<times> file_storage) option" where
  "file_del fd s =
     map_option (\<lambda>(h, hs). (h, s\<lparr>file_handles := hs\<rparr>)) (pairs_delete fd (file_handles s))"

lemma allocate_descriptor_Done:
  "allocate_descriptor e s = Done (d, s') \<longleftrightarrow>
     d = next_descriptor s \<and> next_descriptor s \<noteq> - 1 \<and> s' = s\<lparr>next_descriptor := next_descriptor s + 1\<rparr>"
proof (cases "next_descriptor s = - 1")
  case True
  then show ?thesis by (auto simp: allocate_descriptor_def add_chk_max)
next
  case False
  moreover from False have "next_descriptor s + 1 \<noteq> 0" by (simp add: add_eq_0_iff2)
  ultimately show ?thesis by (auto simp: allocate_descriptor_def add_chk_one Let_def)
qed

lemma file_add_Some:
  "file_add e h s = Some (d, s') \<longleftrightarrow> d = next_descriptor s \<and> next_descriptor s \<noteq> - 1 \<and>
     s' = s\<lparr>next_descriptor := next_descriptor s + 1,
            file_handles := file_handles s @ [(next_descriptor s, h)]\<rparr>"
proof (cases "allocate_descriptor e s")
  case (Done p)
  then obtain d' t where "allocate_descriptor e s = Done (d', t)" by (cases p) simp
  then show ?thesis using allocate_descriptor_Done [of e s d' t] by (auto simp: file_add_def)
next
  case Panic
  then show ?thesis using allocate_descriptor_Done [of e s] by (auto simp: file_add_def)
next
  case Hang
  then show ?thesis using allocate_descriptor_Done [of e s] by (auto simp: file_add_def)
qed

lemma file_append_ok:
  assumes "file_storage_ok s" and "next_descriptor s \<noteq> - 1"
  shows "file_storage_ok (s\<lparr>next_descriptor := next_descriptor s + 1,
    file_handles := file_handles s @ [(next_descriptor s, h)]\<rparr>)"
  using assms by (auto simp: file_storage_ok_def add_eq_0_iff2 intro: less_plus_one self_less_plus_one)

lemma file_subset_ok:
  assumes "file_storage_ok s" and "distinct (map fst hs)"
    and "set (map fst hs) \<subseteq> set (map fst (file_handles s))"
  shows "file_storage_ok (s\<lparr>file_handles := hs\<rparr>)"
proof -
  have "fst x < next_descriptor s \<and> fst x \<noteq> 0" if "x \<in> set hs" for x
  proof -
    from that assms(3) have "fst x \<in> set (map fst (file_handles s))" by auto
    then obtain y where "y \<in> set (file_handles s)" "fst y = fst x" by auto
    with assms(1) show ?thesis by (metis file_storage_ok_def)
  qed
  with assms(1,2) show ?thesis by (simp add: file_storage_ok_def)
qed

interpretation files: handle_table file_handles file_storage_ok "\<lambda>_. True" "file_add e" file_del for e
proof (unfold_locales, goal_cases)
  case (1 s)
  then show ?case by (simp add: file_storage_ok_def)
next
  case (2 v s k s')
  then show ?case by (simp add: file_add_Some)
next
  case (3 s v k s')
  then show ?case by (auto simp: file_add_Some pairs_get_None file_storage_ok_def)
next
  case (4 s v k s')
  then show ?case by (auto simp: file_add_Some intro: file_append_ok)
next
  case (5 k s v s')
  then show ?case by (auto simp: file_del_def)
next
  case (6 k s)
  show ?case by (simp add: file_del_def pairs_delete_None)
next
  case (7 s k v s')
  then obtain hs where hs: "pairs_delete k (file_handles s) = Some (v, hs)"
    "s' = s\<lparr>file_handles := hs\<rparr>" by (auto simp: file_del_def)
  from 7(1) have "distinct (map fst (file_handles s))" by (simp add: file_storage_ok_def)
  from pairs_delete_keys [OF hs(1) this] have "distinct (map fst hs)"
    "set (map fst hs) \<subseteq> set (map fst (file_handles s))" by auto
  from file_subset_ok [OF 7(1) this] hs(2) show ?case by simp
qed

section \<open>User ranges\<close>

lemma check_user_range_Inr:
  "check_user_range e a n = Done (Inr ()) \<longleftrightarrow>
     a < 0x8000000000000000 \<and> a + n < 0x8000000000000000 \<and>
     (overflow_checks e \<longrightarrow> unat a + unat n < 2 ^ 64)"
  by (auto simp: check_user_range_def check_addr_userspace_simps add_chk_def)

text \<open>
  A user range that passes the check and does not wrap around the address space lies in
  the lower half: with overflow checks every accepted range is of this kind.
\<close>
theorem user_range_sound:
  assumes "check_user_range e a n = Done (Inr ())"
    and "overflow_checks e \<or> unat a + unat n < 2 ^ 64" and "i < unat n"
  shows "a + of_nat i < 0x8000000000000000"
proof -
  from assms(1,2) have sum: "unat a + unat n < 2 ^ 64" and "a + n < 0x8000000000000000"
    by (auto simp: check_user_range_Inr)
  then have "unat a + unat n < 9223372036854775808"
    using unat_add_no_overflow [OF sum] by (simp add: word_less_nat_alt)
  moreover have "unat (of_nat i :: u64) = i"
    using assms(3) unat_lt_2p64 [of n] by (intro unat_of_nat_u64) simp
  ultimately show ?thesis
    using assms(3) unat_add_no_overflow [of a "of_nat i"] by (simp add: word_less_nat_alt)
qed

theorem user_range_sound_witness: "(0x2000 :: u64) + of_nat 5 < 0x8000000000000000"
  by (rule user_range_sound [of "documented_env True" _ 16])
     (simp_all add: check_user_range_Inr documented_env_def)

text \<open>
  Without overflow checks, as in the release profile, the check has a hole: for every
  user address but zero there is a length that it accepts although the range holds every address
  of the kernel half.
\<close>
theorem user_range_hole:
  assumes "\<not> overflow_checks e" and "a < 0x8000000000000000" and "a \<noteq> 0"
  shows "check_user_range e a (- a) = Done (Inr ()) \<and>
    (\<forall>k \<ge> 0x8000000000000000. \<exists>i < unat (- a). a + of_nat i = k)"
proof
  show "check_user_range e a (- a) = Done (Inr ())"
    using assms by (simp add: check_user_range_Inr)
  show "\<forall>k \<ge> 0x8000000000000000. \<exists>i < unat (- a). a + of_nat i = k"
  proof (intro allI impI)
    fix k :: u64 assume k: "0x8000000000000000 \<le> k"
    then have ak: "a \<le> k" using assms(2) by simp
    have "unat (k - a) < unat (- a)"
    proof -
      have "unat (- a) = 2 ^ 64 - unat a"
        using unat_sub_if' [of 0 a] assms(3) by (simp add: unat_gt_0)
      moreover have "unat (k - a) = unat k - unat a"
        using ak by (simp add: unat_sub word_le_nat_alt)
      moreover have "0 < unat a" using assms(3) by (simp add: unat_gt_0)
      ultimately show ?thesis
        using unat_lt_2p64 [of k] ak by (simp add: word_le_nat_alt)
    qed
    moreover have "a + of_nat (unat (k - a)) = k" by simp
    ultimately show "\<exists>i < unat (- a). a + of_nat i = k" by blast
  qed
qed

theorem user_range_hole_witness:
  "check_user_range (documented_env False) 0x1000 (- 0x1000) = Done (Inr ())"
proof -
  have "\<not> overflow_checks (documented_env False)" by (simp add: documented_env_def)
  from user_range_hole [where a = "0x1000", OF this] show ?thesis by simp
qed

section \<open>Descriptors\<close>

text \<open>
  C15: Opening a path gives a new descriptor, not zero and not in use, that stands for the
  file at the end of the walk, read from its start; every other descriptor keeps its handle, and
  a path that does not open is reported as an invalid path and changes nothing.
\<close>
theorem open_correct:
  assumes "file_storage_ok s" and "file_open_at e path s = Done (r, s')"
  shows "file_storage_ok s' \<and> (case r of
      Inr d \<Rightarrow> (\<exists>ph. open_path_full (ProcRootPath (file_root s)) path = Inr ph \<and> d \<noteq> 0 \<and>
          pairs_get d (file_handles s) = None \<and>
          (\<forall>d'. pairs_get d' (file_handles s') =
             (if d' = d then Some (path_read e ph) else pairs_get d' (file_handles s))))
    | Inl err \<Rightarrow> err = InvalidPath \<and> s' = s \<and>
        (\<exists>x. open_path_full (ProcRootPath (file_root s)) path = Inl x))"
proof (cases "open_path_full (ProcRootPath (file_root s)) path")
  case (Inl x)
  with assms show ?thesis by (auto simp: file_open_at_def)
next
  case (Inr ph)
  with assms(2) obtain d t where al: "allocate_descriptor e s = Done (d, t)"
    and r: "r = Inr d" and s': "s' = t\<lparr>file_handles := file_handles t @ [(d, path_read e ph)]\<rparr>"
    by (auto simp: file_open_at_def and_then_eq_Done Let_def)
  then have add: "file_add e (path_read e ph) s = Some (d, s')" by (simp add: file_add_def)
  moreover have "d \<noteq> 0" using add assms(1) by (simp add: file_add_Some file_storage_ok_def)
  ultimately show ?thesis
    using files.add_invar [OF assms(1) TrueI add] files.add_fresh [OF assms(1) add]
      files.get_added [OF assms(1) add] Inr r by auto
qed

definition example_files :: file_storage where
  "example_files = \<lparr> file_root = ProcRootFs 2 [([0x61], ProcRootPath (proc_root_new 3))],
     file_handles = [(1, InitFsFileHandle [7, 8, 9] 0)], next_descriptor = 2 \<rparr>"

lemma example_files_ok: "file_storage_ok example_files"
  by (simp add: file_storage_ok_def example_files_def)

theorem open_correct_witness:
  "file_storage_ok (example_files\<lparr>next_descriptor := 3, file_handles := file_handles example_files @
     [(2, dir_names_to_handle (documented_env True) [])]\<rparr>)"
proof -
  have "file_open_at (documented_env True) [0x61] example_files = Done (Inr 2,
      example_files\<lparr>next_descriptor := 3, file_handles := file_handles example_files @
        [(2, dir_names_to_handle (documented_env True) [])]\<rparr>)"
    by (simp add: file_open_at_def example_files_def open_path_full_walk_eq significant_def
        components.simps stays_def proc_root_new_def allocate_descriptor_def add_chk_def)
  from open_correct [OF example_files_ok this] show ?thesis by blast
qed

lemma mem_write_frame:
  assumes "mem_write m a w = Done m'" and "\<And>i. i < length w \<Longrightarrow> a + of_nat i \<noteq> k"
  shows "mem_byte m' k = mem_byte m k"
  using assms
proof (induction w arbitrary: m a)
  case Nil
  then show ?case by simp
next
  case (Cons b w)
  from Cons.prems(2) [of 0] have "a \<noteq> k" by simp
  have tail: "mem_write (m\<lparr>mem_byte := (mem_byte m)(a := Some b)\<rparr>) (a + 1) w = Done m'"
    using Cons.prems(1) by (simp split: if_splits)
  have "a + 1 + of_nat i \<noteq> k" if "i < length w" for i
    using Cons.prems(2) [of "Suc i"] that by (simp add: add.assoc)
  from Cons.IH [OF tail this] \<open>a \<noteq> k\<close> show ?case by simp
qed

lemma mem_write_content:
  assumes "mem_write m a w = Done m'" and "length w < 2 ^ 64" and "i < length w"
  shows "mem_byte m' (a + of_nat i) = Some (w ! i)"
  using assms
proof (induction w arbitrary: m a i)
  case Nil
  then show ?case by simp
next
  case (Cons b w)
  have tail: "mem_write (m\<lparr>mem_byte := (mem_byte m)(a := Some b)\<rparr>) (a + 1) w = Done m'"
    using Cons.prems(1) by (simp split: if_splits)
  show ?case
  proof (cases i)
    case (Suc j)
    with Cons.IH [OF tail, of j] Cons.prems show ?thesis by (simp add: add.assoc)
  next
    case 0
    have "a + 1 + of_nat j \<noteq> a" if "j < length w" for j
    proof
      assume "a + 1 + of_nat j = a"
      then have "of_nat (Suc j) = (0 :: u64)" by (simp add: add.assoc)
      moreover have "unat (of_nat (Suc j) :: u64) = Suc j"
        using that Cons.prems(2) by (intro unat_of_nat_u64) simp
      ultimately show False by simp
    qed
    from mem_write_frame [OF tail this] 0 show ?thesis by simp
  qed
qed

lemma file_read_at_bound:
  assumes "file_read_at fd at n m s = Done (Inr c, (m', s'))"
  shows "c \<le> n"
proof -
  from assms obtain h w h' where rd: "file_read h (unat n) = Done (w, h')" and c: "c = of_nat (length w)"
    by (auto simp: file_read_at_def and_then_eq_Done split: option.splits)
  from file_read_length [OF rd] have "unat (of_nat (length w) :: u64) \<le> unat n"
    by (metis le_unat_uoi)
  with c show ?thesis by (simp add: word_le_nat_alt)
qed


definition example_memory :: memory where
  "example_memory = \<lparr> mem_byte = (\<lambda>a. if a < 0x8000 then Some 0 else None),
     mem_writable = (\<lambda>a. 0x1000 \<le> a) \<rparr>"


text \<open>
  Closing a descriptor removes that descriptor only, and closing or seeking on one that
  is not open is reported and changes nothing; both keep the table well formed.
\<close>
theorem close_correct:
  assumes "file_storage_ok s" and "file_close_at fd s = (r, s')"
  shows "file_storage_ok s' \<and>
    (case r of
       Inl err \<Rightarrow> err = WrongDescriptor \<and> pairs_get fd (file_handles s) = None \<and> s' = s \<and>
         file_seek_at fd i s = (Inl WrongDescriptor, s)
     | Inr _ \<Rightarrow> pairs_get fd (file_handles s) \<noteq> None \<and>
         (\<forall>d. pairs_get d (file_handles s') =
            (if d = fd then None else pairs_get d (file_handles s))))"
proof (cases "pairs_delete fd (file_handles s)")
  case None
  with assms show ?thesis
    by (auto simp: file_close_at_def file_seek_at_def pairs_delete_None)
next
  case (Some p)
  then obtain h hs where hs: "pairs_delete fd (file_handles s) = Some (h, hs)" by (cases p) simp
  with assms(2) have r: "r = Inr ()" and s': "s' = s\<lparr>file_handles := hs\<rparr>"
    by (simp_all add: file_close_at_def)
  with hs have del: "file_del fd s = Some (h, s')" by (simp add: file_del_def)
  from files.del_invar [OF assms(1) del] files.get_deleted [OF assms(1) del]
    files.deleted_value [OF del] r show ?thesis by auto
qed

theorem close_correct_witness:
  "file_storage_ok (example_files\<lparr>file_handles := []\<rparr>)"
proof -
  have "file_close_at 1 example_files = (Inr (), example_files\<lparr>file_handles := []\<rparr>)"
    by (simp add: file_close_at_def example_files_def)
  from close_correct [OF example_files_ok this] show ?thesis by blast
qed

end
