(* ===== verification/Tasks.thy ===== *)
theory Tasks
  imports Context_Switch File_Calls
begin

text \<open>
  Tasks and the scheduler (\<open>context/mod.rs\<close>, \<open>context/registry.rs\<close>, \<open>context/task.rs\<close>): the
  context of a task, the registry with its queue of executable tasks, the locks around them, and
  the switch to the next task on the one processor that runs tasks.

  A task context is shared by reference count; the model keys contexts and their locks by the
  task id, which is unique. A lock guard that is dropped at the end of a block is the closing part
  of \<open>holding_task\<close> or \<open>holding_registry\<close>. The type variable is the page table of a task.
\<close>

section \<open>The state\<close>

type_synonym pid = u64

datatype task_state = Sleepy | User | Dying

record 'pt task_context =
  task_id :: pid
  parent :: "pid option"
  children :: "pid list"
  tstate :: task_state
  arch_regs :: context_regs
  capabilities :: cap_storage
  files :: file_storage
  page_table :: 'pt
  kernel_stack :: "u64 option"
  user_stack :: "u64 option"
  user_entry_point :: u64

text \<open>
  \<open>TASKS\<close> (its map, its queue and its lock), the lock of every task, and of the processor:
  \<open>TASK_ID\<close> (0 before it is set), \<open>TASK_SWITCH_LOCKS\<close> and the registers it runs in; \<open>NEXT_PID\<close>.
\<close>

record 'pt kernel =
  registry :: "pid \<Rightarrow> 'pt task_context option"
  executable_tasks :: "pid list"
  registry_lock :: rwlock
  task_lock :: "pid \<Rightarrow> rwlock"
  cur_task :: pid
  switch_locks :: "(pid \<times> pid) option"
  core :: context_regs
  next_pid :: u64

section \<open>Locks\<close>

definition set_task_lock :: "pid \<Rightarrow> rwlock \<Rightarrow> 'pt kernel \<Rightarrow> 'pt kernel" where
  "set_task_lock t l k = k\<lparr>task_lock := (task_lock k)(t := l)\<rparr>"

definition holding_task ::
    "env \<Rightarrow> pid \<Rightarrow> ('pt kernel \<Rightarrow> ('a \<times> 'pt kernel) outcome) \<Rightarrow> 'pt kernel \<Rightarrow> ('a \<times> 'pt kernel) outcome" where
  "holding_task e t body k =
     and_then (lock_write e (task_lock k t)) (\<lambda>l.
     and_then (body (set_task_lock t l k)) (\<lambda>(r, k').
       Done (r, set_task_lock t Unlocked k')))"

definition reading_task ::
    "env \<Rightarrow> pid \<Rightarrow> ('pt kernel \<Rightarrow> ('a \<times> 'pt kernel) outcome) \<Rightarrow> 'pt kernel \<Rightarrow> ('a \<times> 'pt kernel) outcome" where
  "reading_task e t body k =
     and_then (lock_read e (task_lock k t)) (\<lambda>l.
     and_then (body (set_task_lock t l k)) (\<lambda>(r, k').
       Done (r, set_task_lock t (drop_reader (task_lock k' t)) k')))"

definition holding_registry ::
    "env \<Rightarrow> ('pt kernel \<Rightarrow> ('a \<times> 'pt kernel) outcome) \<Rightarrow> 'pt kernel \<Rightarrow> ('a \<times> 'pt kernel) outcome" where
  "holding_registry e body k =
     and_then (lock_write e (registry_lock k)) (\<lambda>l.
     and_then (body (k\<lparr>registry_lock := l\<rparr>)) (\<lambda>(r, k'). Done (r, k'\<lparr>registry_lock := Unlocked\<rparr>)))"

definition reading_registry ::
    "env \<Rightarrow> ('pt kernel \<Rightarrow> ('a \<times> 'pt kernel) outcome) \<Rightarrow> 'pt kernel \<Rightarrow> ('a \<times> 'pt kernel) outcome" where
  "reading_registry e body k =
     and_then (lock_read e (registry_lock k)) (\<lambda>l.
     and_then (body (k\<lparr>registry_lock := l\<rparr>)) (\<lambda>(r, k').
       Done (r, k'\<lparr>registry_lock := drop_reader (registry_lock k')\<rparr>)))"

definition update_task :: "pid \<Rightarrow> ('pt task_context \<Rightarrow> 'pt task_context) \<Rightarrow> 'pt kernel \<Rightarrow> 'pt kernel" where
  "update_task t f k = k\<lparr>registry := (registry k)(t := map_option f (registry k t))\<rparr>"

section \<open>The current task\<close>

definition current_task_id :: "'pt kernel \<Rightarrow> pid outcome" where
  "current_task_id k = (if cur_task k = 0 then Panic else Done (cur_task k))"

text \<open>The reference to the context is its task id.\<close>

definition current_task :: "env \<Rightarrow> 'pt kernel \<Rightarrow> (pid \<times> 'pt kernel) outcome" where
  "current_task e = reading_registry e (\<lambda>k.
     and_then (current_task_id k) (\<lambda>t.
     and_then (unwrap (registry k t)) (\<lambda>_. Done (t, k))))"

definition set_current_task_id :: "pid \<Rightarrow> 'pt kernel \<Rightarrow> 'pt kernel" where
  "set_current_task_id t k = k\<lparr>cur_task := t\<rparr>"

section \<open>The registry\<close>

definition init_tasks :: "'pt kernel \<Rightarrow> 'pt kernel" where
  "init_tasks k = k\<lparr>registry := \<lambda>_. None, executable_tasks := [], registry_lock := Unlocked\<rparr>"

definition registry_add :: "env \<Rightarrow> 'pt task_context \<Rightarrow> 'pt kernel \<Rightarrow> 'pt kernel outcome" where
  "registry_add e ctx k =
     (let t = task_id ctx in
      if registry k t \<noteq> None then Panic
      else let k1 = set_task_lock t Unlocked (k\<lparr>registry := (registry k)(t \<mapsto> ctx)\<rparr>) in
        case parent ctx of
          None \<Rightarrow> Done k1
        | Some p \<Rightarrow>
            and_then (unwrap (registry k1 p)) (\<lambda>_.
            and_then (holding_task e p (\<lambda>k2.
                Done ((), update_task p (\<lambda>c. c\<lparr>children := children c @ [t]\<rparr>) k2)) k1) (\<lambda>(_, k3).
              Done k3)))"

definition registry_get :: "pid \<Rightarrow> 'pt kernel \<Rightarrow> 'pt task_context option" where
  "registry_get t k = registry k t"

definition remove_child :: "pid \<Rightarrow> 'pt task_context \<Rightarrow> 'pt task_context" where
  "remove_child t c = (case position (\<lambda>x. x = t) (children c) of
       None \<Rightarrow> c | Some i \<Rightarrow> c\<lparr>children := vec_remove i (children c)\<rparr>)"

definition registry_remove ::
    "env \<Rightarrow> pid \<Rightarrow> 'pt kernel \<Rightarrow> ('pt task_context option \<times> 'pt kernel) outcome" where
  "registry_remove e t k =
     (case registry k t of
        None \<Rightarrow> Done (None, k)
      | Some c \<Rightarrow>
          reading_task e t (\<lambda>k1.
            case Option.bind (parent c) (\<lambda>p. map_option (\<lambda>_. p) (registry k1 p)) of
              None \<Rightarrow> Done (Some c, k1)
            | Some p \<Rightarrow> holding_task e p (\<lambda>k2.
                Done (Some c, update_task p (remove_child (task_id c)) k2)) k1)
          (k\<lparr>registry := (registry k)(t := None)\<rparr>))"

definition queue_for_execution :: "pid \<Rightarrow> 'pt kernel \<Rightarrow> 'pt kernel" where
  "queue_for_execution t k = k\<lparr>executable_tasks := executable_tasks k @ [t]\<rparr>"

section \<open>Switching\<close>

text \<open>
  What \<open>switch_task\<close> does to the two contexts and the processor, by its specification; it ends by
  jumping to \<open>after_task_switch\<close>. \<open>unwrap_unchecked\<close> of a missing pair would be undefined
  behaviour, here a panic.
\<close>

definition after_task_switch :: "env \<Rightarrow> 'pt kernel \<Rightarrow> 'pt kernel outcome" where
  "after_task_switch e k =
     and_then (unwrap (switch_locks k)) (\<lambda>(f, t).
     let k1 = k\<lparr>switch_locks := None\<rparr> in
     and_then (unwrap (registry k1 f)) (\<lambda>c.
     and_then (if tstate c = Dying then holding_registry e (registry_remove e (task_id c)) k1
               else Done (None, k1)) (\<lambda>(_, k2).
       Done (set_task_lock t Unlocked (set_task_lock f Unlocked k2)))))"

definition switch_registers :: "pid \<Rightarrow> pid \<Rightarrow> 'pt task_context \<Rightarrow> 'pt task_context \<Rightarrow> 'pt kernel \<Rightarrow> 'pt kernel" where
  "switch_registers f t fc tc k =
     (let (saved, now) = swap_context (core k) (arch_regs fc) (arch_regs tc) in
      (update_task f (\<lambda>c. c\<lparr>arch_regs := saved\<rparr>) k)\<lparr>core := now\<rparr>)"

definition enqueue_from :: "pid \<Rightarrow> 'pt task_context \<Rightarrow> pid list \<Rightarrow> pid list" where
  "enqueue_from t c q = (if tstate c = User then q @ [t] else q)"

fun next_of :: "pid list \<Rightarrow> pid \<times> pid list" where
  "next_of [] = (1, [])"
| "next_of (t # q) = (t, q)"

definition switch_to_next_task :: "env \<Rightarrow> 'pt kernel \<Rightarrow> (bool \<times> 'pt kernel) outcome" where
  "switch_to_next_task e k =
     and_then (lock_write e (registry_lock k)) (\<lambda>rl.
     and_then (current_task_id k) (\<lambda>f.
     and_then (unwrap (registry k f)) (\<lambda>fc.
     and_then (lock_write e (task_lock k f)) (\<lambda>fl.
     let k1 = set_task_lock f fl (k\<lparr>registry_lock := rl\<rparr>);
         (t, q) = next_of (enqueue_from f fc (executable_tasks k1));
         k2 = k1\<lparr>executable_tasks := q\<rparr>
     in if t = f then Done (False, (set_task_lock f Unlocked k2)\<lparr>registry_lock := Unlocked\<rparr>)
        else and_then (unwrap (registry k2 t)) (\<lambda>tc.
          let k3 = k2\<lparr>registry_lock := Unlocked\<rparr> in
          and_then (lock_write e (task_lock k3 t)) (\<lambda>tl.
          let k4 = (set_current_task_id t (set_task_lock t tl k3))\<lparr>switch_locks := Some (f, t)\<rparr> in
          and_then (after_task_switch e (switch_registers f t fc tc k4)) (\<lambda>k5.
            Done (True, k5))))))))"

section \<open>Exit and yield\<close>

definition sys_yield :: "env \<Rightarrow> 'pt kernel \<Rightarrow> ('pt kernel, unit) op" where
  "sys_yield e k = and_then (switch_to_next_task e k) (\<lambda>(_, k'). Done (Inr (), k'))"

definition sys_exit :: "env \<Rightarrow> 'pt kernel \<Rightarrow> ('pt kernel, unit) op" where
  "sys_exit e k =
     and_then (current_task e k) (\<lambda>(t, k1).
     and_then (holding_task e t (\<lambda>k2. Done ((), update_task t (\<lambda>c. c\<lparr>tstate := Dying\<rparr>) k2)) k1) (\<lambda>(_, k3).
     and_then (switch_to_next_task e k3) (\<lambda>(_, k4). Done (Inr (), k4))))"

section \<open>The invariant of the scheduler\<close>

text \<open>
  Between two system calls no lock is held; the task that runs is registered and alive; task 1
  only sleeps; the queue holds other, distinct, registered user tasks.
\<close>

definition runnable :: "'pt kernel \<Rightarrow> pid \<Rightarrow> bool" where
  "runnable k t \<longleftrightarrow> (\<exists>c. registry k t = Some c \<and> tstate c = User)"

definition unlocked :: "'pt kernel \<Rightarrow> bool" where
  "unlocked k \<longleftrightarrow> registry_lock k = Unlocked \<and> (\<forall>t. task_lock k t = Unlocked) \<and> switch_locks k = None"

definition ids_ok :: "'pt kernel \<Rightarrow> bool" where
  "ids_ok k \<longleftrightarrow> (\<forall>t c. registry k t = Some c \<longrightarrow> task_id c = t)"

definition sched_ok :: "'pt kernel \<Rightarrow> bool" where
  "sched_ok k \<longleftrightarrow> unlocked k \<and> ids_ok k \<and> cur_task k \<noteq> 0 \<and>
     (\<exists>c. registry k 1 = Some c \<and> tstate c = Sleepy) \<and>
     (cur_task k = 1 \<or> runnable k (cur_task k)) \<and>
     distinct (executable_tasks k) \<and> cur_task k \<notin> set (executable_tasks k) \<and>
     (\<forall>t \<in> set (executable_tasks k). runnable k t \<and> t \<noteq> 0)"

text \<open>The tasks that compete for the processor, in the order in which they get it.\<close>

definition ring :: "'pt kernel \<Rightarrow> pid list" where
  "ring k = executable_tasks k @ (if runnable k (cur_task k) then [cur_task k] else [])"

definition resumed :: "'pt kernel \<Rightarrow> pid \<Rightarrow> pid list \<Rightarrow> 'pt kernel" where
  "resumed k t q =
     (case (registry k (cur_task k), registry k t) of
        (Some fc, Some tc) \<Rightarrow>
          (switch_registers (cur_task k) t fc tc (k\<lparr>executable_tasks := q\<rparr>))\<lparr>cur_task := t\<rparr>
      | _ \<Rightarrow> k)"

lemma sched_ok_D:
  assumes "sched_ok k"
  shows "registry_lock k = Unlocked" "task_lock k t = Unlocked" "switch_locks k = None"
    "cur_task k \<noteq> 0" "distinct (executable_tasks k)" "cur_task k \<notin> set (executable_tasks k)"
    "x \<in> set (executable_tasks k) \<Longrightarrow> runnable k x"
    "x \<in> set (executable_tasks k) \<Longrightarrow> x \<noteq> 0"
    "cur_task k \<noteq> 1 \<Longrightarrow> runnable k (cur_task k)"
    "\<exists>c. registry k 1 = Some c \<and> tstate c = Sleepy" "\<not> runnable k 1"
    "registry k t = Some c \<Longrightarrow> task_id c = t"
  using assms by (auto simp: sched_ok_def unlocked_def runnable_def ids_ok_def)

lemma cur_registered: "sched_ok k \<Longrightarrow> \<exists>c. registry k (cur_task k) = Some c"
  by (auto simp: sched_ok_def runnable_def)

lemma cur_not_dying:
  "sched_ok k \<Longrightarrow> registry k (cur_task k) = Some c \<Longrightarrow> tstate c \<noteq> Dying \<and> (tstate c = User \<longleftrightarrow> runnable k (cur_task k))"
  by (auto simp: sched_ok_def runnable_def)

lemma unlock_noop: "task_lock k t = Unlocked \<Longrightarrow> set_task_lock t Unlocked (set_task_lock t l k) = k"
  by (simp add: set_task_lock_def fun_upd_idem)

lemma kernel_lock_eq:
  "registry_lock k = Unlocked \<Longrightarrow> k\<lparr>registry_lock := Unlocked\<rparr> = k"
  by simp

text \<open>A switch between two tasks that are alive, step by step, comes out as \<open>resumed\<close>.\<close>

lemma switch_cases:
  assumes "spin_ok e" and ok: "sched_ok k" and "next_of (ring k) = (t, q)"
  shows "switch_to_next_task e k =
    Done (t \<noteq> cur_task k, if t = cur_task k then k\<lparr>executable_tasks := q\<rparr> else resumed k t q)"
proof -
  note D = sched_ok_D [OF ok]
  from cur_registered [OF ok] obtain fc where fc: "registry k (cur_task k) = Some fc" ..
  have eq: "enqueue_from (cur_task k) fc (executable_tasks k) = ring k"
    using cur_not_dying [OF ok fc] by (auto simp: enqueue_from_def ring_def)
  have locks: "task_lock k = (\<lambda>_. Unlocked)" using D(2) by (simp add: fun_eq_iff)
  have "t = 1 \<or> t \<in> set (ring k)" using assms(3) by (cases "ring k") auto
  then obtain tc where tc: "registry k t = Some tc"
    using D(7,10) fc by (auto simp: ring_def runnable_def split: if_splits)
  have nd: "tstate fc \<noteq> Dying" using cur_not_dying [OF ok fc] by simp
  show ?thesis
    using assms(1,3) D(1,3,4) fc tc nd
    by (auto simp: switch_to_next_task_def current_task_id_def eq locks Let_def
        after_task_switch_def switch_registers_def resumed_def set_task_lock_def
        set_current_task_id_def update_task_def swap_context_def intro!: kernel.equality)
qed

lemma resumed_fields:
  assumes "registry k (cur_task k) = Some fc" and "registry k t = Some tc"
  shows "cur_task (resumed k t q) = t" "executable_tasks (resumed k t q) = q"
    "registry (resumed k t q) = (registry k)(cur_task k \<mapsto>
       fc\<lparr>arch_regs := fst (swap_context (core k) (arch_regs fc) (arch_regs tc))\<rparr>)"
    "core (resumed k t q) = snd (swap_context (core k) (arch_regs fc) (arch_regs tc))"
    "unlocked (resumed k t q) = unlocked k"
    "runnable (resumed k t q) x = runnable k x" "ids_ok (resumed k t q) = ids_ok k"
  using assms by (auto simp: ids_ok_def resumed_def switch_registers_def swap_context_def update_task_def
      unlocked_def runnable_def split: prod.splits)

lemma next_of_ring:
  assumes "sched_ok k" and "next_of (ring k) = (t, q)"
  shows "ring k = [] \<and> t = 1 \<and> q = [] \<and> cur_task k = 1 \<and> executable_tasks k = [] \<or>
    ring k = t # q \<and> runnable k t \<and> t \<noteq> 0 \<and> distinct (t # q) \<and> (\<forall>x \<in> set q. runnable k x \<and> x \<noteq> 0)"
proof (cases "ring k")
  case Nil
  with assms sched_ok_D(9) [OF assms(1)] show ?thesis by (auto simp: ring_def split: if_splits)
next
  case (Cons a as)
  have "distinct (ring k)" "\<forall>x \<in> set (ring k). runnable k x \<and> x \<noteq> 0"
    using sched_ok_D [OF assms(1)] by (auto simp: ring_def)
  with Cons assms(2) show ?thesis by auto
qed

lemma next_registered:
  assumes "sched_ok k" and "next_of (ring k) = (t, q)"
  shows "\<exists>tc. registry k t = Some tc"
  using next_of_ring [OF assms] sched_ok_D(10) [OF assms(1)] by (auto simp: runnable_def)

lemma switch_ok:
  assumes "spin_ok e" and ok: "sched_ok k"
  obtains b k' where "switch_to_next_task e k = Done (b, k')" "sched_ok k'"
    "b \<longleftrightarrow> cur_task k' \<noteq> cur_task k" "ring k' = rotate1 (ring k)"
    "cur_task k' = (case ring k of [] \<Rightarrow> 1 | t # _ \<Rightarrow> t)"
    "\<And>x. runnable k' x = runnable k x"
    "\<not> b \<Longrightarrow> registry k' = registry k \<and> core k' = core k"
    "b \<Longrightarrow> \<exists>fc tc saved. registry k (cur_task k) = Some fc \<and> registry k (cur_task k') = Some tc \<and>
       (saved, core k') = swap_context (core k) (arch_regs fc) (arch_regs tc) \<and>
       registry k' = (registry k)(cur_task k \<mapsto> fc\<lparr>arch_regs := saved\<rparr>)"
proof -
  obtain t q where n: "next_of (ring k) = (t, q)" by fastforce
  from cur_registered [OF ok] next_registered [OF ok n] obtain fc tc where
    reg: "registry k (cur_task k) = Some fc" "registry k t = Some tc" by blast
  note R = resumed_fields [OF reg, of q] and N = next_of_ring [OF ok n] and D = sched_ok_D [OF ok]
  let ?k = "if t = cur_task k then k\<lparr>executable_tasks := q\<rparr> else resumed k t q"
  have run: "runnable ?k x = runnable k x" for x
    by (cases "t = cur_task k") (simp_all add: R(6), simp add: runnable_def)
  have f: "cur_task ?k = t" "executable_tasks ?k = q" by (simp_all add: R)
  have c1: "\<exists>c. registry ?k 1 = Some c \<and> tstate c = Sleepy"
    using D(10) reg by (auto simp: R)
  have "unlocked ?k" using ok R(5) by (simp add: sched_ok_def unlocked_def)
  moreover have "ids_ok ?k" using ok R(7) by (simp add: sched_ok_def ids_ok_def)
  ultimately have "sched_ok ?k"
    using c1 N by (auto simp: sched_ok_def f run)
  moreover have "ring ?k = rotate1 (ring k)"
    using N D(11) by (auto simp: ring_def f run)
  moreover have "cur_task ?k = (case ring k of [] \<Rightarrow> 1 | t # _ \<Rightarrow> t)" using N f(1) by auto
  moreover have "t \<noteq> cur_task k \<longrightarrow> (\<exists>fc tc saved. registry k (cur_task k) = Some fc \<and> registry k (cur_task ?k) = Some tc \<and>
       (saved, core ?k) = swap_context (core k) (arch_regs fc) (arch_regs tc) \<and>
       registry ?k = (registry k)(cur_task k \<mapsto> fc\<lparr>arch_regs := saved\<rparr>))"
    using reg by (intro impI exI [of _ fc] exI [of _ tc]
        exI [of _ "fst (swap_context (core k) (arch_regs fc) (arch_regs tc))"]) (simp add: R)
  ultimately show thesis
    using that [OF switch_cases [OF assms(1) ok n]] run f(1) by simp
qed

text \<open>
  Switches at chosen times: before each of them the running task has computed, so the processor
  is in some other state.
\<close>

fun turns :: "env \<Rightarrow> context_regs list \<Rightarrow> 'pt kernel \<Rightarrow> 'pt kernel outcome" where
  "turns e [] k = Done k"
| "turns e (c # cs) k = and_then (switch_to_next_task e (k\<lparr>core := c\<rparr>)) (\<lambda>(_, k'). turns e cs k')"

lemma core_irrelevant: "sched_ok (k\<lparr>core := c\<rparr>) = sched_ok k" "ring (k\<lparr>core := c\<rparr>) = ring k"
  by (simp_all add: sched_ok_def unlocked_def runnable_def ring_def ids_ok_def)

lemma turns_ok:
  assumes "spin_ok e" and "sched_ok k"
  shows "\<exists>k'. turns e cs k = Done k' \<and> sched_ok k' \<and> ring k' = rotate (length cs) (ring k) \<and>
    (ring k \<noteq> [] \<longrightarrow> cs \<noteq> [] \<longrightarrow> cur_task k' = last (ring k'))"
  using assms(2)
proof (induction cs arbitrary: k)
  case Nil
  then show ?case by simp
next
  case (Cons c cs)
  from Cons.prems have ok: "sched_ok (k\<lparr>core := c\<rparr>)" by (simp add: core_irrelevant)
  from switch_ok [OF assms(1) ok] obtain b k1 where k1: "switch_to_next_task e (k\<lparr>core := c\<rparr>) = Done (b, k1)"
    "sched_ok k1" "ring k1 = rotate1 (ring k)" "cur_task k1 = (case ring k of [] \<Rightarrow> 1 | t # _ \<Rightarrow> t)"
    unfolding core_irrelevant by metis
  from Cons.IH [OF k1(2)] obtain k' where k': "turns e cs k1 = Done k'" "sched_ok k'"
    "ring k' = rotate (length cs) (ring k1)"
    "ring k1 \<noteq> [] \<longrightarrow> cs \<noteq> [] \<longrightarrow> cur_task k' = last (ring k')" by blast
  have "cur_task k' = last (ring k')" if "ring k \<noteq> []"
  proof (cases cs)
    case Nil
    with k' k1(3,4) that show ?thesis by (cases "ring k") auto
  next
    case (Cons a list)
    with k'(4) k1(3) that show ?thesis by simp
  qed
  with k1 k' show ?case by (auto simp: rotate1_rotate_swap)
qed

section \<open>Fair scheduling\<close>

text \<open>
  C25: A yield is one step of round robin. From every state of the invariant it returns, with the
  invariant; the head of the ring of runnable tasks runs, the one that yielded is at the end, and
  with no runnable task it is task 1 that runs. Where the task changes, the registers of the
  processor are saved in the context of the old task and loaded from the one of the new task, and no
  other context changes.
\<close>
theorem yield_round_robin:
  assumes "spin_ok e" and "sched_ok k"
  shows "\<exists>k'. sys_yield e k = Done (Inr (), k') \<and> sched_ok k' \<and>
    ring k' = rotate1 (ring k) \<and> cur_task k' = (case ring k of [] \<Rightarrow> 1 | t # _ \<Rightarrow> t) \<and>
    (if cur_task k' = cur_task k then registry k' = registry k \<and> core k' = core k
     else \<exists>fc tc saved. registry k (cur_task k) = Some fc \<and> registry k (cur_task k') = Some tc \<and>
       (saved, core k') = swap_context (core k) (arch_regs fc) (arch_regs tc) \<and>
       registry k' = (registry k)(cur_task k \<mapsto> fc\<lparr>arch_regs := saved\<rparr>))"
proof -
  from switch_ok [OF assms] obtain b k' where s: "switch_to_next_task e k = Done (b, k')" "sched_ok k'"
    "b \<longleftrightarrow> cur_task k' \<noteq> cur_task k" "ring k' = rotate1 (ring k)"
    "cur_task k' = (case ring k of [] \<Rightarrow> 1 | t # _ \<Rightarrow> t)"
    "\<not> b \<Longrightarrow> registry k' = registry k \<and> core k' = core k"
    "b \<Longrightarrow> \<exists>fc tc saved. registry k (cur_task k) = Some fc \<and> registry k (cur_task k') = Some tc \<and>
       (saved, core k') = swap_context (core k) (arch_regs fc) (arch_regs tc) \<and>
       registry k' = (registry k)(cur_task k \<mapsto> fc\<lparr>arch_regs := saved\<rparr>)" by metis
  from s(1) have "sys_yield e k = Done (Inr (), k')" by (simp add: sys_yield_def)
  with s(2-) show ?thesis by auto
qed

definition example_task :: "pid \<Rightarrow> pid option \<Rightarrow> pid list \<Rightarrow> task_state \<Rightarrow> unit task_context" where
  "example_task t p ch st = \<lparr> task_id = t, parent = p, children = ch, tstate = st,
     arch_regs = context_regs_default, capabilities = cap_storage_default,
     files = file_storage_new t, page_table = (), kernel_stack = None, user_stack = None,
     user_entry_point = 0 \<rparr>"

text \<open>Task 2 runs, tasks 3 and 4 wait.\<close>

definition example_kernel :: "unit kernel" where
  "example_kernel = \<lparr>
     registry = [1 \<mapsto> example_task 1 None [2, 3, 4] Sleepy, 2 \<mapsto> example_task 2 (Some 1) [] User,
       3 \<mapsto> example_task 3 (Some 1) [] User, 4 \<mapsto> example_task 4 (Some 1) [] User],
     executable_tasks = [3, 4], registry_lock = Unlocked, task_lock = (\<lambda>_. Unlocked), cur_task = 2,
     switch_locks = None, core = context_regs_default, next_pid = 5 \<rparr>"

lemma example_kernel_ok: "sched_ok example_kernel" "ring example_kernel = [3, 4, 2]"
  by (auto simp: sched_ok_def unlocked_def runnable_def ring_def ids_ok_def example_kernel_def example_task_def)

theorem yield_round_robin_witness:
  "\<exists>k'. sys_yield (documented_env True) example_kernel = Done (Inr (), k') \<and> cur_task k' = 3"
  using yield_round_robin [OF documented_spin example_kernel_ok(1)] by (auto simp: example_kernel_ok(2))

text \<open>
  C26: No starvation. A task that can run gets the processor within as many switches as there
  are runnable tasks, whatever the tasks in between compute.
\<close>
theorem every_task_runs:
  assumes "spin_ok e" and "sched_ok k" and "t \<in> set (ring k)"
  shows "\<exists>n. 0 < n \<and> n \<le> length (ring k) \<and>
    (\<forall>cs. length cs = n \<longrightarrow> (\<exists>k'. turns e cs k = Done k' \<and> sched_ok k' \<and> cur_task k' = t))"
proof -
  from assms(3) obtain i where i: "i < length (ring k)" "ring k ! i = t" by (auto simp: in_set_conv_nth)
  have "\<exists>k'. turns e cs k = Done k' \<and> sched_ok k' \<and> cur_task k' = t" if "length cs = Suc i" for cs
  proof -
    from turns_ok [OF assms(1,2), of cs] that i obtain k' where
      k': "turns e cs k = Done k'" "sched_ok k'" "cur_task k' = last (rotate (Suc i) (ring k))" by auto
    have "last (rotate (Suc i) (ring k)) = rotate (Suc i) (ring k) ! (length (ring k) - 1)"
      using i by (subst last_conv_nth) auto
    also have "\<dots> = ring k ! ((Suc i + (length (ring k) - 1)) mod length (ring k))"
      using i by (intro nth_rotate) simp
    also have "Suc i + (length (ring k) - 1) = i + length (ring k)" using i by simp
    finally show ?thesis using k' i by simp
  qed
  with i(1) show ?thesis by (intro exI [of _ "Suc i"]) auto
qed

theorem every_task_runs_witness:
  "\<exists>n. n \<le> 3 \<and> (\<forall>cs. length cs = n \<longrightarrow>
     (\<exists>k'. turns (documented_env False) cs example_kernel = Done k' \<and> cur_task k' = 4))"
  using every_task_runs [OF documented_spin example_kernel_ok(1), of 4 False]
  by (simp add: example_kernel_ok(2) numeral_3_eq_3) blast

section \<open>Exit\<close>

lemma exit_switch_hangs:
  assumes "spin_ok e" and ok: "sched_ok k" and "cur_task k \<noteq> 1"
  shows "switch_to_next_task e (update_task (cur_task k) (\<lambda>c. c\<lparr>tstate := Dying\<rparr>) k) = Hang"
proof -
  note D = sched_ok_D [OF ok]
  obtain t q where n: "next_of (executable_tasks k) = (t, q)" by fastforce
  then have t: "t = 1 \<or> t \<in> set (executable_tasks k)" by (cases "executable_tasks k") auto
  then have ne: "t \<noteq> cur_task k" using D(6) assms(3) by auto
  have id: "\<And>c. registry k (cur_task k) = Some c \<Longrightarrow> task_id c = cur_task k" by (rule D(12))
  from t D(7,10) obtain tc where tc: "registry k t = Some tc" by (auto simp: runnable_def)
  from cur_registered [OF ok] obtain fc where fc: "registry k (cur_task k) = Some fc" ..
  have locks: "task_lock k = (\<lambda>_. Unlocked)" using D(2) by (simp add: fun_eq_iff)
  show ?thesis
    using assms(1) D(1,3,4) n ne tc fc id [OF fc]
    by (auto simp: switch_to_next_task_def update_task_def current_task_id_def enqueue_from_def locks
        Let_def after_task_switch_def switch_registers_def set_task_lock_def set_current_task_id_def
        holding_registry_def registry_remove_def reading_task_def split: prod.splits)
qed

lemma current_task_ok:
  assumes "spin_ok e" and "registry_lock k = Unlocked" and "cur_task k \<noteq> 0" and "registry k (cur_task k) = Some c"
  shows "current_task e k = Done (cur_task k, k)"
  using assms by (simp add: current_task_def reading_registry_def current_task_id_def)

lemma sys_exit_hangs:
  assumes "spin_ok e" and "sched_ok k" and "cur_task k \<noteq> 1"
  shows "sys_exit e k = Hang"
proof -
  note D = sched_ok_D [OF assms(2)]
  from cur_registered [OF assms(2)] obtain c where c: "registry k (cur_task k) = Some c" ..
  have "set_task_lock (cur_task k) Unlocked (update_task (cur_task k) f (set_task_lock (cur_task k) WriteLocked k)) =
      update_task (cur_task k) f k" for f
    using D(2) by (auto simp: set_task_lock_def update_task_def fun_upd_idem intro!: kernel.equality)
  then show ?thesis
    using assms(1) D(2) current_task_ok [OF assms(1) D(1,4) c] exit_switch_hangs [OF assms]
    by (simp add: sys_exit_def holding_task_def)
qed

text \<open>
  C27: No task ever exits. After the switch away from a dying task, \<open>after_task_switch\<close>
  removes it from the registry while its write lock is still held; the removal waits for the
  read lock of that very task, so the processor spins forever with the registry locked.
\<close>
theorem exit_never_returns:
  assumes "spin_ok e" and "sched_ok k" and "cur_task k \<noteq> 1"
  shows "sys_exit e k = Hang"
  by (rule sys_exit_hangs [OF assms])

theorem exit_never_returns_witness: "sys_exit (documented_env False) example_kernel = Hang"
  by (rule exit_never_returns [OF documented_spin example_kernel_ok(1)]) (simp add: example_kernel_def)

section \<open>The family tree\<close>

text \<open>
  The children of a registered task are the registered tasks that name it as their parent, each
  listed once.
\<close>

definition family_ok :: "'pt kernel \<Rightarrow> bool" where
  "family_ok k \<longleftrightarrow> ids_ok k \<and> (\<forall>p c. registry k p = Some c \<longrightarrow> distinct (children c) \<and>
     set (children c) = {t. \<exists>d. registry k t = Some d \<and> parent d = Some p})"

lemma family_okD:
  assumes "family_ok k" and "registry k p = Some c"
  shows "task_id c = p" "distinct (children c)"
    "t \<in> set (children c) \<longleftrightarrow> (\<exists>d. registry k t = Some d \<and> parent d = Some p)"
  using assms by (auto simp: family_ok_def ids_ok_def)

lemma position_snoc: "x \<notin> set xs \<Longrightarrow> position (\<lambda>y. y = x) (xs @ [x]) = Some (length xs)"
  by (induction xs) auto

lemma vec_remove_snoc [simp]: "vec_remove (length xs) (xs @ [x]) = xs"
  by (simp add: vec_remove_def)

lemma remove_child_added:
  "t \<notin> set (children c) \<Longrightarrow> remove_child t (c\<lparr>children := children c @ [t]\<rparr>) = c"
  by (simp add: remove_child_def position_snoc)

lemma registry_add_child:
  assumes "spin_ok e" and "registry k (task_id ctx) = None" and "parent ctx = Some p"
    and "registry k p = Some pc" and "task_lock k p = Unlocked" and "task_lock k (task_id ctx) = Unlocked"
  shows "registry_add e ctx k = Done (k\<lparr>registry := (registry k)(task_id ctx \<mapsto> ctx,
    p \<mapsto> pc\<lparr>children := children pc @ [task_id ctx]\<rparr>)\<rparr>)"
proof -
  have "p \<noteq> task_id ctx" using assms(2,4) by auto
  then show ?thesis
    using assms by (auto simp: registry_add_def Let_def holding_task_def set_task_lock_def
        update_task_def fun_upd_idem fun_upd_twist intro!: kernel.equality)
qed

text \<open>
  C28: The registry keeps the family tree. Adding a task under a fresh id, with a registered
  parent whose lock is free, succeeds, appends the task to the children of the parent and keeps
  parents and children consistent; removing it again gives back the registry, the locks and the
  queue as they were.
\<close>
theorem registry_round_trip:
  assumes "spin_ok e" and "family_ok k" and "unlocked k"
    and "registry k t = None" and "\<forall>s d. registry k s = Some d \<longrightarrow> parent d \<noteq> Some t"
    and "task_id ctx = t" and "children ctx = []" and "parent ctx = Some p" and "registry k p = Some pc"
  shows "\<exists>k'. registry_add e ctx k = Done k' \<and> family_ok k' \<and> registry k' t = Some ctx \<and>
    registry k' p = Some (pc\<lparr>children := children pc @ [t]\<rparr>) \<and>
    registry_remove e t k' = Done (Some ctx, k)"
proof -
  let ?k = "k\<lparr>registry := (registry k)(t \<mapsto> ctx, p \<mapsto> pc\<lparr>children := children pc @ [t]\<rparr>)\<rparr>"
  have pt: "p \<noteq> t" using assms(4,9) by auto
  have locks: "\<And>x. task_lock k x = Unlocked" using assms(3) by (simp add: unlocked_def)
  have add: "registry_add e ctx k = Done ?k"
    using registry_add_child [OF assms(1), of k ctx p pc] assms(4,6,8,9) locks by simp
  note F = family_okD [OF assms(2)]
  have new: "t \<notin> set (children pc)" using F(3) [OF assms(9)] assms(4) by simp
  have "family_ok ?k"
    unfolding family_ok_def
  proof (intro conjI allI impI)
    show "ids_ok ?k" using assms(2,6) F(1) [OF assms(9)] by (auto simp: ids_ok_def family_ok_def)
    fix q c assume c: "registry ?k q = Some c"
    have old: "x \<noteq> t" if "registry k x = Some d" for x d using that assms(4) by auto
    show "distinct (children c)"
      using c F(2) [of q c] F(2) [OF assms(9)] new assms(7) by (auto split: if_splits)
    show "set (children c) = {x. \<exists>d. registry ?k x = Some d \<and> parent d = Some q}"
      using c F(3) [of q c] F(3) [OF assms(9)] assms(4,5,7,8,9) pt by (auto split: if_splits)
  qed
  moreover have "registry_remove e t ?k = Done (Some ctx, k)"
    using assms(1,4,6,8,9) locks pt remove_child_added [OF new]
    by (auto simp: registry_remove_def reading_task_def holding_task_def set_task_lock_def
        update_task_def intro!: kernel.equality)
  ultimately show ?thesis using add pt by simp
qed

theorem registry_round_trip_witness:
  "\<exists>k'. registry_add (documented_env True) (example_task 5 (Some 2) [] User) example_kernel = Done k' \<and>
     family_ok k'"
proof -
  let ?c = "example_task 5 (Some 2) [] User"
  have ok: "family_ok example_kernel" "unlocked example_kernel"
    by (auto simp: family_ok_def ids_ok_def example_kernel_def example_task_def unlocked_def split: if_splits)
  have fresh: "registry example_kernel 5 = None"
    "\<forall>s d. registry example_kernel s = Some d \<longrightarrow> parent d \<noteq> Some 5"
    by (auto simp: example_kernel_def example_task_def split: if_splits)
  have ctx: "task_id ?c = 5" "children ?c = []" "parent ?c = Some 2"
    "registry example_kernel 2 = Some (example_task 2 (Some 1) [] User)"
    by (simp_all add: example_kernel_def example_task_def)
  show ?thesis
    using registry_round_trip [OF documented_spin ok fresh ctx, of True] by blast
qed

end
