(* ===== verification/Paging.thy ===== *)
theory Paging
  imports Align
begin

text \<open>
  Page tables and physical frames (\<open>arch/x86_64/paging\<close>, \<open>allocator/heap_frame.rs\<close>): the
  active page table, the frame allocator over the heap and the one over the memory map of the
  bootloader, and the loops that map ranges of pages. The page table walk itself is the crate
  \<open>x86_64\<close>; it and the boxes of the frame allocator are the functions of \<open>mem_ops\<close> on a machine
  state, the type variable. \<open>mapper_ok\<close> states what the crate documents.
\<close>

section \<open>Addresses of the kernel\<close>

definition KERNEL_BASE :: u64 where "KERNEL_BASE = 0xFFFF800000000000"
definition SPACING_16_TIB :: u64 where "SPACING_16_TIB = 16 * (1024 * 1024 * 1024 * 1024)"
definition KERNEL_BOOTDATA_START :: u64 where
  "KERNEL_BOOTDATA_START = KERNEL_BASE + SPACING_16_TIB"
definition KERNEL_BOOTDATA_FRAMEBUFFER :: u64 where
  "KERNEL_BOOTDATA_FRAMEBUFFER = KERNEL_BOOTDATA_START + 1024 * 1024 * 1024"
definition KERNEL_INITIAL_STACK :: u64 where
  "KERNEL_INITIAL_STACK = KERNEL_BOOTDATA_FRAMEBUFFER + 1024 * 1024 * 1024"
definition KERNEL_PHYSICAL_MEMORY_START :: u64 where
  "KERNEL_PHYSICAL_MEMORY_START = KERNEL_BOOTDATA_START + SPACING_16_TIB"
definition KERNEL_THREAD_DATA_START :: u64 where
  "KERNEL_THREAD_DATA_START = KERNEL_PHYSICAL_MEMORY_START + SPACING_16_TIB"
definition KERNEL_THREAD_STORAGE_SIZE :: u64 where
  "KERNEL_THREAD_STORAGE_SIZE = 64 * 1024"
definition KERNEL_HEAP_START :: u64 where
  "KERNEL_HEAP_START = KERNEL_THREAD_DATA_START + SPACING_16_TIB"

lemmas kernel_addresses = KERNEL_BASE_def SPACING_16_TIB_def KERNEL_BOOTDATA_START_def
  KERNEL_BOOTDATA_FRAMEBUFFER_def KERNEL_INITIAL_STACK_def KERNEL_PHYSICAL_MEMORY_START_def
  KERNEL_THREAD_DATA_START_def KERNEL_THREAD_STORAGE_SIZE_def KERNEL_HEAP_START_def

text \<open>The bits of a page table entry.\<close>

definition pt_present :: u64 where "pt_present = 0x1"
definition pt_writable :: u64 where "pt_writable = 0x2"
definition pt_user :: u64 where "pt_user = 0x4"
definition pt_huge :: u64 where "pt_huge = 0x80"
definition pt_global :: u64 where "pt_global = 0x100"
definition pt_bit_10 :: u64 where "pt_bit_10 = 0x400"
definition pt_no_execute :: u64 where "pt_no_execute = 0x8000000000000000"

lemmas pt_bits = pt_present_def pt_writable_def pt_user_def pt_huge_def pt_global_def pt_bit_10_def
  pt_no_execute_def

section \<open>Frames out of the heap\<close>

record heap_region =
  region_start :: u64
  region_end :: u64
  virt_start :: "u64 option"

text \<open>The machine together with the entries of the \<open>HeapFrameAllocator\<close>.\<close>

record 'm frames =
  hw :: 'm
  frame_entries :: "heap_region list"

datatype map_error = FrameAllocationFailed | ParentEntryHugePage | PageAlreadyMapped

text \<open>
  \<open>box_page\<close> and \<open>drop_box\<close> allocate and free a boxed \<open>StupidPage\<close>; a page table is given by the
  address of its level 4 table. The mapping functions call back the frame allocator for new tables.
\<close>

record 'm mem_ops =
  box_page :: "'m \<Rightarrow> u64 option \<times> 'm"
  drop_box :: "u64 \<Rightarrow> 'm \<Rightarrow> 'm"
  translate_addr :: "u64 \<Rightarrow> u64 \<Rightarrow> 'm \<Rightarrow> u64 option"
  map_to_with_flags :: "('m frames \<Rightarrow> (u64 option \<times> 'm frames) outcome) \<Rightarrow> u64 \<Rightarrow> u64 \<Rightarrow> u64 \<Rightarrow> u64 \<Rightarrow> u64 \<Rightarrow>
     'm frames \<Rightarrow> (map_error option \<times> 'm frames) outcome"
  map_to :: "('m frames \<Rightarrow> (u64 option \<times> 'm frames) outcome) \<Rightarrow> u64 \<Rightarrow> u64 \<Rightarrow> u64 \<Rightarrow> u64 \<Rightarrow>
     'm frames \<Rightarrow> (map_error option \<times> 'm frames) outcome"
  write_bytes :: "u64 \<Rightarrow> u8 list \<Rightarrow> 'm \<Rightarrow> 'm"

text \<open>\<open>MemoryRegion\<close> of the boot information; only the usable ones are looked at.\<close>

record memory_region =
  mr_start :: u64
  mr_end :: u64
  mr_usable :: bool

definition heap_frames_new :: "bool \<Rightarrow> memory_region list \<Rightarrow> heap_region list outcome" where
  "heap_frames_new oc mm =
     foldr (\<lambda>x acc. and_then (sub_chk oc (mr_end x) (mr_start x)) (\<lambda>n. and_then acc (\<lambda>rs.
         Done (if 4096 \<le> n
               then \<lparr> region_start = mr_start x, region_end = mr_end x, virt_start = None \<rparr> # rs else rs))))
       (filter mr_usable mm) (Done [])"

definition in_region :: "u64 \<Rightarrow> heap_region \<Rightarrow> bool" where
  "in_region a r \<longleftrightarrow> region_start r \<le> a \<and> a < region_end r"

fun check_region_virt :: "env \<Rightarrow> u64 \<Rightarrow> u64 \<Rightarrow> heap_region list \<Rightarrow> heap_region list outcome" where
  "check_region_virt e paddr vaddr [] = Panic"
| "check_region_virt e paddr vaddr (r # rs) =
     (if in_region paddr r
      then (if virt_start r = None
            then and_then (unwrap (phys_sub e paddr (region_start r))) (\<lambda>off.
                 and_then (sub_chk (overflow_checks e) vaddr off) (\<lambda>a.
                 if a = 0 then Panic else Done (r\<lparr>virt_start := Some a\<rparr> # rs)))
            else Done (r # rs))
      else and_then (check_region_virt e paddr vaddr rs) (\<lambda>rs'. Done (r # rs')))"

definition phys_to_virt :: "env \<Rightarrow> u64 \<Rightarrow> heap_region list \<Rightarrow> u64 outcome" where
  "phys_to_virt e paddr rs =
     and_then (unwrap (List.find (in_region paddr) rs)) (\<lambda>r.
     and_then (unwrap (virt_start r)) (\<lambda>v.
     and_then (sub_chk (overflow_checks e) paddr (region_start r)) (\<lambda>off.
     and_then (add_chk (overflow_checks e) v off) (\<lambda>a. unwrap (virt_new e a)))))"

section \<open>The active page table\<close>

definition physical_memory_offset :: u64 where
  "physical_memory_offset = KERNEL_PHYSICAL_MEMORY_START"

text \<open>The argument is the frame in \<open>cr3\<close>; the table is reached through the physical mapping.\<close>

definition get_page_table :: "env \<Rightarrow> u64 \<Rightarrow> u64 outcome" where
  "get_page_table e cr3 = unwrap (virt_add e physical_memory_offset cr3)"

definition allocate_frame ::
    "env \<Rightarrow> 'm mem_ops \<Rightarrow> u64 \<Rightarrow> 'm frames \<Rightarrow> (u64 option \<times> 'm frames) outcome" where
  "allocate_frame e ops cr3 s =
     (case box_page ops (hw s) of
        (None, m) \<Rightarrow> Done (None, s\<lparr>hw := m\<rparr>)
      | (Some addr, m) \<Rightarrow>
          and_then (unwrap (virt_new e addr)) (\<lambda>vaddr.
          and_then (get_page_table e cr3) (\<lambda>table.
          and_then (unwrap (translate_addr ops table vaddr m)) (\<lambda>paddr.
          and_then (check_region_virt e paddr vaddr (frame_entries s)) (\<lambda>rs.
          and_then (unwrap (from_start_address e paddr)) (\<lambda>frame.
            Done (Some frame, \<lparr> hw = m, frame_entries = rs \<rparr>)))))))"

definition deallocate_frame ::
    "env \<Rightarrow> 'm mem_ops \<Rightarrow> u64 \<Rightarrow> 'm frames \<Rightarrow> 'm frames outcome" where
  "deallocate_frame e ops frame s =
     and_then (phys_to_virt e frame (frame_entries s)) (\<lambda>vaddr.
       Done (s\<lparr>hw := drop_box ops vaddr (hw s)\<rparr>))"

section \<open>Frames out of the memory map\<close>

text \<open>
  \<open>(start..end).step_by(4096)\<close>. The iterator of the boot allocator is the list of the addresses
  left; each is made a \<open>PhysAddr\<close>, which panics beyond 52 bits, when its frame is asked for.
\<close>

definition step_by_page :: "u64 \<Rightarrow> u64 \<Rightarrow> u64 list" where
  "step_by_page a b = (if a < b then page_starts a ((unat (b - a) + 4095) div 4096) else [])"

definition usable_frames :: "memory_region list \<Rightarrow> u64 list" where
  "usable_frames mm = concat (map (\<lambda>r. step_by_page (mr_start r) (mr_end r)) (filter mr_usable mm))"

definition boot_allocate_frame :: "env \<Rightarrow> u64 list \<Rightarrow> (u64 option \<times> u64 list) outcome" where
  "boot_allocate_frame e it = (case it of
       [] \<Rightarrow> Done (None, [])
     | a # it' \<Rightarrow> and_then (unwrap (phys_try_new e a)) (\<lambda>p. Done (Some (containing_address e p), it')))"

section \<open>Mapping ranges\<close>

fun map_range_loop ::
    "env \<Rightarrow> 'm mem_ops \<Rightarrow> u64 \<Rightarrow> u64 \<Rightarrow> u64 \<Rightarrow> u64 list \<Rightarrow> 'm frames \<Rightarrow> 'm frames outcome" where
  "map_range_loop e ops cr3 table flags [] s = Done s"
| "map_range_loop e ops cr3 table flags (page # pages) s =
     and_then (allocate_frame e ops cr3 s) (\<lambda>(f, s1).
     and_then (unwrap f) (\<lambda>frame.
     and_then (map_to ops (allocate_frame e ops cr3) table page frame flags s1) (\<lambda>(err, s2).
       if err \<noteq> None then Panic else map_range_loop e ops cr3 table flags pages s2)))"

definition allocate_map_range ::
    "env \<Rightarrow> 'm mem_ops \<Rightarrow> u64 \<Rightarrow> u64 \<Rightarrow> u64 \<Rightarrow> u64 \<Rightarrow> 'm frames \<Rightarrow> 'm frames outcome" where
  "allocate_map_range e ops cr3 addr sz flags s =
     and_then (get_page_table e cr3) (\<lambda>table.
     and_then (unwrap (virt_add e addr sz)) (\<lambda>x.
     and_then (unwrap (virt_sub e x 1)) (\<lambda>last.
       map_range_loop e ops cr3 table flags
         (page_range_inclusive e (containing_address e addr) (containing_address e last)) s)))"

section \<open>Documented behaviour of the mapper\<close>

text \<open>
  The leaf mappings of a page table, page to frame and flags. A successful call maps a page that
  was not mapped and nothing else; a failed one changes no leaf; boxes are not page tables.
\<close>

type_synonym 'm view = "u64 \<Rightarrow> 'm \<Rightarrow> u64 \<Rightarrow> (u64 \<times> u64) option"

definition keeps_view :: "'m view \<Rightarrow> u64 \<Rightarrow> ('m frames \<Rightarrow> (u64 option \<times> 'm frames) outcome) \<Rightarrow> bool" where
  "keeps_view view t alloc \<longleftrightarrow> (\<forall>s r s'. alloc s = Done (r, s') \<longrightarrow> view t (hw s') = view t (hw s))"

definition maps_leaf :: "'m view \<Rightarrow> u64 \<Rightarrow> u64 \<Rightarrow> u64 \<Rightarrow> u64 \<Rightarrow> map_error option \<Rightarrow> 'm frames \<Rightarrow> 'm frames \<Rightarrow> bool" where
  "maps_leaf view t p f fl r s s' \<longleftrightarrow>
     (case r of
        Some _ \<Rightarrow> view t (hw s') = view t (hw s)
      | None \<Rightarrow> view t (hw s) p = None \<and> view t (hw s') = (view t (hw s))(p \<mapsto> (f, fl)))"

definition mapper_ok :: "'m mem_ops \<Rightarrow> 'm view \<Rightarrow> bool" where
  "mapper_ok ops view \<longleftrightarrow>
     (\<forall>m v m' t. box_page ops m = (v, m') \<longrightarrow> view t m' = view t m) \<and>
     (\<forall>alloc t p f fl pf s r s'. keeps_view view t alloc \<longrightarrow>
        map_to_with_flags ops alloc t p f fl pf s = Done (r, s') \<longrightarrow> maps_leaf view t p f fl r s s') \<and>
     (\<forall>alloc t p f fl s r s'. keeps_view view t alloc \<longrightarrow>
        map_to ops alloc t p f fl s = Done (r, s') \<longrightarrow> maps_leaf view t p f fl r s s')"

lemma mapper_leaf:
  "mapper_ok ops view \<Longrightarrow> keeps_view view t alloc \<Longrightarrow>
     map_to_with_flags ops alloc t p f fl pf s = Done (r, s') \<Longrightarrow> maps_leaf view t p f fl r s s'"
  "mapper_ok ops view \<Longrightarrow> keeps_view view t alloc \<Longrightarrow>
     map_to ops alloc t p f fl s = Done (r, s') \<Longrightarrow> maps_leaf view t p f fl r s s'"
  unfolding mapper_ok_def by blast+

lemma allocate_frame_view:
  assumes "mapper_ok ops view"
  shows "keeps_view view t (allocate_frame e ops cr3)"
  using assms
  by (fastforce simp: keeps_view_def mapper_ok_def allocate_frame_def and_then_eq_Done
      split: prod.splits option.splits)

text \<open>What a loop over pages has done: these pages, not mapped before, are mapped to these frames.\<close>

definition mapped :: "'m view \<Rightarrow> u64 \<Rightarrow> 'm frames \<Rightarrow> 'm frames \<Rightarrow> (u64 \<times> u64) list \<Rightarrow> u64 \<Rightarrow> bool" where
  "mapped view t s s' pfs fl \<longleftrightarrow>
     distinct (map fst pfs) \<and> (\<forall>p \<in> fst ` set pfs. view t (hw s) p = None) \<and>
     view t (hw s') = view t (hw s) ++ map_of (map (\<lambda>(p, f). (p, (f, fl))) pfs)"

lemma mapped_Nil: "mapped view t s s' [] fl \<longleftrightarrow> view t (hw s') = view t (hw s)"
  by (simp add: mapped_def)

lemma mapped_Cons:
  assumes "maps_leaf view t p f fl None s s1" and "mapped view t s1 s' pfs fl"
  shows "mapped view t s s' ((p, f) # pfs) fl"
proof -
  let ?g = "map_of (map (\<lambda>(p, f). (p, (f, fl))) pfs)"
  have free: "view t (hw s) p = None" and one: "view t (hw s1) = (view t (hw s))(p \<mapsto> (f, fl))"
    using assms(1) by (simp_all add: maps_leaf_def)
  have rest: "distinct (map fst pfs)" "\<forall>q \<in> fst ` set pfs. view t (hw s1) q = None"
    "view t (hw s') = view t (hw s1) ++ ?g" using assms(2) by (simp_all add: mapped_def)
  from rest(2) one have new: "p \<notin> fst ` set pfs" by auto
  then have "?g p = None" by (force simp: map_of_eq_None_iff)
  then have "view t (hw s') = view t (hw s) ++ ?g(p \<mapsto> (f, fl))"
    unfolding rest(3) one by (auto simp: map_add_def fun_eq_iff split: option.splits)
  moreover have "view t (hw s) q = None" if "q \<in> fst ` set pfs" for q
    using that rest(2) new one by (metis fun_upd_other)
  ultimately show ?thesis using free rest(1) new by (simp add: mapped_def)
qed

lemma mapped_other: "mapped view t s s' pfs fl \<Longrightarrow> p \<notin> fst ` set pfs \<Longrightarrow> view t (hw s') p = view t (hw s) p"
  by (force simp: mapped_def map_add_def map_of_eq_None_iff split: option.splits dest: map_of_SomeD)

lemma mapped_at:
  assumes "mapped view t s s' pfs fl" and "(p, f) \<in> set pfs"
  shows "view t (hw s') p = Some (f, fl)"
proof -
  have "distinct (map fst (map (\<lambda>(p, f). (p, (f, fl))) pfs))"
    using assms(1) by (simp add: mapped_def comp_def case_prod_beta)
  then have "map_of (map (\<lambda>(p, f). (p, (f, fl))) pfs) p = Some (f, fl)"
    using assms(2) by (intro map_of_is_SomeI) force+
  with assms(1) show ?thesis by (simp add: mapped_def map_add_def)
qed

text \<open>
  A machine with the behaviour above: the leaves of every table, and a list of free boxed pages,
  which are mapped to physical memory at a fixed distance.
\<close>

type_synonym leaf_machine = "(u64 \<Rightarrow> u64 \<Rightarrow> (u64 \<times> u64) option) \<times> u64 list"

definition leaf_map :: "u64 \<Rightarrow> u64 \<Rightarrow> u64 \<Rightarrow> u64 \<Rightarrow> leaf_machine frames \<Rightarrow>
    (map_error option \<times> leaf_machine frames) outcome" where
  "leaf_map t p f fl s =
     (case hw s of (leaves, boxes) \<Rightarrow>
        if leaves t p = None
        then Done (None, s\<lparr>hw := (leaves(t := (leaves t)(p \<mapsto> (f, fl))), boxes)\<rparr>)
        else Done (Some PageAlreadyMapped, s))"

definition leaf_ops :: "leaf_machine mem_ops" where
  "leaf_ops = \<lparr>
     box_page = (\<lambda>(l, bs). case bs of [] \<Rightarrow> (None, (l, [])) | b # bs' \<Rightarrow> (Some b, (l, bs'))),
     drop_box = (\<lambda>b (l, bs). (l, b # bs)),
     translate_addr = (\<lambda>t v m. if KERNEL_HEAP_START \<le> v then Some (v - KERNEL_HEAP_START + 0x100000) else None),
     map_to_with_flags = (\<lambda>alloc t p f fl pf. leaf_map t p f fl),
     map_to = (\<lambda>alloc t p f fl. leaf_map t p f fl),
     write_bytes = (\<lambda>a bs m. m) \<rparr>"

definition leaf_view :: "leaf_machine view" where
  "leaf_view t m = fst m t"

lemma leaf_ops_ok: "mapper_ok leaf_ops leaf_view"
  by (auto simp: mapper_ok_def leaf_ops_def leaf_view_def leaf_map_def maps_leaf_def
      split: prod.splits list.splits if_splits)

section \<open>Ranges of the upper half\<close>

lemma page_of_address:
  assumes "page_ok e"
  shows "unat (containing_address e a) = unat a - unat a mod 4096"
proof -
  have "(0xFFF :: u64) = mask 12" by (simp add: mask_eq_exp_minus_1)
  then show ?thesis using assms and_not_mask_unat [of a 12] by (simp add: page_ranges)
qed

lemma upper_canonical:
  assumes "upper_half \<le> a"
  shows "sign_extend_47 a = Some a"
  using assms by (simp add: sign_extend_47_def canonical_def upper_half_def)

text \<open>The pages of a range of 64 KiB in the upper half, wherever it starts in its first page.\<close>

lemma pages_of_64_KiB:
  assumes "virt_ok e" and "page_ok e" and "upper_half \<le> stack" and "unat stack + 65536 < 2 ^ 64"
  shows "virt_new e stack = Some stack" and "virt_add e stack 65536 = Some (stack + 65536)"
    and "virt_sub e (stack + 65536) 1 = Some (stack + 65535)"
    and "page_range_inclusive e (containing_address e stack) (containing_address e (stack + 65535)) =
      page_starts (containing_address e stack) (if unat stack mod 4096 = 0 then 16 else 17)"
proof -
  have n: "unat (stack + 65536) = unat stack + 65536" "unat (stack + 65535) = unat stack + 65535"
    using assms(4) by (subst unat_add_no_overflow; simp)+
  have ge: "upper_half \<le> stack + 65536" "upper_half \<le> stack + 65535"
    using assms(3) n by (simp_all add: word_le_nat_alt)
  have one: "1 \<le> stack + 65536" "stack + 65536 - 1 = stack + 65535"
    using n(1) by (simp_all add: word_le_nat_alt)
  then show "virt_sub e (stack + 65536) 1 = Some (stack + 65535)"
    unfolding virt_simps(3) [OF assms(1)] one(2) upper_canonical [OF ge(2)]
    by (simp only: not_less [symmetric] simp_thms if_False not_le)
  show "virt_add e stack 65536 = Some (stack + 65536)"
    using upper_canonical [OF ge(1)] assms(4) by (simp add: virt_simps(2) [OF assms(1)])
  show "virt_new e stack = Some stack" using upper_canonical [OF assms(3)] by (simp add: virt_simps(1) [OF assms(1)])
  let ?a = "containing_address e stack" and ?b = "containing_address e (stack + 65535)"
  define q r where qr: "q = unat stack div 4096" "r = unat stack mod 4096"
  have s: "unat stack = 4096 * q + r" "r < 4096" by (simp_all add: qr)
  have a: "unat ?a = 4096 * q"
    unfolding page_of_address [OF assms(2)] qr(1) by (rule minus_mod_eq_mult_div)
  have b: "unat ?b = 4096 * (q + (r + 65535) div 4096)"
  proof -
    have "unat ?b = unat stack + 65535 - (unat stack + 65535) mod 4096"
      using page_of_address [OF assms(2), of "stack + 65535"] n(2) by simp
    also have "\<dots> = 4096 * ((unat stack + 65535) div 4096)" by (rule minus_mod_eq_mult_div)
    also have "(unat stack + 65535) div 4096 = q + (r + 65535) div 4096"
      unfolding s(1) by (simp add: add.assoc)
    finally show ?thesis .
  qed
  have le: "?a \<le> ?b" using a b by (simp add: word_le_nat_alt)
  have "unat (?b - ?a) = 4096 * ((r + 65535) div 4096)" using le a b by (simp add: unat_sub algebra_simps)
  then have cnt: "unat (?b - ?a) div 4096 + 1 = (if unat stack mod 4096 = 0 then 16 else 17)"
  proof -
    have "(r + 65535) div 4096 = (if r = 0 then 15 else 16)"
    proof (cases "r = 0")
      case False
      with s(2) have "(r + 65535) div 4096 = 16" by (intro div_nat_eqI) simp_all
      with False show ?thesis by simp
    qed simp
    then show ?thesis using \<open>unat (?b - ?a) = 4096 * ((r + 65535) div 4096)\<close> by (simp add: qr)
  qed
  have "\<not> ?a < lower_end"
  proof
    assume "?a < lower_end"
    then have "4096 * q < 0x800000000000" using a by (simp add: word_less_nat_alt lower_end_def)
    then have "unat stack < 0x800000001000" using s by linarith
    with assms(3) show False by (simp add: word_le_nat_alt upper_half_def)
  qed
  then have "page_range_inclusive e ?a ?b = page_starts ?a (unat (?b - ?a) div 4096 + 1)"
    using le by (simp add: page_ranges(2) [OF assms(2)] pages_between_def)
  with cnt show "page_range_inclusive e ?a ?b = page_starts ?a (if unat stack mod 4096 = 0 then 16 else 17)" by simp
qed

section \<open>Giving frames back\<close>

lemma check_region_virt_Done:
  assumes "check_region_virt e p v rs = Done rs'"
  obtains r r' where "List.find (in_region p) rs = Some r" "List.find (in_region p) rs' = Some r'"
    "region_start r' = region_start r"
    "virt_start r = None \<longrightarrow> (\<exists>off b. phys_sub e p (region_start r) = Some off \<and>
       sub_chk (overflow_checks e) v off = Done b \<and> virt_start r' = Some b)"
    "virt_start r \<noteq> None \<longrightarrow> r' = r"
  using assms
proof (induction rs arbitrary: rs' thesis)
  case Nil
  then show ?case by simp
next
  case (Cons q rs)
  show ?case
  proof (cases "in_region p q")
    case True
    show ?thesis
    proof (cases "virt_start q")
      case None
      with Cons.prems(2) True obtain off b where ob: "phys_sub e p (region_start q) = Some off"
        "sub_chk (overflow_checks e) v off = Done b" "rs' = q\<lparr>virt_start := Some b\<rparr> # rs"
        by (auto simp: and_then_eq_Done split: if_splits)
      have "in_region p (q\<lparr>virt_start := Some b\<rparr>)" using True by (simp add: in_region_def)
      with ob True None show ?thesis by (intro Cons.prems(1) [of q "q\<lparr>virt_start := Some b\<rparr>"]) auto
    next
      case (Some b)
      with Cons.prems(2) True show ?thesis by (intro Cons.prems(1) [of q q]) auto
    qed
  next
    case False
    with Cons.prems(2) obtain qs where qs: "check_region_virt e p v rs = Done qs" "rs' = q # qs"
      by (auto simp: and_then_eq_Done)
    show ?thesis
      by (rule Cons.IH [OF _ qs(1)]) (use False qs(2) Cons.prems(1) in auto)
  qed
qed

lemma add_after_sub:
  assumes "sub_chk oc v off = Done b"
  shows "add_chk oc b off = Done v"
proof -
  have b: "b = v - off" using assms by (auto simp: sub_chk_def split: if_splits)
  show ?thesis
  proof (cases oc)
    case True
    with assms have "off \<le> v" by (auto simp: sub_chk_def not_less split: if_splits)
    then have "unat b + unat off = unat v" by (simp add: b unat_sub word_le_nat_alt)
    then show ?thesis using unat_lt_2p64 [of v] by (simp add: add_chk_def b)
  next
    case False
    then show ?thesis by (simp add: add_chk_def b)
  qed
qed

text \<open>
  C29: Giving a frame back frees the box it was made of, when it is the first frame of its memory
  region. For a later frame the address is computed from the first one, as if the whole region
  were mapped in one piece, whatever the address of the box of this frame was.
\<close>
theorem frame_round_trip:
  assumes "virt_ok e" and "phys_ok e" and "page_ok e" and "canonical v"
    and "box_page ops (hw s) = (Some v, m)" and "allocate_frame e ops root s = Done (Some f, s')"
  shows "\<exists>r. List.find (in_region f) (frame_entries s) = Some r \<and>
    (case virt_start r of
       None \<Rightarrow> deallocate_frame e ops f s' = Done (s'\<lparr>hw := drop_box ops v m\<rparr>)
     | Some b \<Rightarrow> \<forall>a s''. b + (f - region_start r) = a \<and> canonical a \<and>
         deallocate_frame e ops f s' = Done s'' \<longrightarrow> s'' = s'\<lparr>hw := drop_box ops a m\<rparr>)"
proof -
  have vn: "virt_new e v = Some v" using assms(1,4) by (simp add: virt_simps sign_extend_47_def)
  from assms(5,6) vn obtain paddr rs where st: "check_region_virt e paddr v (frame_entries s) = Done rs"
    "from_start_address e paddr = Some f" "s' = \<lparr> hw = m, frame_entries = rs \<rparr>"
    by (auto simp: allocate_frame_def and_then_eq_Done)
  then have pf: "paddr = f" by (simp add: from_start_address_Some [OF assms(3)])
  from st(1) [unfolded pf] obtain r r' where r: "List.find (in_region f) (frame_entries s) = Some r"
    "List.find (in_region f) rs = Some r'" "region_start r' = region_start r"
    "virt_start r = None \<longrightarrow> (\<exists>off b. phys_sub e f (region_start r) = Some off \<and>
       sub_chk (overflow_checks e) v off = Done b \<and> virt_start r' = Some b)"
    "virt_start r \<noteq> None \<longrightarrow> r' = r"
    by (rule check_region_virt_Done)
  from find_Some_set [OF r(1)] have ge: "region_start r \<le> f" by (simp add: in_region_def)
  show ?thesis
  proof (cases "virt_start r")
    case None
    with r(4) obtain b where b: "sub_chk (overflow_checks e) v (f - region_start r) = Done b"
      "virt_start r' = Some b" by (auto simp: phys_Some [OF assms(2)])
    have "phys_to_virt e f rs = Done v"
      using r(2,3) b(2) ge vn add_after_sub [OF b(1)] by (simp add: phys_to_virt_def sub_chk_Done)
    with None r(1) st(3) show ?thesis by (simp add: deallocate_frame_def)
  next
    case (Some b)
    have "s'' = s'\<lparr>hw := drop_box ops a m\<rparr>"
      if "b + (f - region_start r) = a" "canonical a" "deallocate_frame e ops f s' = Done s''" for a s''
    proof -
      have "virt_new e a = Some a" using assms(1) that(2) by (simp add: virt_simps sign_extend_47_def)
      then show ?thesis
        using that r(2,5) Some ge st(3)
        by (auto simp: deallocate_frame_def phys_to_virt_def and_then_eq_Done sub_chk_Done add_chk_def
            split: if_splits)
    qed
    with Some r(1) show ?thesis by auto
  qed
qed

definition example_pool :: "leaf_machine frames" where
  "example_pool = \<lparr> hw = (\<lambda>_ _. None, [0xFFFFC00000000000, 0xFFFFC00000001000]),
     frame_entries = [\<lparr> region_start = 0x100000, region_end = 0x200000, virt_start = None \<rparr>] \<rparr>"

lemma example_page_table: "get_page_table (documented_env True) 0x5000 = Done 0xFFFFA00000005000"
  by (simp add: get_page_table_def documented_env_def physical_memory_offset_def kernel_addresses
      sign_extend_47_def canonical_def)

lemma example_allocate:
  "allocate_frame (documented_env True) leaf_ops 0x5000 example_pool = Done (Some 0x100000,
     \<lparr> hw = (\<lambda>_ _. None, [0xFFFFC00000001000]),
       frame_entries = [\<lparr> region_start = 0x100000, region_end = 0x200000, virt_start = Some 0xFFFFC00000000000 \<rparr>] \<rparr>)"
  by (simp add: allocate_frame_def leaf_ops_def example_pool_def example_page_table)
     (simp add: documented_env_def sign_extend_47_def canonical_def kernel_addresses in_region_def sub_chk_def)

theorem frame_round_trip_witness:
  "\<exists>s'. deallocate_frame (documented_env True) leaf_ops 0x100000
     \<lparr> hw = (\<lambda>_ _. None, [0xFFFFC00000001000]),
       frame_entries = [\<lparr> region_start = 0x100000, region_end = 0x200000, virt_start = Some 0xFFFFC00000000000 \<rparr>] \<rparr> =
     Done s' \<and> hw s' = hw example_pool"
proof -
  have "box_page leaf_ops (hw example_pool) = (Some 0xFFFFC00000000000, (\<lambda>_ _. None, [0xFFFFC00000001000]))"
    by (simp add: leaf_ops_def example_pool_def)
  moreover have "canonical 0xFFFFC00000000000" by (simp add: canonical_def)
  ultimately show ?thesis
    using frame_round_trip [OF documented_virt documented_phys documented_page _ _ example_allocate]
    by (auto simp: example_pool_def in_region_def leaf_ops_def)
qed

end
