(* ===== verification/Memory_Calls.thy ===== *)
theory Memory_Calls
  imports Tasks Paging "HOL-Library.Sublist"
begin

text \<open>
  The system calls that map memory (\<open>syscalls/memory.rs\<close>): the permissions, the check of the page
  range, and \<open>map_virt\<close> and \<open>map_phys\<close> on the kernel and the memory of the machine. The current
  page table is the one in \<open>cr3\<close> of the running context.
\<close>

section \<open>The model\<close>

definition mem_perm_read :: u64 where "mem_perm_read = 0x1"
definition mem_perm_write :: u64 where "mem_perm_write = 0x2"
definition mem_perm_execute :: u64 where "mem_perm_execute = 0x4"
definition mem_perm_all :: u64 where
  "mem_perm_all = mem_perm_read OR mem_perm_write OR mem_perm_execute"

definition perms_to_flags :: "env \<Rightarrow> u64 \<Rightarrow> u64 syscall_result" where
  "perms_to_flags e v =
     (if \<not> bf_contains e v mem_perm_read then Inl WrongParameters
      else Inr (pt_present OR pt_user OR
        (if bf_contains e v mem_perm_write then pt_writable else 0) OR
        (if bf_contains e v mem_perm_execute then 0 else pt_no_execute)))"

definition parse_page_range :: "env \<Rightarrow> usize \<Rightarrow> usize \<Rightarrow> u64 list syscall_result outcome" where
  "parse_page_range e at len =
     (case check_addr_userspace at of
        Inl err \<Rightarrow> Done (Inl err)
      | Inr _ \<Rightarrow>
          and_then (add_chk (overflow_checks e) at len) (\<lambda>x.
          and_then (sub_chk (overflow_checks e) x 1) (\<lambda>y.
          case check_addr_userspace y of
            Inl err \<Rightarrow> Done (Inl err)
          | Inr _ \<Rightarrow>
              and_then (unwrap (virt_new e at)) (\<lambda>a.
              case from_start_address e a of
                None \<Rightarrow> Done (Inl WrongParameters)
              | Some start_page \<Rightarrow>
                  and_then (unwrap (virt_add e a len)) (\<lambda>b.
                  case from_start_address e b of
                    None \<Rightarrow> Done (Inl WrongParameters)
                  | Some end_page \<Rightarrow> Done (Inr (page_range e start_page end_page)))))))"

fun map_error_code :: "map_error \<Rightarrow> syscall_error" where
  "map_error_code PageAlreadyMapped = MemoryAlreadyMapped"
| "map_error_code ParentEntryHugePage = MemoryAlreadyMapped"
| "map_error_code FrameAllocationFailed = NoMemory"

definition parent_table_flags :: u64 where
  "parent_table_flags = pt_present OR pt_user OR pt_writable"

fun map_virt_loop ::
    "env \<Rightarrow> 'm mem_ops \<Rightarrow> u64 \<Rightarrow> u64 \<Rightarrow> u64 list \<Rightarrow> 'm frames \<Rightarrow> ('m frames, unit) op" where
  "map_virt_loop e ops root flags [] s = Done (Inr (), s)"
| "map_virt_loop e ops root flags (page # pages) s =
     and_then (allocate_frame e ops root s) (\<lambda>(f, s1).
     case f of
       None \<Rightarrow> Done (Inl NoMemory, s1)
     | Some frame \<Rightarrow>
         and_then (get_page_table e root) (\<lambda>table.
         and_then (map_to_with_flags ops (allocate_frame e ops root) table page frame flags
           parent_table_flags s1) (\<lambda>(err, s2).
         case err of
           Some x \<Rightarrow> Done (Inl (map_error_code x), s2)
         | None \<Rightarrow> map_virt_loop e ops root flags pages s2)))"

definition map_virt ::
    "env \<Rightarrow> 'm mem_ops \<Rightarrow> usize \<Rightarrow> usize \<Rightarrow> usize \<Rightarrow> 'm frames \<Rightarrow> 'pt kernel \<Rightarrow>
     ((unit syscall_result \<times> 'm frames) \<times> 'pt kernel) outcome" where
  "map_virt e ops at len perms s k =
     and_then (parse_page_range e at len) (\<lambda>r. case r of
       Inl err \<Rightarrow> Done ((Inl err, s), k)
     | Inr pages \<Rightarrow>
         and_then (current_task e k) (\<lambda>(t, k1).
         reading_task e t (\<lambda>k2.
           and_then (unwrap (registry k2 t)) (\<lambda>c.
           case List.find (\<lambda>x. ctype (snd x) = MapVirtualToRam) (cap_handles (capabilities c)) of
             None \<Rightarrow> Done ((Inl WrongCapability, s), k2)
           | Some _ \<Rightarrow>
               (case perms_to_flags e (bf_truncate e mem_perm_all (perms AND 0xFF)) of
                  Inl err \<Rightarrow> Done ((Inl err, s), k2)
                | Inr flags \<Rightarrow>
                    and_then (map_virt_loop e ops (c_cr3 (core k2)) (flags OR pt_bit_10) pages s)
                      (\<lambda>res. Done (res, k2))))) k1))"

fun map_phys_loop ::
    "env \<Rightarrow> 'm mem_ops \<Rightarrow> u64 \<Rightarrow> u64 \<Rightarrow> (u64 \<times> u64) list \<Rightarrow> 'm frames \<Rightarrow> ('m frames, unit) op" where
  "map_phys_loop e ops root flags [] s = Done (Inr (), s)"
| "map_phys_loop e ops root flags ((page, frame) # pfs) s =
     and_then (get_page_table e root) (\<lambda>table.
     and_then (map_to_with_flags ops (allocate_frame e ops root) table page frame flags
       parent_table_flags s) (\<lambda>(err, s1).
     case err of
       Some x \<Rightarrow> Done (Inl (map_error_code x), s1)
     | None \<Rightarrow> map_phys_loop e ops root flags pfs s1))"

text \<open>The physical range of the call: its first and last address and its frames.\<close>

definition phys_range :: "env \<Rightarrow> usize \<Rightarrow> usize \<Rightarrow> (u64 \<times> u64 \<times> u64 list) syscall_result outcome" where
  "phys_range e phys_at len =
     (let phys_from = phys_new_truncate e phys_at in
      and_then (unwrap (phys_add e phys_from len)) (\<lambda>x.
      and_then (unwrap (phys_sub e x 1)) (\<lambda>phys_to.
      case from_start_address e phys_from of
        None \<Rightarrow> Done (Inl WrongParameters)
      | Some frame \<Rightarrow>
          and_then (unwrap (phys_add e phys_to 1)) (\<lambda>y.
          case from_start_address e y of
            None \<Rightarrow> Done (Inl WrongParameters)
          | Some end_frame \<Rightarrow> Done (Inr (phys_from, phys_to, frame_range e frame end_frame))))))"

definition covers :: "u64 \<Rightarrow> u64 \<Rightarrow> capability \<Rightarrow> bool" where
  "covers a b c = (case ctype c of MapPhysical f t \<Rightarrow> f \<le> a \<and> b \<le> t | _ \<Rightarrow> False)"

definition map_phys ::
    "env \<Rightarrow> 'm mem_ops \<Rightarrow> usize \<Rightarrow> usize \<Rightarrow> usize \<Rightarrow> usize \<Rightarrow> 'm frames \<Rightarrow> 'pt kernel \<Rightarrow>
     ((unit syscall_result \<times> 'm frames) \<times> 'pt kernel) outcome" where
  "map_phys e ops at len perms phys_at s k =
     and_then (parse_page_range e at len) (\<lambda>r. case r of
       Inl err \<Rightarrow> Done ((Inl err, s), k)
     | Inr pages \<Rightarrow>
     and_then (phys_range e phys_at len) (\<lambda>r. case r of
       Inl err \<Rightarrow> Done ((Inl err, s), k)
     | Inr (phys_from, phys_to, frames) \<Rightarrow>
         and_then (current_task e k) (\<lambda>(t, k1).
         reading_task e t (\<lambda>k2.
           and_then (unwrap (registry k2 t)) (\<lambda>c.
           case List.find (\<lambda>x. covers phys_from phys_to (snd x)) (cap_handles (capabilities c)) of
             None \<Rightarrow> Done ((Inl WrongCapability, s), k2)
           | Some _ \<Rightarrow>
               (case perms_to_flags e (bf_truncate e mem_perm_all (perms AND 0xFF)) of
                  Inl err \<Rightarrow> Done ((Inl err, s), k2)
                | Inr flags \<Rightarrow>
                    and_then (map_phys_loop e ops (c_cr3 (core k2)) flags (zip pages frames) s)
                      (\<lambda>res. Done (res, k2))))) k1)))"

section \<open>The loops\<close>

lemma map_virt_loop_mapped:
  assumes "mapper_ok ops view" and "get_page_table e root = Done t"
    and "map_virt_loop e ops root flags pages s = Done (r, s')"
  shows "\<exists>pfs. mapped view t s s' pfs flags \<and> prefix (map fst pfs) pages \<and>
    (r = Inr () \<longrightarrow> map fst pfs = pages)"
  using assms(3)
proof (induction pages arbitrary: s)
  case Nil
  then show ?case by (auto simp: mapped_Nil intro: exI [of _ "[]"])
next
  case (Cons p pages)
  note keep = allocate_frame_view [OF assms(1), of t e root, unfolded keeps_view_def, rule_format]
  from Cons.prems obtain f s1 where f: "allocate_frame e ops root s = Done (f, s1)"
    by (auto simp: and_then_eq_Done)
  from keep [OF f] have v1: "view t (hw s1) = view t (hw s)" .
  show ?case
  proof (cases f)
    case None
    with Cons.prems f v1 show ?thesis by (auto simp: mapped_Nil intro!: exI [of _ "[]"])
  next
    case (Some frame)
    with Cons.prems f assms(2) obtain err s2 where m: "map_to_with_flags ops (allocate_frame e ops root) t p frame
      flags parent_table_flags s1 = Done (err, s2)" by (auto simp: and_then_eq_Done)
    then have leaf: "maps_leaf view t p frame flags err s1 s2"
      by (rule mapper_leaf(1) [OF assms(1) allocate_frame_view [OF assms(1)]])
    show ?thesis
    proof (cases err)
      case None
      with Cons.prems f Some m assms(2) have "map_virt_loop e ops root flags pages s2 = Done (r, s')" by simp
      from Cons.IH [OF this] obtain pfs where pfs: "mapped view t s2 s' pfs flags"
        "prefix (map fst pfs) pages" "r = Inr () \<longrightarrow> map fst pfs = pages" by blast
      have "maps_leaf view t p frame flags None s s2" using leaf None v1 by (simp add: maps_leaf_def)
      from mapped_Cons [OF this pfs(1)] pfs(2,3) show ?thesis
        by (intro exI [of _ "(p, frame) # pfs"]) simp
    next
      case (Some x)
      with Cons.prems f \<open>f = Some frame\<close> m assms(2) leaf v1 show ?thesis
        by (auto simp: mapped_Nil maps_leaf_def intro!: exI [of _ "[]"])
    qed
  qed
qed

lemma map_phys_loop_mapped:
  assumes "mapper_ok ops view" and "get_page_table e root = Done t"
    and "map_phys_loop e ops root flags pfs s = Done (r, s')"
  shows "\<exists>n. mapped view t s s' (take n pfs) flags \<and> (r = Inr () \<longrightarrow> length pfs \<le> n)"
  using assms(3)
proof (induction pfs arbitrary: s)
  case Nil
  then show ?case by (auto simp: mapped_Nil)
next
  case (Cons pf pfs)
  obtain p f where pf: "pf = (p, f)" by fastforce
  from Cons.prems assms(2) obtain err s1 where m: "map_to_with_flags ops (allocate_frame e ops root) t p f
    flags parent_table_flags s = Done (err, s1)" by (auto simp: and_then_eq_Done pf)
  then have leaf: "maps_leaf view t p f flags err s s1"
    by (rule mapper_leaf(1) [OF assms(1) allocate_frame_view [OF assms(1)]])
  show ?case
  proof (cases err)
    case None
    with Cons.prems m assms(2) have "map_phys_loop e ops root flags pfs s1 = Done (r, s')" by (simp add: pf)
    from Cons.IH [OF this] obtain n where n: "mapped view t s1 s' (take n pfs) flags"
      "r = Inr () \<longrightarrow> length pfs \<le> n" by blast
    with mapped_Cons [OF leaf [unfolded None] n(1)] show ?thesis
      by (intro exI [of _ "Suc n"]) (simp add: pf)
  next
    case (Some x)
    with Cons.prems m assms(2) leaf show ?thesis
      by (auto simp: pf mapped_Nil maps_leaf_def intro!: exI [of _ 0])
  qed
qed

section \<open>Only memory the task may map\<close>

text \<open>The capabilities of the task that runs.\<close>

definition current_caps :: "'pt kernel \<Rightarrow> cap_storage" where
  "current_caps k = (case registry k (cur_task k) of
     Some c \<Rightarrow> capabilities c | None \<Rightarrow> cap_storage_default)"

lemma current_task_Done:
  "current_task e k = Done (t, k') \<Longrightarrow> t = cur_task k \<and> (\<exists>l. k' = k\<lparr>registry_lock := l\<rparr>)"
  by (auto simp: current_task_def reading_registry_def current_task_id_def and_then_eq_Done split: if_splits)

text \<open>
  The body of a call under the read lock of the task sees its capabilities and registers; if it
  leaves the kernel alone, so does the call.
\<close>

lemma reading_current:
  assumes "current_task e k = Done (t, k1)"
    and "reading_task e t (\<lambda>k2. and_then (unwrap (registry k2 t)) (\<lambda>c. f c k2)) k1 = Done (x, k')"
    and "\<forall>c k2 y k3. f c k2 = Done (y, k3) \<longrightarrow> k3 = k2"
  shows "\<exists>c k2. f c k2 = Done (x, k2) \<and> core k2 = core k \<and> capabilities c = current_caps k \<and>
    registry k' = registry k"
proof -
  from current_task_Done [OF assms(1)] obtain l where t: "t = cur_task k" "k1 = k\<lparr>registry_lock := l\<rparr>" by blast
  from assms(2) obtain l' k3 c where c: "registry (set_task_lock t l' k1) t = Some c"
    "f c (set_task_lock t l' k1) = Done (x, k3)" "registry k' = registry k3"
    by (auto simp: reading_task_def and_then_eq_Done set_task_lock_def)
  from c(2) assms(3) have "k3 = set_task_lock t l' k1" by blast
  with t c show ?thesis
    by (intro exI [of _ c] exI [of _ "set_task_lock t l' k1"])
       (simp add: set_task_lock_def current_caps_def)
qed

lemma covers_rights:
  assumes "List.find (\<lambda>x. covers a b (snd x)) (cap_handles s) = Some y" and "a \<le> w" and "w \<le> b"
  shows "\<exists>perms. (perms, PhysByte w) \<in> store_authority s"
proof -
  from find_Some_set [OF assms(1)] have y: "y \<in> set (cap_handles s)" "covers a b (snd y)" by simp_all
  then obtain f t where "ctype (snd y) = MapPhysical f t" "f \<le> a" "b \<le> t"
    by (auto simp: covers_def split: capability_type.splits)
  moreover from this assms(2,3) have "w \<in> {f..t}" by (meson atLeastAtMost_iff order_trans)
  ultimately have "(cap_perms (snd y), PhysByte w) \<in> cap_authority (snd y)"
    unfolding cap_authority_def by simp
  with y(1) show ?thesis unfolding store_authority_def by blast
qed

lemma phys_range_frames:
  assumes "phys_ok e" and "page_ok e" and "phys_range e phys_at len = Done (Inr (a, b, fs))"
    and "f \<in> set fs" and "i < 4096"
  shows "a \<le> f + of_nat i \<and> f + of_nat i \<le> b"
proof -
  from assms(3) obtain x y fr ef where steps: "phys_add e a len = Some x" "phys_sub e x 1 = Some b"
    "from_start_address e a = Some fr" "phys_add e b 1 = Some y" "from_start_address e y = Some ef"
    "fs = frame_range e fr ef"
    by (auto simp: phys_range_def Let_def and_then_eq_Done split: option.splits)
  then have sum: "unat a + unat len < 0x10000000000000" and le: "1 \<le> a + len"
    and b: "b = a + len - 1"
    and fs: "fs = (if a < b + 1 then page_starts a (unat (b + 1 - a) div 4096) else [])"
    by (auto simp: phys_Some [OF assms(1)] from_start_address_Some [OF assms(2)] page_ranges [OF assms(2)])
  have ul: "unat (a + len) = unat a + unat len" using sum by (intro unat_add_no_overflow) simp
  have n: "unat (b + 1 - a) = unat len" by (simp add: b)
  from assms(4) fs n obtain j where j: "j < unat len div 4096" "f = a + 4096 * of_nat j"
    by (auto simp: page_starts_def split: if_splits)
  have "Suc j * 4096 \<le> unat len" using j(1) by (metis Suc_leI div_times_less_eq_dividend le_trans mult_le_mono1)
  then have lt: "4096 * j + i < unat len" using assms(5) by simp
  have w: "f + of_nat i = a + of_nat (4096 * j + i)" using j(2) by simp
  have "unat (of_nat (4096 * j + i) :: u64) = 4096 * j + i"
    using lt unat_lt_2p64 [of len] by (intro unat_of_nat_u64) simp
  then have "unat (f + of_nat i) = unat a + (4096 * j + i)"
    unfolding w using lt sum by (subst unat_add_no_overflow) simp_all
  moreover have "unat b = unat a + unat len - 1" using le ul by (simp add: b unat_sub word_le_nat_alt)
  ultimately show ?thesis using lt by (simp add: word_le_nat_alt)
qed

lemma map_phys_cases:
  fixes k :: "'pt kernel"
  assumes "map_phys e ops at len perms phys_at s k = Done ((r, s'), k')"
  obtains (unchanged) err where "r = Inl err" "s' = s" "registry k' = registry k"
    | (mapping) pages a b frames flags c where "parse_page_range e at len = Done (Inr pages)"
        "phys_range e phys_at len = Done (Inr (a, b, frames))"
        "List.find (\<lambda>x. covers a b (snd x)) (cap_handles (current_caps k)) = Some c"
        "map_phys_loop e ops (c_cr3 (core k)) flags (zip pages frames) s = Done (r, s')"
        "registry k' = registry k"
proof -
  from assms obtain r1 where r1: "parse_page_range e at len = Done r1"
    by (auto simp: map_phys_def and_then_eq_Done)
  show thesis
  proof (cases r1)
    case (Inl err)
    with r1 assms show thesis by (intro unchanged) (auto simp: map_phys_def)
  next
    case (Inr pages)
    with r1 assms obtain r2 where r2: "phys_range e phys_at len = Done r2"
      by (auto simp: map_phys_def and_then_eq_Done)
    show thesis
    proof (cases r2)
      case (Inl err)
      with r1 r2 Inr assms show thesis by (intro unchanged) (auto simp: map_phys_def)
    next
      case (Inr p)
      obtain a b fs where p: "p = (a, b, fs)" by (cases p)
      let ?f = "\<lambda>c k2. case List.find (\<lambda>x. covers a b (snd x)) (cap_handles (capabilities c)) of
             None \<Rightarrow> Done ((Inl WrongCapability, s), k2)
           | Some _ \<Rightarrow>
               (case perms_to_flags e (bf_truncate e mem_perm_all (perms AND 0xFF)) of
                  Inl err \<Rightarrow> Done ((Inl err, s), k2)
                | Inr flags \<Rightarrow>
                    and_then (map_phys_loop e ops (c_cr3 (core k2)) flags (zip pages fs) s)
                      (\<lambda>res. Done (res, k2)))"
      from assms r1 r2 \<open>r1 = Inr pages\<close> Inr p obtain t k1 where cur: "current_task e k = Done (t, k1)"
        and body: "reading_task e t (\<lambda>k2. and_then (unwrap (registry k2 t)) (\<lambda>c. ?f c k2)) k1 = Done ((r, s'), k')"
        by (auto simp: map_phys_def and_then_eq_Done)
      have "\<forall>c k2 y k3. ?f c k2 = Done (y, k3) \<longrightarrow> k3 = k2"
        by (auto simp: and_then_eq_Done split: option.splits sum.splits)
      from reading_current [OF cur body this] obtain c :: "'pt task_context" and k2 :: "'pt kernel" where
        c: "?f c k2 = Done ((r, s'), k2)" "core k2 = core k" "capabilities c = current_caps k"
        "registry k' = registry k" by blast
      show thesis
      proof (cases "List.find (\<lambda>x. covers a b (snd x)) (cap_handles (current_caps k))")
        case None
        with c show thesis by (intro unchanged) auto
      next
        case (Some y)
        show thesis
        proof (cases "perms_to_flags e (bf_truncate e mem_perm_all (perms AND 0xFF))")
          case (Inl err)
          with c Some show thesis by (intro unchanged) auto
        next
          case (Inr flags)
          with c Some r1 r2 \<open>r1 = Inr pages\<close> \<open>r2 = Inr p\<close> p show thesis
            by (intro mapping [of pages a b fs y flags]) (auto simp: and_then_eq_Done)
        qed
      qed
    qed
  qed
qed

text \<open>
  C22: Mapping physical memory stays within the authority of the task. Whatever the call returns,
  it has only mapped pages that were not mapped, every byte of every frame it has mapped lies in
  the range of a physical mapping capability that the task holds, and all other pages
  keep their mapping and all tasks their capabilities.
\<close>
theorem map_phys_authority:
  assumes "mapper_ok ops view" and "phys_ok e" and "page_ok e"
    and "get_page_table e (c_cr3 (core k)) = Done t"
    and "map_phys e ops at len perms phys_at s k = Done ((r, s'), k')"
  shows "registry k' = registry k \<and> (\<exists>pfs flags. mapped view t s s' pfs flags \<and>
    (\<forall>(p, f) \<in> set pfs. \<forall>i < 4096.
       \<exists>pm. (pm, PhysByte (f + of_nat i)) \<in> store_authority (current_caps k)))"
  using assms(5)
proof (cases rule: map_phys_cases)
  case (unchanged err)
  then show ?thesis by (intro conjI exI [of _ "[]"] exI [of _ 0]) (simp_all add: mapped_Nil)
next
  case (mapping pages a b frames flags c)
  from map_phys_loop_mapped [OF assms(1,4) mapping(4)] obtain n where
    n: "mapped view t s s' (take n (zip pages frames)) flags" by blast
  have "\<exists>pm. (pm, PhysByte (f + of_nat i)) \<in> store_authority (current_caps k)"
    if "(p, f) \<in> set (take n (zip pages frames))" "i < 4096" for p f i
  proof -
    from that(1) have "f \<in> set frames" by (auto dest: in_set_takeD set_zip_rightD)
    from phys_range_frames [OF assms(2,3) mapping(2) this that(2)] show ?thesis
      using covers_rights [OF mapping(3)] by blast
  qed
  with n mapping(5) show ?thesis by blast
qed

definition example_caps :: cap_storage where
  "example_caps = \<lparr> next_handle = 2, cap_handles =
     [(0, \<lparr> cap_perms = 1, ctype = MapPhysical 0x100000 0x1FFFFF \<rparr>),
      (1, \<lparr> cap_perms = 0, ctype = MapVirtualToRam \<rparr>)] \<rparr>"

definition example_holder :: "unit kernel" where
  "example_holder = example_kernel\<lparr>
     registry := (registry example_kernel)(2 \<mapsto> (example_task 2 (Some 1) [] User)\<lparr>capabilities := example_caps\<rparr>),
     core := context_regs_default\<lparr>c_cr3 := 0x5000\<rparr>\<rparr>"

lemma example_range:
  "parse_page_range (documented_env True) 0x400000 0x1000 = Done (Inr [0x400000])"
  by (simp add: parse_page_range_def check_addr_userspace_simps documented_env_def add_chk_def sub_chk_def
      sign_extend_47_def canonical_def pages_between_def page_starts_def lower_end_def upper_half_def)

lemma example_current:
  "current_task (documented_env True) example_holder = Done (2, example_holder)"
  using current_task_ok [OF documented_spin, of example_holder _ True]
  by (simp add: example_holder_def example_kernel_def)

lemma example_map_phys:
  "\<exists>s' k'. map_phys (documented_env True) leaf_ops 0x400000 0x1000 3 0x180000 example_pool example_holder =
     Done ((Inr (), s'), k')"
proof -
  have "phys_range (documented_env True) 0x180000 0x1000 = Done (Inr (0x180000, 0x180FFF, [0x180000]))"
    by (simp add: phys_range_def documented_env_def page_starts_def)
  moreover have "task_lock example_holder 2 = Unlocked" "registry example_holder 2 =
      Some ((example_task 2 (Some 1) [] User)\<lparr>capabilities := example_caps\<rparr>)"
    "c_cr3 (core example_holder) = 0x5000"
    by (simp_all add: example_holder_def example_kernel_def)
  moreover have "bf_truncate (documented_env True) mem_perm_all (3 AND 0xFF) = 3"
    "bf_contains (documented_env True) 3 mem_perm_read"
    by (simp_all add: documented_env_def mem_perm_all_def mem_perm_read_def mem_perm_write_def mem_perm_execute_def)
  ultimately show ?thesis
    by (simp add: map_phys_def example_range example_current reading_task_def set_task_lock_def
        example_caps_def covers_def perms_to_flags_def example_page_table leaf_ops_def leaf_map_def
        example_pool_def)
qed

theorem map_phys_authority_witness:
  "\<exists>s' k'. map_phys (documented_env True) leaf_ops 0x400000 0x1000 3 0x180000 example_pool example_holder =
     Done ((Inr (), s'), k') \<and> registry k' = registry example_holder"
proof -
  have t: "get_page_table (documented_env True) (c_cr3 (core example_holder)) = Done 0xFFFFA00000005000"
    by (simp add: example_holder_def example_page_table)
  from example_map_phys obtain s' k' where
    m: "map_phys (documented_env True) leaf_ops 0x400000 0x1000 3 0x180000 example_pool example_holder =
     Done ((Inr (), s'), k')" by blast
  from map_phys_authority [OF leaf_ops_ok documented_phys documented_page t m] m show ?thesis by blast
qed

section \<open>Mapping memory out of the heap\<close>

lemma map_virt_cases:
  fixes k :: "'pt kernel"
  assumes "map_virt e ops at len perms s k = Done ((r, s'), k')"
  obtains (unchanged) err where "r = Inl err" "s' = s" "registry k' = registry k"
    | (mapping) pages flags c where "parse_page_range e at len = Done (Inr pages)"
        "List.find (\<lambda>x. ctype (snd x) = MapVirtualToRam) (cap_handles (current_caps k)) = Some c"
        "perms_to_flags e (bf_truncate e mem_perm_all (perms AND 0xFF)) = Inr flags"
        "map_virt_loop e ops (c_cr3 (core k)) (flags OR pt_bit_10) pages s = Done (r, s')"
        "registry k' = registry k"
proof -
  from assms obtain r1 where r1: "parse_page_range e at len = Done r1"
    by (auto simp: map_virt_def and_then_eq_Done)
  show thesis
  proof (cases r1)
    case (Inl err)
    with r1 assms show thesis by (intro unchanged) (auto simp: map_virt_def)
  next
    case (Inr pages)
    let ?f = "\<lambda>c k2. case List.find (\<lambda>x. ctype (snd x) = MapVirtualToRam) (cap_handles (capabilities c)) of
             None \<Rightarrow> Done ((Inl WrongCapability, s), k2)
           | Some _ \<Rightarrow>
               (case perms_to_flags e (bf_truncate e mem_perm_all (perms AND 0xFF)) of
                  Inl err \<Rightarrow> Done ((Inl err, s), k2)
                | Inr flags \<Rightarrow>
                    and_then (map_virt_loop e ops (c_cr3 (core k2)) (flags OR pt_bit_10) pages s)
                      (\<lambda>res. Done (res, k2)))"
    from assms r1 Inr obtain t k1 where cur: "current_task e k = Done (t, k1)"
      and body: "reading_task e t (\<lambda>k2. and_then (unwrap (registry k2 t)) (\<lambda>c. ?f c k2)) k1 = Done ((r, s'), k')"
      by (auto simp: map_virt_def and_then_eq_Done)
    have "\<forall>c k2 y k3. ?f c k2 = Done (y, k3) \<longrightarrow> k3 = k2"
      by (auto simp: and_then_eq_Done split: option.splits sum.splits)
    from reading_current [OF cur body this] obtain c :: "'pt task_context" and k2 :: "'pt kernel" where
      c: "?f c k2 = Done ((r, s'), k2)" "core k2 = core k" "capabilities c = current_caps k"
      "registry k' = registry k" by blast
    show thesis
    proof (cases "List.find (\<lambda>x. ctype (snd x) = MapVirtualToRam) (cap_handles (current_caps k))")
      case None
      with c show thesis by (intro unchanged) auto
    next
      case (Some y)
      show thesis
      proof (cases "perms_to_flags e (bf_truncate e mem_perm_all (perms AND 0xFF))")
        case (Inl err)
        with c Some show thesis by (intro unchanged) auto
      next
        case (Inr flags)
        with c Some r1 \<open>r1 = Inr pages\<close> show thesis
          by (intro mapping [of pages y flags]) (auto simp: and_then_eq_Done)
      qed
    qed
  qed
qed

lemma find_right:
  assumes "List.find (\<lambda>x. ctype (snd x) = MapVirtualToRam) (cap_handles s) = Some y"
  shows "\<exists>pm. (pm, RamMapping) \<in> store_authority s"
proof -
  from find_Some_set [OF assms] have "y \<in> set (cap_handles s)" "ctype (snd y) = MapVirtualToRam" by simp_all
  then have "(cap_perms (snd y), RamMapping) \<in> store_authority s"
    unfolding store_authority_def cap_authority_def by force
  then show ?thesis ..
qed

lemma perms_flags_user:
  assumes "bitflags_ok e" and "perms_to_flags e v = Inr flags"
  shows "flags AND pt_present = pt_present" "flags AND pt_user = pt_user"
    "flags AND pt_writable = pt_writable \<longleftrightarrow> v AND mem_perm_write = mem_perm_write"
    "flags AND pt_no_execute = 0 \<longleftrightarrow> v AND mem_perm_execute = mem_perm_execute"
  using assms by (auto simp: perms_to_flags_def bitflags_ok_def pt_bits split: if_splits)

text \<open>
  C23: Mapping fresh memory. A task that may not map memory changes nothing; otherwise the pages
  that were mapped are the first ones of the requested range, none of them was mapped before, and
  on success they are the whole range. They are user pages, writable or executable exactly as
  asked for. An error in the middle leaves the pages before it mapped.
\<close>
theorem map_virt_correct:
  assumes "mapper_ok ops view" and "bitflags_ok e" and "get_page_table e (c_cr3 (core k)) = Done t"
    and "map_virt e ops at len perms s k = Done ((r, s'), k')"
  shows "registry k' = registry k \<and> (s' = s \<and> (\<exists>err. r = Inl err) \<or>
    (\<exists>pages pfs flags. parse_page_range e at len = Done (Inr pages) \<and>
      (\<exists>pm. (pm, RamMapping) \<in> store_authority (current_caps k)) \<and>
      mapped view t s s' pfs (flags OR pt_bit_10) \<and> prefix (map fst pfs) pages \<and>
      (r = Inr () \<longrightarrow> map fst pfs = pages) \<and> flags AND pt_user = pt_user \<and>
      (flags AND pt_writable = pt_writable \<longleftrightarrow> perms AND mem_perm_write = mem_perm_write) \<and>
      (flags AND pt_no_execute = 0 \<longleftrightarrow> perms AND mem_perm_execute = mem_perm_execute)))"
  using assms(4)
proof (cases rule: map_virt_cases)
  case (unchanged err)
  then show ?thesis by simp
next
  case (mapping pages flags c)
  from map_virt_loop_mapped [OF assms(1,3) mapping(4)] obtain pfs where
    pfs: "mapped view t s s' pfs (flags OR pt_bit_10)" "prefix (map fst pfs) pages"
      "r = Inr () \<longrightarrow> map fst pfs = pages" by blast
  have tr: "bf_truncate e mem_perm_all (perms AND 0xFF) AND m = perms AND m"
    if "m = mem_perm_write \<or> m = mem_perm_execute" for m
    using that assms(2) by (auto simp: bitflags_ok_def and.assoc mem_perm_all_def mem_perm_read_def
        mem_perm_write_def mem_perm_execute_def)
  note fl = perms_flags_user [OF assms(2) mapping(3)]
  have w: "flags AND pt_writable = pt_writable \<longleftrightarrow> perms AND mem_perm_write = mem_perm_write"
    "flags AND pt_no_execute = 0 \<longleftrightarrow> perms AND mem_perm_execute = mem_perm_execute"
    by (simp_all only: fl(3,4) tr simp_thms)
  show ?thesis
    by (intro conjI disjI2 exI [of _ pages] exI [of _ pfs] exI [of _ flags])
       (simp_all only: mapping(1,5) find_right [OF mapping(2)] pfs(1,2) fl(2) w simp_thms, rule pfs(3))
qed

lemma example_map_virt:
  "\<exists>s' k'. map_virt (documented_env True) leaf_ops 0x400000 0x1000 3 example_pool example_holder =
     Done ((Inr (), s'), k')"
proof -
  have "task_lock example_holder 2 = Unlocked" "registry example_holder 2 =
      Some ((example_task 2 (Some 1) [] User)\<lparr>capabilities := example_caps\<rparr>)"
    "c_cr3 (core example_holder) = 0x5000"
    by (simp_all add: example_holder_def example_kernel_def)
  moreover have "bf_truncate (documented_env True) mem_perm_all (3 AND 0xFF) = 3"
    "bf_contains (documented_env True) 3 mem_perm_read"
    by (simp_all add: documented_env_def mem_perm_all_def mem_perm_read_def mem_perm_write_def mem_perm_execute_def)
  moreover have "\<exists>s1. allocate_frame (documented_env True) leaf_ops 0x5000 example_pool = Done (Some 0x100000, s1) \<and>
      (\<forall>t. leaf_view t (hw s1) = Map.empty)"
    by (simp add: example_allocate leaf_view_def)
  ultimately show ?thesis
    by (auto simp: map_virt_def example_range example_current reading_task_def set_task_lock_def
        example_caps_def perms_to_flags_def example_page_table leaf_ops_def leaf_map_def leaf_view_def
        split: prod.splits)
qed

theorem map_virt_correct_witness:
  "\<exists>s' k'. map_virt (documented_env True) leaf_ops 0x400000 0x1000 3 example_pool example_holder =
     Done ((Inr (), s'), k') \<and> registry k' = registry example_holder"
proof -
  have t: "get_page_table (documented_env True) (c_cr3 (core example_holder)) = Done 0xFFFFA00000005000"
    by (simp add: example_holder_def example_page_table)
  from example_map_virt obtain s' k' where
    m: "map_virt (documented_env True) leaf_ops 0x400000 0x1000 3 example_pool example_holder =
     Done ((Inr (), s'), k')" by blast
  from map_virt_correct [OF leaf_ops_ok documented_bitflags t m] m show ?thesis by blast
qed

section \<open>The range check and the kernel half\<close>

lemma or_high_bits:
  fixes a :: u64
  assumes "a < 0x0001000000000000"
  shows "a OR 0xFFFF000000000000 = a + 0xFFFF000000000000"
    and "unat (a + 0xFFFF000000000000) = unat a + 0xFFFF000000000000"
    and "(a OR 0xFFFF000000000000) AND 0xFFF = a AND 0xFFF"
proof -
  have m: "(0xFFFF000000000000 :: u64) = NOT (mask 48)" by (simp add: mask_eq_exp_minus_1)
  have lt: "unat a < 2 ^ 48" using assms by (simp add: word_less_nat_alt)
  then have "unat (a AND NOT (mask 48)) = 0" by (simp add: and_not_mask_unat)
  then have zero: "a AND 0xFFFF000000000000 = 0" unfolding m by (simp add: unat_eq_0)
  show "a OR 0xFFFF000000000000 = a + 0xFFFF000000000000"
    using zero by (rule disjunctive_add_eq_or [symmetric])
  show "unat (a + 0xFFFF000000000000) = unat a + 0xFFFF000000000000"
    using lt by (subst unat_add_no_overflow) simp_all
  show "(a OR 0xFFFF000000000000) AND 0xFFF = a AND 0xFFF"
    by (simp add: bit.conj_disj_distrib2)
qed

text \<open>
  The range check of the mapping calls does not keep user mappings out of the kernel half.
  It looks at bit 63 only, and \<open>VirtAddr::new\<close> sign-extends bit 47: every aligned range between
  \<open>0x0000_8000_0000_0000\<close> and \<open>0x0001_0000_0000_0000\<close> is accepted and stands for pages of the
  kernel half.
\<close>
theorem page_range_kernel_hole:
  assumes "virt_ok e" and "page_ok e" and "lower_end \<le> at" and "unat at + unat len < 0x0001000000000000"
    and "at AND 0xFFF = 0" and "(at + len) AND 0xFFF = 0" and "0 < len"
  shows "\<exists>pages. parse_page_range e at len = Done (Inr pages) \<and> length pages = unat len div 4096 \<and>
    (\<forall>p \<in> set pages. upper_half \<le> p)"
proof -
  let ?h = "0xFFFF000000000000 :: u64"
  have at: "at < 0x0001000000000000" "0x0000800000000000 \<le> unat at"
    using assms(3,4) by (simp_all add: word_less_nat_alt word_le_nat_alt lower_end_def)
  have sum: "unat (at + len) = unat at + unat len" using assms(4) by (intro unat_add_no_overflow) simp
  then have lt: "at + len < 0x0001000000000000" using assms(4) by (simp add: word_less_nat_alt)
  note A = or_high_bits [OF at(1)] and B = or_high_bits [OF lt]
  have one: "1 \<le> at + len" using at(2) sum by (simp add: word_le_nat_alt)
  have u1: "unat (at + len - 1) = unat at + unat len - 1" using one sum by (simp add: unat_sub word_le_nat_alt)
  have chk: "check_addr_userspace at = Inr ()" "check_addr_userspace (at + len - 1) = Inr ()"
    using at assms(4) u1 by (simp_all add: check_addr_userspace_iff word_less_nat_alt)
  have up: "upper_half \<le> at + ?h" using at(2) by (simp add: word_le_nat_alt A(2) upper_half_def)
  have se: "sign_extend_47 at = Some (at + ?h)"
    using at by (auto simp: sign_extend_47_def canonical_def A(1) [symmetric] word_less_nat_alt word_le_nat_alt)
  have u2: "unat (at + ?h + len) = unat at + unat len + 0xFFFF000000000000"
    using B(2) sum by (simp add: algebra_simps)
  have add: "virt_add e (at + ?h) len = Some (at + ?h + len)"
    using A(2) u2 assms(4) at(2)
    by (auto simp: virt_simps [OF assms(1)] sign_extend_47_def canonical_def word_le_nat_alt)
  have al: "(at + ?h) AND 0xFFF = 0" "(at + ?h + len) AND 0xFFF = 0"
    using A(1,3) B(1,3) assms(5,6) by (simp_all add: algebra_simps)
  have less: "at + ?h < at + ?h + len" using A(2) u2 assms(7) by (simp add: word_less_nat_alt)
  have diff: "at + ?h + len - (at + ?h) = len" by simp
  have nl: "\<not> at + ?h < lower_end" using A(2) by (simp add: word_less_nat_alt lower_end_def)
  let ?p = "page_starts (at + ?h) (unat len div 4096)"
  have "parse_page_range e at len = Done (Inr ?p)"
    using chk assms(4) one
    by (simp add: parse_page_range_def add_chk_Done sub_chk_Done virt_simps(1) [OF assms(1)] se add
        from_start_address_Some [OF assms(2), THEN iffD2] al page_ranges(1) [OF assms(2)] less
        pages_between_def nl diff)
  moreover have "upper_half \<le> p" if "p \<in> set ?p" for p
  proof -
    from that obtain j where j: "j < unat len div 4096" "p = at + ?h + of_nat (4096 * j)"
      by (auto simp: page_starts_def)
    have "Suc j * 4096 \<le> unat len" using j(1)
      by (metis Suc_leI div_times_less_eq_dividend le_trans mult_le_mono1)
    then have jl: "4096 * j < unat len" by simp
    have "unat (of_nat (4096 * j) :: u64) = 4096 * j"
      using jl unat_lt_2p64 [of len] by (intro unat_of_nat_u64) simp
    then have "unat p = unat (at + ?h) + 4096 * j"
      unfolding j(2) using jl A(2) assms(4) by (subst unat_add_no_overflow) simp_all
    then show ?thesis using up by (simp add: word_le_nat_alt)
  qed
  ultimately show ?thesis by (intro exI [of _ ?p]) (simp add: page_starts_def)
qed

theorem page_range_kernel_hole_witness:
  "\<exists>pages. parse_page_range (documented_env False) 0x0000C00000000000 0x2000 = Done (Inr pages) \<and>
     length pages = 2 \<and> (\<forall>p \<in> set pages. upper_half \<le> p)"
  using page_range_kernel_hole [OF documented_virt documented_page, of "0x0000C00000000000" "0x2000" False]
  by (simp add: lower_end_def)

end
