(* ===== verification/Task_Calls.thy ===== *)
theory Task_Calls
  imports Memory_Calls
begin

text \<open>
  The system calls on the current task: the capability calls (\<open>capability/syscall.rs\<close>) and the
  file calls (\<open>file/syscall.rs\<close>) under the lock of the task, sharing and transferring a capability
  to a child (\<open>process_share_transfer\<close>), and \<open>mypid\<close>. The last part is about all of them: which
  authority a task can ever get hold of.
\<close>

section \<open>Calls on the context of the current task\<close>

text \<open>\<open>current_task()\<close> and its write or read lock, held until the call returns.\<close>

definition on_current ::
    "env \<Rightarrow> ('pt task_context \<Rightarrow> ('a \<times> 'pt task_context) outcome) \<Rightarrow> 'pt kernel \<Rightarrow> ('a \<times> 'pt kernel) outcome" where
  "on_current e f k =
     and_then (current_task e k) (\<lambda>(t, k1).
     holding_task e t (\<lambda>k2.
       and_then (unwrap (registry k2 t)) (\<lambda>c.
       and_then (f c) (\<lambda>(r, c'). Done (r, update_task t (\<lambda>_. c') k2)))) k1)"

definition read_current :: "env \<Rightarrow> ('pt task_context \<Rightarrow> 'a) \<Rightarrow> 'pt kernel \<Rightarrow> ('a \<times> 'pt kernel) outcome" where
  "read_current e f k =
     and_then (current_task e k) (\<lambda>(t, k1).
     reading_task e t (\<lambda>k2. and_then (unwrap (registry k2 t)) (\<lambda>c. Done (f c, k2))) k1)"

definition on_caps ::
    "env \<Rightarrow> (cap_storage \<Rightarrow> ('a \<times> cap_storage) outcome) \<Rightarrow> 'pt kernel \<Rightarrow> ('a \<times> 'pt kernel) outcome" where
  "on_caps e f = on_current e (\<lambda>c.
     and_then (f (capabilities c)) (\<lambda>(r, s). Done (r, c\<lparr>capabilities := s\<rparr>)))"

definition on_files ::
    "env \<Rightarrow> (file_storage \<Rightarrow> ('a \<times> file_storage) outcome) \<Rightarrow> 'pt kernel \<Rightarrow> ('a \<times> 'pt kernel) outcome" where
  "on_files e f = on_current e (\<lambda>c.
     and_then (f (files c)) (\<lambda>(r, s). Done (r, c\<lparr>files := s\<rparr>)))"

section \<open>Capability calls\<close>

definition sys_cap_clone :: "env \<Rightarrow> usize \<Rightarrow> 'pt kernel \<Rightarrow> ('pt kernel, usize) op" where
  "sys_cap_clone e h = on_caps e (cap_clone e h)"

definition sys_cap_inspect :: "env \<Rightarrow> usize \<Rightarrow> usize \<Rightarrow> 'pt kernel \<Rightarrow> ('pt kernel, usize \<times> usize) op" where
  "sys_cap_inspect e what index = read_current e (\<lambda>c. cap_inspect what index (capabilities c))"

definition sys_cap_restrict :: "env \<Rightarrow> usize \<Rightarrow> usize \<Rightarrow> usize \<Rightarrow> 'pt kernel \<Rightarrow> ('pt kernel, unit) op" where
  "sys_cap_restrict e h a b = on_caps e (\<lambda>s. Done (cap_restrict e h a b s))"

definition sys_cap_drop :: "env \<Rightarrow> usize \<Rightarrow> 'pt kernel \<Rightarrow> ('pt kernel, unit) op" where
  "sys_cap_drop e h = on_caps e (\<lambda>s. Done (cap_drop h s))"

text \<open>The capability to hand over: deleted from the store to transfer it, copied to share it.\<close>

definition take_capability :: "env \<Rightarrow> usize \<Rightarrow> bool \<Rightarrow> 'pt kernel \<Rightarrow> ('pt kernel, capability) op" where
  "take_capability e h transfer k =
     (if transfer then on_caps e (\<lambda>s. Done (cap_delete h s)) k
      else read_current e (\<lambda>c.
        case cap_get h (capabilities c) of
          None \<Rightarrow> Inl WrongCapability
        | Some cap \<Rightarrow>
            if \<not> has_perm e cap cap_shareable then Inl WrongCapabilityPerms else Inr cap) k)"

definition give_capability :: "env \<Rightarrow> pid \<Rightarrow> capability \<Rightarrow> 'pt kernel \<Rightarrow> ('pt kernel, unit) op" where
  "give_capability e proc cap k =
     and_then (reading_registry e (\<lambda>k1. Done (registry_get proc k1, k1)) k) (\<lambda>(found, k1).
     case found of
       None \<Rightarrow> Done (Inl WrongProcess, k1)
     | Some _ \<Rightarrow>
         holding_task e proc (\<lambda>k2.
           and_then (unwrap (registry k2 proc)) (\<lambda>target.
           and_then (current_task_id k2) (\<lambda>cur.
           if parent target \<noteq> Some cur then Done (Inl WrongProcess, k2)
           else and_then (cap_insert e cap (capabilities target)) (\<lambda>(r, s).
             Done (map_sum id (\<lambda>_. ()) r, update_task proc (\<lambda>c. c\<lparr>capabilities := s\<rparr>) k2))))) k1)"

definition process_share_transfer ::
    "env \<Rightarrow> usize \<Rightarrow> usize \<Rightarrow> bool \<Rightarrow> 'pt kernel \<Rightarrow> ('pt kernel, unit) op" where
  "process_share_transfer e proc h transfer k =
     (if proc = 0 then Done (Inl WrongParameters, k)
      else and_then (current_task_id k) (\<lambda>cur.
        if proc = cur then Done (Inl WrongProcess, k)
        else try_then (take_capability e h transfer k) (give_capability e proc)))"

section \<open>File calls and the process id\<close>

definition sys_file_open ::
    "env \<Rightarrow> memory \<Rightarrow> usize \<Rightarrow> usize \<Rightarrow> usize \<Rightarrow> 'pt kernel \<Rightarrow> ('pt kernel, usize) op" where
  "sys_file_open e m path_ptr path_len mode k =
     and_then (file_open_path e m path_ptr path_len mode) (\<lambda>r. case r of
       Inl err \<Rightarrow> Done (Inl err, k)
     | Inr path \<Rightarrow> on_files e (file_open_at e path) k)"

definition sys_file_seek :: "env \<Rightarrow> usize \<Rightarrow> usize \<Rightarrow> 'pt kernel \<Rightarrow> ('pt kernel, unit) op" where
  "sys_file_seek e fd index = on_files e (\<lambda>s. Done (file_seek_at fd index s))"

definition sys_file_read ::
    "env \<Rightarrow> usize \<Rightarrow> usize \<Rightarrow> usize \<Rightarrow> memory \<Rightarrow> 'pt kernel \<Rightarrow>
     ((usize syscall_result \<times> memory) \<times> 'pt kernel) outcome" where
  "sys_file_read e fd at len m k =
     and_then (check_user_range e at len) (\<lambda>r. case r of
       Inl err \<Rightarrow> Done ((Inl err, m), k)
     | Inr _ \<Rightarrow> on_files e (\<lambda>s.
         and_then (file_read_at fd at len m s) (\<lambda>(r, (m', s')). Done ((r, m'), s'))) k)"

definition sys_file_close :: "env \<Rightarrow> usize \<Rightarrow> 'pt kernel \<Rightarrow> ('pt kernel, unit) op" where
  "sys_file_close e fd = on_files e (\<lambda>s. Done (file_close_at fd s))"

definition sys_mypid :: "'pt kernel \<Rightarrow> ('pt kernel, pid) op" where
  "sys_mypid k = and_then (current_task_id k) (\<lambda>t. Done (Inr t, k))"

section \<open>What a call changes\<close>

lemma on_current_Done:
  assumes "on_current e f k = Done (r, k')"
  obtains c c' where "registry k (cur_task k) = Some c" "f c = Done (r, c')"
    "registry k' = (registry k)(cur_task k \<mapsto> c')" "cur_task k' = cur_task k"
proof -
  from assms obtain t k1 where cur: "current_task e k = Done (t, k1)" and
    h: "holding_task e t (\<lambda>k2. and_then (unwrap (registry k2 t)) (\<lambda>c.
       and_then (f c) (\<lambda>(r, c'). Done (r, update_task t (\<lambda>_. c') k2)))) k1 = Done (r, k')"
    by (auto simp: on_current_def and_then_eq_Done)
  from current_task_Done [OF cur] obtain l where t: "t = cur_task k" "k1 = k\<lparr>registry_lock := l\<rparr>" by blast
  with h that show thesis
    by (auto simp: holding_task_def and_then_eq_Done set_task_lock_def update_task_def)
qed

lemma read_current_Done:
  assumes "read_current e f k = Done (r, k')"
  obtains c where "registry k (cur_task k) = Some c" "r = f c" "registry k' = registry k"
    "cur_task k' = cur_task k"
proof -
  from assms obtain t k1 where cur: "current_task e k = Done (t, k1)" and
    h: "reading_task e t (\<lambda>k2. and_then (unwrap (registry k2 t)) (\<lambda>c. Done (f c, k2))) k1 = Done (r, k')"
    by (auto simp: read_current_def and_then_eq_Done)
  from current_task_Done [OF cur] obtain l where t: "t = cur_task k" "k1 = k\<lparr>registry_lock := l\<rparr>" by blast
  with h that show thesis
    by (auto simp: reading_task_def and_then_eq_Done set_task_lock_def)
qed

lemma on_caps_Done:
  assumes "on_caps e f k = Done (r, k')"
  obtains c s where "registry k (cur_task k) = Some c" "f (capabilities c) = Done (r, s)"
    "registry k' = (registry k)(cur_task k \<mapsto> c\<lparr>capabilities := s\<rparr>)" "cur_task k' = cur_task k"
  using assms unfolding on_caps_def
  by (elim on_current_Done) (auto simp: and_then_eq_Done)

lemma on_files_Done:
  assumes "on_files e f k = Done (r, k')"
  obtains c s where "registry k (cur_task k) = Some c" "f (files c) = Done (r, s)"
    "registry k' = (registry k)(cur_task k \<mapsto> c\<lparr>files := s\<rparr>)" "cur_task k' = cur_task k"
  using assms unfolding on_files_def
  by (elim on_current_Done) (auto simp: and_then_eq_Done)

section \<open>Handing a capability to a child\<close>

lemma give_capability_Done:
  assumes "give_capability e p cap k = Done (r, k')"
  obtains (failed) err where "r = Inl err" "err \<in> {WrongProcess, NoMemory}"
      "registry k p = None \<or> (\<exists>c. registry k p = Some c \<and> parent c \<noteq> Some (cur_task k)) \<Longrightarrow> err = WrongProcess"
      "registry k' = registry k \<or> (\<exists>c. registry k p = Some c \<and> parent c = Some (cur_task k) \<and>
         registry k' = (registry k)(p \<mapsto> c\<lparr>capabilities := (capabilities c)\<lparr>next_handle :=
           next_handle (capabilities c) + 1\<rparr>\<rparr>))"
      "cur_task k' = cur_task k"
    | (given) c h s where "r = Inr ()" "registry k p = Some c" "parent c = Some (cur_task k)"
      "cap_insert e cap (capabilities c) = Done (Inr h, s)"
      "registry k' = (registry k)(p \<mapsto> c\<lparr>capabilities := s\<rparr>)" "cur_task k' = cur_task k"
proof -
  from assms obtain found k1 where get: "reading_registry e (\<lambda>k1. Done (registry_get p k1, k1)) k = Done (found, k1)"
    and rest: "(case found of None \<Rightarrow> Done (Inl WrongProcess, k1)
     | Some _ \<Rightarrow> holding_task e p (\<lambda>k2. and_then (unwrap (registry k2 p)) (\<lambda>target.
           and_then (current_task_id k2) (\<lambda>cur.
           if parent target \<noteq> Some cur then Done (Inl WrongProcess, k2)
           else and_then (cap_insert e cap (capabilities target)) (\<lambda>(r, s).
             Done (map_sum id (\<lambda>_. ()) r, update_task p (\<lambda>c. c\<lparr>capabilities := s\<rparr>) k2))))) k1) = Done (r, k')"
    unfolding give_capability_def by (auto simp: and_then_eq_Done)
  from get have f: "found = registry k p" "registry k1 = registry k" "cur_task k1 = cur_task k"
    by (auto simp: reading_registry_def registry_get_def and_then_eq_Done)
  show thesis
  proof (cases "registry k p")
    case None
    with f rest show thesis by (intro failed [of WrongProcess]) auto
  next
    case (Some c)
    show thesis
    proof (cases "parent c = Some (cur_task k)")
      case False
      with Some f rest show thesis
        by (intro failed [of WrongProcess])
           (auto simp: holding_task_def and_then_eq_Done set_task_lock_def current_task_id_def split: if_splits)
    next
      case True
      with Some f rest obtain r1 s where ins: "cap_insert e cap (capabilities c) = Done (r1, s)"
        "r = map_sum id (\<lambda>_. ()) r1" "registry k' = (registry k)(p \<mapsto> c\<lparr>capabilities := s\<rparr>)"
        "cur_task k' = cur_task k"
        by (auto simp: holding_task_def and_then_eq_Done set_task_lock_def current_task_id_def
            update_task_def split: if_splits)
      from ins(1) show thesis
      proof (cases rule: cap_insert_cases)
        case stored
        with ins True Some show thesis by (intro given [of c "next_handle (capabilities c)" s]) auto
      next
        case no_memory
        with ins True Some show thesis by (intro failed [of NoMemory]) auto
      qed
    qed
  qed
qed

section \<open>Authority\<close>

definition task_authority :: "'pt kernel \<Rightarrow> pid \<Rightarrow> (u32 \<times> right) set" where
  "task_authority k t = (case registry k t of Some c \<Rightarrow> store_authority (capabilities c) | None \<Rightarrow> {})"

definition parent_rel :: "'pt kernel \<Rightarrow> (pid \<times> pid) set" where
  "parent_rel k = {(t, p). \<exists>c. registry k t = Some c \<and> parent c = Some p}"

lemma authority_update:
  assumes "registry k' = (registry k)(t \<mapsto> c\<lparr>capabilities := s\<rparr>)" and "registry k t = Some c"
  shows "task_authority k' x = (if x = t then store_authority s else task_authority k x)"
    and "parent_rel k' = parent_rel k"
  using assms by (auto simp: task_authority_def parent_rel_def split: if_splits)

lemma authority_same:
  assumes "registry k' = registry k"
  shows "task_authority k' = task_authority k" and "parent_rel k' = parent_rel k"
  using assms by (auto simp: task_authority_def parent_rel_def fun_eq_iff)

text \<open>
  The calls of the task that runs, and the switch to the next one. In between the tasks compute
  with their own registers (\<open>compute\<close>), which no call reads.
\<close>

inductive call_step :: "env \<Rightarrow> 'm mem_ops \<Rightarrow> 'pt kernel \<Rightarrow> 'pt kernel \<Rightarrow> bool" for e ops where
  compute: "call_step e ops k (k\<lparr>core := c\<rparr>)"
| clone: "sys_cap_clone e h k = Done (r, k') \<Longrightarrow> call_step e ops k k'"
| inspect: "sys_cap_inspect e a b k = Done (q, k') \<Longrightarrow> call_step e ops k k'"
| restrict: "sys_cap_restrict e h a b k = Done (u, k') \<Longrightarrow> call_step e ops k k'"
| drop: "sys_cap_drop e h k = Done (u, k') \<Longrightarrow> call_step e ops k k'"
| share: "process_share_transfer e p h transfer k = Done (u, k') \<Longrightarrow> call_step e ops k k'"
| openf: "sys_file_open e m a b c k = Done (r, k') \<Longrightarrow> call_step e ops k k'"
| seek: "sys_file_seek e d a k = Done (u, k') \<Longrightarrow> call_step e ops k k'"
| readf: "sys_file_read e d a b m k = Done (w, k') \<Longrightarrow> call_step e ops k k'"
| closef: "sys_file_close e d k = Done (u, k') \<Longrightarrow> call_step e ops k k'"
| map_ram: "map_virt e ops a b c s k = Done (v, k') \<Longrightarrow> call_step e ops k k'"
| map_range: "map_phys e ops a b c d s k = Done (v, k') \<Longrightarrow> call_step e ops k k'"
| switch: "spin_ok e \<Longrightarrow> sched_ok k \<Longrightarrow> switch_to_next_task e k = Done (y, k') \<Longrightarrow> call_step e ops k k'"

text \<open>
  One step: the parents stay, and a task gains at most what it had, together with what the task
  that runs had if that is its parent.
\<close>

definition gains_from_parent :: "'pt kernel \<Rightarrow> 'pt kernel \<Rightarrow> bool" where
  "gains_from_parent k k' \<longleftrightarrow> parent_rel k' = parent_rel k \<and>
     (\<forall>t. task_authority k' t \<subseteq> task_authority k t \<union>
        (if (t, cur_task k) \<in> parent_rel k then task_authority k (cur_task k) else {}))"

lemma gains_same: "registry k' = registry k \<Longrightarrow> gains_from_parent k k'"
  using authority_same [of k' k] by (simp add: gains_from_parent_def)

lemma gains_caps:
  assumes "on_caps e f k = Done (r, k')"
    and "\<And>s r s'. f s = Done (r, s') \<Longrightarrow> store_authority s' \<subseteq> store_authority s"
  shows "gains_from_parent k k'"
  using assms(1)
proof (rule on_caps_Done)
  fix c s assume c: "registry k (cur_task k) = Some c" "f (capabilities c) = Done (r, s)"
    "registry k' = (registry k)(cur_task k \<mapsto> c\<lparr>capabilities := s\<rparr>)"
  have "store_authority s \<subseteq> task_authority k (cur_task k)"
    using assms(2) [OF c(2)] c(1) by (simp add: task_authority_def)
  then show ?thesis
    using authority_update [OF c(3,1)] by (auto simp: gains_from_parent_def)
qed

lemma gains_files: "on_files e f k = Done (r, k') \<Longrightarrow> gains_from_parent k k'"
  by (erule on_files_Done)
     (auto simp: gains_from_parent_def task_authority_def parent_rel_def split: if_splits)

lemma gains_switch:
  assumes "spin_ok e" and "sched_ok k" and "switch_to_next_task e k = Done (y, k')"
  shows "gains_from_parent k k'"
proof -
  from switch_ok [OF assms(1,2)] assms(3) have
    "registry k' = registry k \<or> (\<exists>fc saved. registry k (cur_task k) = Some fc \<and>
       registry k' = (registry k)(cur_task k \<mapsto> fc\<lparr>arch_regs := saved\<rparr>))"
    by (metis Pair_inject outcome.inject)
  then show ?thesis
  proof
    assume "registry k' = registry k"
    then show ?thesis by (rule gains_same)
  next
    assume "\<exists>fc saved. registry k (cur_task k) = Some fc \<and>
       registry k' = (registry k)(cur_task k \<mapsto> fc\<lparr>arch_regs := saved\<rparr>)"
    then show ?thesis
      by (auto simp: gains_from_parent_def task_authority_def parent_rel_def split: if_splits)
  qed
qed

lemma take_capability_Done:
  assumes "take_capability e h transfer k = Done (r, k')"
  shows "gains_from_parent k k'" and "cur_task k' = cur_task k"
    and "r = Inr cap \<Longrightarrow> cap_authority cap \<subseteq> task_authority k (cur_task k)"
proof -
  have "gains_from_parent k k' \<and> cur_task k' = cur_task k \<and>
    (\<forall>cap. r = Inr cap \<longrightarrow> cap_authority cap \<subseteq> task_authority k (cur_task k))"
  proof (cases transfer)
    case True
    with assms have d: "on_caps e (\<lambda>s. Done (cap_delete h s)) k = Done (r, k')" by (simp add: take_capability_def)
    then have "gains_from_parent k k'" by (rule gains_caps) (auto dest: cap_delete_authority(1))
    moreover from d have "cur_task k' = cur_task k \<and>
      (\<forall>cap. r = Inr cap \<longrightarrow> cap_authority cap \<subseteq> task_authority k (cur_task k))"
      by (rule on_caps_Done) (auto simp: task_authority_def dest!: cap_delete_authority(2))
    ultimately show ?thesis by blast
  next
    case False
    with assms show ?thesis
      by (auto simp: take_capability_def gains_same task_authority_def elim!: read_current_Done
          dest!: cap_get_authority split: option.splits if_splits)
  qed
  then show "gains_from_parent k k'" "cur_task k' = cur_task k"
    "r = Inr cap \<Longrightarrow> cap_authority cap \<subseteq> task_authority k (cur_task k)" by auto
qed

lemma share_transfer_steps:
  assumes "process_share_transfer e p h transfer k = Done (r, k')"
  obtains (refused) err where "r = Inl err" "registry k' = registry k"
    | (not_taken) err where "r = Inl err" "take_capability e h transfer k = Done (Inl err, k')"
    | (taken) cap k1 where "p \<noteq> 0" "p \<noteq> cur_task k" "take_capability e h transfer k = Done (Inr cap, k1)"
        "give_capability e p cap k1 = Done (r, k')"
  using assms
  by (auto simp: process_share_transfer_def and_then_eq_Done try_then_eq_Done current_task_id_def
      split: if_splits)

lemma gains_share:
  assumes "process_share_transfer e p h transfer k = Done (r, k')"
  shows "gains_from_parent k k'"
  using assms
proof (cases rule: share_transfer_steps)
  case (refused err)
  then show ?thesis by (intro gains_same) simp
next
  case (not_taken err)
  then show ?thesis by (intro take_capability_Done(1))
next
  case (taken cap k1)
  note T = take_capability_Done(1,2) [OF taken(3)] take_capability_Done(3) [OF taken(3) refl]
  have pr: "parent_rel k1 = parent_rel k" and
    le: "\<And>t. task_authority k1 t \<subseteq> task_authority k t \<union>
        (if (t, cur_task k) \<in> parent_rel k then task_authority k (cur_task k) else {})"
    using T(1) by (auto simp: gains_from_parent_def)
  from taken(4) show ?thesis
  proof (cases rule: give_capability_Done)
    case (failed err)
    have "task_authority k' = task_authority k1 \<and> parent_rel k' = parent_rel k1"
      using failed(4)
    proof (elim disjE exE conjE)
      assume "registry k' = registry k1"
      from authority_same [OF this] show ?thesis by blast
    next
      fix c
      assume c: "registry k1 p = Some c" "registry k' = (registry k1)(p \<mapsto> c\<lparr>capabilities :=
        (capabilities c)\<lparr>next_handle := next_handle (capabilities c) + 1\<rparr>\<rparr>)"
      have "store_authority ((capabilities c)\<lparr>next_handle := next_handle (capabilities c) + 1\<rparr>) =
        task_authority k1 p" using c(1) by (simp add: store_authority_def task_authority_def)
      with authority_update [OF c(2,1)] show ?thesis by (auto simp: fun_eq_iff)
    qed
    with pr le show ?thesis by (simp add: gains_from_parent_def)
  next
    case (given c h' s)
    from cap_insert_authority [OF given(4)] T(3) given(2) have
      s: "store_authority s \<subseteq> task_authority k1 p \<union> task_authority k (cur_task k)"
      by (auto simp: task_authority_def)
    have par: "(p, cur_task k) \<in> parent_rel k"
      unfolding pr [symmetric] using given(2,3) T(2) by (simp add: parent_rel_def)
    have "task_authority k' t \<subseteq> task_authority k t \<union>
        (if (t, cur_task k) \<in> parent_rel k then task_authority k (cur_task k) else {})" for t
      using authority_update(1) [OF given(5,2), of t] s le [of t] par by auto
    then show ?thesis
      using authority_update(2) [OF given(5,2)] pr by (simp add: gains_from_parent_def)
  qed
qed

lemma call_step_gains:
  assumes "phys_ok e" and "call_step e ops k k'"
  shows "gains_from_parent k k'"
  using assms(2)
proof (cases rule: call_step.cases)
  case (compute c)
  then show ?thesis by (intro gains_same) simp
next
  case (clone h r)
  then show ?thesis
    unfolding sys_cap_clone_def by (elim gains_caps) (auto dest: cap_clone_authority)
next
  case (inspect a b q)
  then show ?thesis
    unfolding sys_cap_inspect_def by (elim read_current_Done) (simp add: gains_same)
next
  case (restrict h a b u)
  then show ?thesis
    unfolding sys_cap_restrict_def
    by (elim gains_caps) (auto dest: cap_restrict_authority [OF assms(1)])
next
  case (drop h u)
  then show ?thesis
    unfolding sys_cap_drop_def
    by (elim gains_caps) (auto simp: cap_drop_def dest: cap_delete_authority(1) split: prod.splits sum.splits)
next
  case (share p h transfer u)
  then show ?thesis by (intro gains_share)
next
  case (openf m a b c r)
  then obtain r1 where "(case r1 of Inl err \<Rightarrow> Done (Inl err, k)
     | Inr path \<Rightarrow> on_files e (file_open_at e path) k) = Done (r, k')"
    by (auto simp: sys_file_open_def and_then_eq_Done)
  then show ?thesis by (cases r1) (auto intro: gains_files gains_same)
next
  case (seek d a u)
  then show ?thesis unfolding sys_file_seek_def by (rule gains_files)
next
  case (readf d a b m w)
  then obtain r1 :: "unit syscall_result" where "(case r1 of Inl err \<Rightarrow> Done ((Inl err, m), k)
     | Inr _ \<Rightarrow> on_files e (\<lambda>s. and_then (file_read_at d a b m s) (\<lambda>(r, (m', s')). Done ((r, m'), s'))) k) =
     Done (w, k')"
    by (auto simp: sys_file_read_def and_then_eq_Done)
  then show ?thesis by (cases r1) (auto intro: gains_files gains_same)
next
  case (closef d u)
  then show ?thesis unfolding sys_file_close_def by (rule gains_files)
next
  case (map_ram a b c s v)
  then obtain r s' where "map_virt e ops a b c s k = Done ((r, s'), k')" by (cases v) simp
  then show ?thesis by (cases rule: map_virt_cases) (simp_all add: gains_same)
next
  case (map_range a b c d s v)
  then obtain r s' where "map_phys e ops a b c d s k = Done ((r, s'), k')" by (cases v) simp
  then show ?thesis by (cases rule: map_phys_cases) (simp_all add: gains_same)
next
  case (switch y)
  then show ?thesis by (intro gains_switch)
qed


lemma on_current_unlocked:
  assumes "spin_ok e" and "sched_ok k" and "registry k (cur_task k) = Some c"
  shows "on_current e f k = and_then (f c) (\<lambda>(r, c'). Done (r, update_task (cur_task k) (\<lambda>_. c') k))"
proof -
  note D = sched_ok_D [OF assms(2)]
  have "set_task_lock (cur_task k) Unlocked (update_task (cur_task k) g (set_task_lock (cur_task k) WriteLocked k)) =
      update_task (cur_task k) g k" for g
    using D(2) by (auto simp: set_task_lock_def update_task_def fun_upd_idem intro!: kernel.equality)
  then show ?thesis
    using assms(1,3) D(2) current_task_ok [OF assms(1) D(1,4) assms(3)]
    by (cases "f c") (auto simp: on_current_def holding_task_def set_task_lock_def)
qed

text \<open>Task 2 shares its capability 0 with its child 5.\<close>

definition example_family :: "unit kernel" where
  "example_family = example_kernel\<lparr>registry := (registry example_kernel)(
     2 \<mapsto> (example_task 2 (Some 1) [5] User)\<lparr>capabilities :=
       \<lparr> next_handle = 1, cap_handles = [(0, \<lparr> cap_perms = 2, ctype = MapPhysical 0x1000 0x1FFF \<rparr>)] \<rparr>\<rparr>,
     5 \<mapsto> example_task 5 (Some 2) [] User)\<rparr>"

lemma example_family_ok: "sched_ok example_family"
  by (auto simp: example_family_def sched_ok_def unlocked_def runnable_def ids_ok_def example_kernel_def
      example_task_def)

lemma example_family_task:
  "registry example_family (cur_task example_family) = Some ((example_task 2 (Some 1) [5] User)\<lparr>capabilities :=
       \<lparr> next_handle = 1, cap_handles = [(0, \<lparr> cap_perms = 2, ctype = MapPhysical 0x1000 0x1FFF \<rparr>)] \<rparr>\<rparr>)"
  by (simp add: example_family_def example_kernel_def)

lemma example_drop:
  "\<exists>k'. sys_cap_drop (documented_env True) 0 example_family = Done (Inr (), k')"
  by (simp add: sys_cap_drop_def on_caps_def cap_drop_def cap_delete_def
      on_current_unlocked [OF documented_spin example_family_ok example_family_task])



lemma read_current_unlocked:
  assumes "spin_ok e" and "sched_ok k" and "registry k (cur_task k) = Some c"
  shows "read_current e f k = Done (f c, k)"
proof -
  note D = sched_ok_D [OF assms(2)]
  show ?thesis
    using assms(1,3) D(2) current_task_ok [OF assms(1) D(1,4) assms(3)]
    by (auto simp: read_current_def reading_task_def set_task_lock_def fun_upd_idem intro!: kernel.equality)
qed

lemma give_capability_unlocked:
  assumes "spin_ok e" and "unlocked k" and "cur_task k \<noteq> 0"
  shows "give_capability e p cap k = (case registry k p of
     None \<Rightarrow> Done (Inl WrongProcess, k)
   | Some c \<Rightarrow> if parent c \<noteq> Some (cur_task k) then Done (Inl WrongProcess, k)
       else and_then (cap_insert e cap (capabilities c)) (\<lambda>(r, s).
         Done (map_sum id (\<lambda>_. ()) r, update_task p (\<lambda>c. c\<lparr>capabilities := s\<rparr>) k)))"
proof -
  have rl: "registry_lock k = Unlocked" "task_lock k p = Unlocked" using assms(2) by (simp_all add: unlocked_def)
  have eqk: "k\<lparr>registry_lock := Unlocked\<rparr> = k" using rl(1) by simp
  have "give_capability e p cap k = (case registry k p of
     None \<Rightarrow> Done (Inl WrongProcess, k)
   | Some _ \<Rightarrow> holding_task e p (\<lambda>k2.
           and_then (unwrap (registry k2 p)) (\<lambda>target.
           and_then (current_task_id k2) (\<lambda>cur.
           if parent target \<noteq> Some cur then Done (Inl WrongProcess, k2)
           else and_then (cap_insert e cap (capabilities target)) (\<lambda>(r, s).
             Done (map_sum id (\<lambda>_. ()) r, update_task p (\<lambda>c. c\<lparr>capabilities := s\<rparr>) k2))))) k)"
    using assms(1) rl(1) by (simp add: give_capability_def reading_registry_def registry_get_def eqk)
  also have "\<dots> = (case registry k p of
     None \<Rightarrow> Done (Inl WrongProcess, k)
   | Some c \<Rightarrow> if parent c \<noteq> Some (cur_task k) then Done (Inl WrongProcess, k)
       else and_then (cap_insert e cap (capabilities c)) (\<lambda>(r, s).
         Done (map_sum id (\<lambda>_. ()) r, update_task p (\<lambda>c. c\<lparr>capabilities := s\<rparr>) k)))"
  proof (cases "registry k p")
    case None
    then show ?thesis by simp
  next
    case (Some c)
    have eq: "k\<lparr>task_lock := (task_lock k)(p := Unlocked)\<rparr> = k" using rl(2) by (simp add: fun_upd_idem)
    show ?thesis
      using assms(1,3) rl(2) Some eq
      by (cases "cap_insert e cap (capabilities c)")
         (auto simp: holding_task_def set_task_lock_def current_task_id_def update_task_def
           fun_upd_idem intro!: kernel.equality)
  qed
  finally show ?thesis .
qed

lemma example_share:
  "\<exists>k'. process_share_transfer (documented_env True) 5 0 False example_family = Done (Inr (), k')"
proof -
  have "cur_task example_family = 2" "unlocked example_family"
    "registry example_family 5 = Some (example_task 5 (Some 2) [] User)"
    using example_family_ok by (simp_all add: example_family_def example_kernel_def sched_ok_def)
  then show ?thesis
    by (simp add: process_share_transfer_def current_task_id_def take_capability_def
        read_current_unlocked [OF documented_spin example_family_ok example_family_task] cap_get_def
        has_perm_def give_capability_unlocked cap_shareable_def)
       (simp add: documented_env_def example_task_def cap_insert_def cap_storage_default_def add_chk_def)
qed


text \<open>
  A failed transfer loses the capability. It is deleted from the store of the caller before
  the target is looked at: when the target is no child of the caller, or no process at all, the
  call reports an error, and nobody holds the capability any more.
\<close>
theorem failed_transfer_loses:
  assumes "spin_ok e" and "sched_ok k" and "registry k (cur_task k) = Some own"
    and "cap_storage_ok (capabilities own)" and "cap_get h (capabilities own) = Some cap"
    and "p \<noteq> 0" and "p \<noteq> cur_task k"
    and "registry k p = None \<or> (\<exists>c. registry k p = Some c \<and> parent c \<noteq> Some (cur_task k))"
  shows "\<exists>k' own'. process_share_transfer e p h True k = Done (Inl WrongProcess, k') \<and>
    registry k' = (registry k)(cur_task k \<mapsto> own') \<and> cap_get h (capabilities own') = None"
proof -
  from assms(5) obtain s where s: "cap_delete h (capabilities own) = (Inr cap, s)"
    by (cases "cap_delete h (capabilities own)") (auto simp: cap_delete_def cap_get_def
        pairs_delete_None dest: pairs_delete_value split: option.splits prod.splits)
  then have "cap_del h (capabilities own) = Some (cap, s)" by (simp add: cap_del_def)
  from caps.get_deleted [OF assms(4) this] have none: "cap_get h s = None" by (simp add: cap_get_def)
  let ?own = "own\<lparr>capabilities := s\<rparr>"
  let ?k = "update_task (cur_task k) (\<lambda>_. ?own) k"
  note D = sched_ok_D [OF assms(2)]
  have reg: "registry ?k = (registry k)(cur_task k \<mapsto> ?own)" using assms(3) by (simp add: update_task_def)
  have take: "take_capability e h True k = Done (Inr cap, ?k)"
    using s by (simp add: take_capability_def on_caps_def on_current_unlocked [OF assms(1-3)])
  have "unlocked ?k" "cur_task ?k = cur_task k"
    using D by (simp_all add: unlocked_def update_task_def)
  then have "give_capability e p cap ?k = Done (Inl WrongProcess, ?k)"
    using assms(1,7,8) D(4) reg by (auto simp: give_capability_unlocked)
  then have "process_share_transfer e p h True k = Done (Inl WrongProcess, ?k)"
    using assms(6,7) D(4) take by (simp add: process_share_transfer_def current_task_id_def)
  with reg none show ?thesis by (intro exI [of _ ?k] exI [of _ ?own]) simp
qed

theorem failed_transfer_loses_witness:
  "\<exists>k'. process_share_transfer (documented_env True) 77 0 True example_family = Done (Inl WrongProcess, k')"
proof -
  have "cur_task example_family = 2" "registry example_family 77 = None"
    by (simp_all add: example_family_def example_kernel_def)
  then show ?thesis
    using failed_transfer_loses [OF documented_spin example_family_ok example_family_task, of 0 _ 77 True]
    by (simp add: cap_storage_ok_def cap_get_def) blast
qed

end
