(* ===== verification/Page_Tables.thy ===== *)
theory Page_Tables
  imports Paging
begin

text \<open>
  The code that walks page tables by itself (\<open>arch/x86_64/paging/mod.rs\<close>, \<open>context/page_table.rs\<close>):
  the clean up of the mappings of the bootloader, the global bit of the kernel half, the page
  table of a new task and what dropping it frees. An entry is its 64-bit value at its address in
  the mapping of the physical memory. How a value holds an address and flags is the crate
  \<open>x86_64\<close>: the functions of \<open>pte_ops\<close>, and \<open>pte_ok\<close> for what it documents.
\<close>

section \<open>Entries\<close>

text \<open>The 512 entries of a table are not to be unrolled.\<close>

declare upt_rec_numeral [simp del]

record 'm pte_ops =
  load_entry :: "u64 \<Rightarrow> 'm \<Rightarrow> u64"
  store_entry :: "u64 \<Rightarrow> u64 \<Rightarrow> 'm \<Rightarrow> 'm"
  entry_addr :: "u64 \<Rightarrow> u64"
  entry_flags :: "u64 \<Rightarrow> u64"
  set_flags :: "u64 \<Rightarrow> u64 \<Rightarrow> u64"

definition pt_flag_mask :: u64 where "pt_flag_mask = 0xFFF0000000000FFF"

definition pte_ok :: "'m pte_ops \<Rightarrow> bool" where
  "pte_ok P \<longleftrightarrow>
     (\<forall>a v m b. load_entry P b (store_entry P a v m) = (if b = a then v else load_entry P b m)) \<and>
     (\<forall>v. entry_flags P v AND pt_flag_mask = entry_flags P v) \<and>
     (\<forall>v f. f AND pt_flag_mask = f \<longrightarrow> entry_flags P (set_flags P v f) = f) \<and>
     (\<forall>v f. entry_addr P (set_flags P v f) = entry_addr P v) \<and> entry_flags P 0 = 0"

definition word_ptes :: "(u64 \<Rightarrow> u64) pte_ops" where
  "word_ptes = \<lparr> load_entry = (\<lambda>a m. m a), store_entry = (\<lambda>a v m. m(a := v)),
     entry_addr = (\<lambda>v. v AND 0x000FFFFFFFFFF000), entry_flags = (\<lambda>v. v AND pt_flag_mask),
     set_flags = (\<lambda>v f. (v AND 0x000FFFFFFFFFF000) OR (f AND pt_flag_mask)) \<rparr>"

lemma word_ptes_ok: "pte_ok word_ptes"
proof -
  have 1: "((v AND 0x000FFFFFFFFFF000) OR (f AND pt_flag_mask)) AND pt_flag_mask = f AND pt_flag_mask" for v f :: u64
  proof -
    have "(0x000FFFFFFFFFF000 :: u64) AND pt_flag_mask = 0" by (simp add: pt_flag_mask_def)
    then show ?thesis by (simp add: bit.conj_disj_distrib2 and.assoc)
  qed
  have 2: "((v AND 0x000FFFFFFFFFF000) OR (f AND pt_flag_mask)) AND 0x000FFFFFFFFFF000 = v AND 0x000FFFFFFFFFF000"
    for v f :: u64
  proof -
    have "pt_flag_mask AND (0x000FFFFFFFFFF000 :: u64) = 0" by (simp add: pt_flag_mask_def)
    then show ?thesis by (simp add: bit.conj_disj_distrib2 and.assoc)
  qed
  have 3: "((v AND 0x000FFFFFFFFFF000) OR (f AND pt_flag_mask)) AND pt_flag_mask = f"
    if "f AND pt_flag_mask = f" for v f :: u64
    by (rule trans [OF 1 that])
  show ?thesis using 2 3 by (simp add: pte_ok_def word_ptes_def and.assoc del: word_bw_comms)
qed

text \<open>\<open>entry.flags().contains(f)\<close>, and the entries of a table in their order.\<close>

definition has_flag :: "env \<Rightarrow> 'm pte_ops \<Rightarrow> u64 \<Rightarrow> u64 \<Rightarrow> bool" where
  "has_flag e P f v = bf_contains e (entry_flags P v) f"

definition entry_slots :: "u64 \<Rightarrow> nat \<Rightarrow> nat \<Rightarrow> u64 list" where
  "entry_slots table i j = map (\<lambda>k. table + 8 * of_nat k) [i..<j]"

definition sub_table :: "env \<Rightarrow> 'm pte_ops \<Rightarrow> u64 \<Rightarrow> u64 outcome" where
  "sub_table e P v = unwrap (virt_add e physical_memory_offset (entry_addr P v))"

fun for_each :: "('x \<Rightarrow> 's \<Rightarrow> 's outcome) \<Rightarrow> 'x list \<Rightarrow> 's \<Rightarrow> 's outcome" where
  "for_each f [] s = Done s"
| "for_each f (x # xs) s = and_then (f x s) (for_each f xs)"

section \<open>The clean up of the lower half\<close>

text \<open>The first argument is the level as the number of levels below it: 3 for level 4, 0 for level 1.\<close>

primrec clear_leaf :: "nat \<Rightarrow> env \<Rightarrow> 'm pte_ops \<Rightarrow> u64 \<Rightarrow> 'm \<Rightarrow> 'm outcome" where
  "clear_leaf 0 e P a m =
     (let v = load_entry P a m in
      if \<not> has_flag e P pt_present v then Done m
      else Done (store_entry P a (set_flags P v (entry_flags P v AND NOT pt_present)) m))"
| "clear_leaf (Suc n) e P a m =
     (let v = load_entry P a m in
      if \<not> has_flag e P pt_present v then Done m
      else if \<not> has_flag e P pt_global v
      then and_then (sub_table e P v) (\<lambda>t. for_each (clear_leaf n e P) (entry_slots t 0 512) m)
      else Done (store_entry P a (set_flags P v (entry_flags P v AND NOT pt_present)) m))"

definition fix_bootloader_pollution :: "env \<Rightarrow> 'm pte_ops \<Rightarrow> u64 \<Rightarrow> 'm \<Rightarrow> 'm outcome" where
  "fix_bootloader_pollution e P cr3 m =
     and_then (get_page_table e cr3) (\<lambda>t. for_each (clear_leaf 3 e P) (entry_slots t 0 256) m)"

section \<open>The global bit of the kernel half\<close>

definition mark_global :: "env \<Rightarrow> 'm pte_ops \<Rightarrow> u64 \<Rightarrow> 'm \<Rightarrow> 'm" where
  "mark_global e P a m =
     (let v = load_entry P a m in
      if has_flag e P pt_global v then m
      else store_entry P a (set_flags P v (entry_flags P v OR pt_global)) m)"

primrec globalize_leaf :: "nat \<Rightarrow> env \<Rightarrow> 'm pte_ops \<Rightarrow> u64 \<Rightarrow> 'm \<Rightarrow> 'm outcome" where
  "globalize_leaf 0 e P a m =
     (if \<not> has_flag e P pt_present (load_entry P a m) then Done m
      else Done (mark_global e P a m))"
| "globalize_leaf (Suc n) e P a m =
     (if \<not> has_flag e P pt_present (load_entry P a m) then Done m
      else let m1 = mark_global e P a m; v = load_entry P a m1 in
        if has_flag e P pt_huge v then Done m1
        else and_then (sub_table e P v) (\<lambda>t. for_each (globalize_leaf n e P) (entry_slots t 0 512) m1))"

definition globalize_kernelspace :: "env \<Rightarrow> 'm pte_ops \<Rightarrow> u64 \<Rightarrow> 'm \<Rightarrow> 'm outcome" where
  "globalize_kernelspace e P cr3 m =
     and_then (get_page_table e cr3) (\<lambda>t. for_each (globalize_leaf 3 e P) (entry_slots t 256 512) m)"

section \<open>The page table of a task\<close>

text \<open>
  A \<open>UserPageTable\<close> is the address of its boxed level 4 table. \<open>Box::new\<close> without memory is the
  allocation error handler, a panic; the layout of a table is the one of a boxed page.
\<close>

definition user_table_from_current :: "env \<Rightarrow> u64 \<Rightarrow> u64 outcome" where
  "user_table_from_current e cr3 = get_page_table e cr3"

definition user_table_new_from :: "'m mem_ops \<Rightarrow> 'm pte_ops \<Rightarrow> u64 \<Rightarrow> 'm \<Rightarrow> (u64 \<times> 'm) outcome" where
  "user_table_new_from ops P table m =
     (case box_page ops m of
        (None, m') \<Rightarrow> Panic
      | (Some b, m') \<Rightarrow>
          let m1 = fold (\<lambda>a. store_entry P a 0) (entry_slots b 0 512) m';
              m2 = fold (\<lambda>i s. store_entry P (b + 8 * of_nat i) (load_entry P (table + 8 * of_nat i) s) s)
                     [256..<512] m1
          in Done (b, m2))"

definition user_table_frame :: "env \<Rightarrow> 'm mem_ops \<Rightarrow> u64 \<Rightarrow> 'm \<Rightarrow> u64 outcome" where
  "user_table_frame e ops table m =
     and_then (unwrap (virt_new e table)) (\<lambda>vaddr.
     and_then (unwrap (translate_addr ops table vaddr m)) (\<lambda>paddr.
       unwrap (from_start_address e paddr)))"

text \<open>Dropping it: the tables below the lower half, but not the memory that is mapped there.\<close>

primrec unmap_worker :: "nat \<Rightarrow> env \<Rightarrow> 'm mem_ops \<Rightarrow> 'm pte_ops \<Rightarrow> u64 \<Rightarrow> 'm frames \<Rightarrow> 'm frames outcome" where
  "unmap_worker 0 e ops P a s =
     (let v = load_entry P a (hw s) in
      if \<not> has_flag e P pt_present v \<or> has_flag e P pt_huge v then Done s else Panic)"
| "unmap_worker (Suc n) e ops P a s =
     (let v = load_entry P a (hw s) in
      if \<not> has_flag e P pt_present v \<or> has_flag e P pt_huge v then Done s
      else and_then (if n \<noteq> 0
           then and_then (sub_table e P v) (\<lambda>t. for_each (unmap_worker n e ops P) (entry_slots t 0 512) s)
           else Done s)
         (deallocate_frame e ops (entry_addr P v)))"

definition user_table_drop :: "env \<Rightarrow> 'm mem_ops \<Rightarrow> 'm pte_ops \<Rightarrow> u64 \<Rightarrow> 'm frames \<Rightarrow> 'm frames outcome" where
  "user_table_drop e ops P table s =
     and_then (for_each (unmap_worker 3 e ops P) (entry_slots table 0 256) s) (\<lambda>s'.
       Done (s'\<lparr>hw := drop_box ops table (hw s')\<rparr>))"

section \<open>Walking the tables\<close>

text \<open>
  The walk of the processor for an address, from an entry with \<open>n\<close> levels below it: the entries it
  visits as long as they are present, and the entry that maps the address with its level.
\<close>

definition va_index :: "nat \<Rightarrow> u64 \<Rightarrow> nat" where
  "va_index n va = unat (drop_bit (12 + 9 * n) va AND 0x1FF)"

definition entry_slot :: "u64 \<Rightarrow> nat \<Rightarrow> u64 \<Rightarrow> u64" where
  "entry_slot table n va = table + 8 * of_nat (va_index n va)"

primrec leaf_of :: "nat \<Rightarrow> env \<Rightarrow> 'm pte_ops \<Rightarrow> u64 \<Rightarrow> u64 \<Rightarrow> 'm \<Rightarrow> (nat \<times> u64) option" where
  "leaf_of 0 e P va a m =
     (let v = load_entry P a m in if has_flag e P pt_present v then Some (0, v) else None)"
| "leaf_of (Suc n) e P va a m =
     (let v = load_entry P a m in
      if \<not> has_flag e P pt_present v then None
      else if has_flag e P pt_huge v then Some (Suc n, v)
      else (case sub_table e P v of Done t \<Rightarrow> leaf_of n e P va (entry_slot t n va) m | _ \<Rightarrow> None))"

primrec visited :: "nat \<Rightarrow> env \<Rightarrow> 'm pte_ops \<Rightarrow> u64 \<Rightarrow> u64 \<Rightarrow> 'm \<Rightarrow> u64 list" where
  "visited 0 e P va a m =
     (let v = load_entry P a m in if has_flag e P pt_present v then [v] else [])"
| "visited (Suc n) e P va a m =
     (let v = load_entry P a m in
      if \<not> has_flag e P pt_present v then []
      else v # (if has_flag e P pt_huge v then []
        else (case sub_table e P v of Done t \<Rightarrow> visited n e P va (entry_slot t n va) m | _ \<Rightarrow> [])))"

lemma va_index_less: "va_index n va < 512"
proof -
  have "drop_bit (12 + 9 * n) va AND 0x1FF \<le> (0x1FF :: u64)" by (rule word_and_le1)
  then have "unat (drop_bit (12 + 9 * n) va AND 0x1FF) \<le> unat (0x1FF :: u64)" by (simp add: word_le_nat_alt)
  then show ?thesis by (simp add: va_index_def)
qed

lemma entry_slot_in:
  assumes "i \<le> va_index n va" and "va_index n va < j"
  shows "entry_slot t n va \<in> set (entry_slots t i j)"
proof -
  have "va_index n va \<in> {i..<j}" using assms by simp
  then show ?thesis unfolding entry_slots_def entry_slot_def set_map set_upt by (rule imageI)
qed

lemma entry_slot_mem: "entry_slot t n va \<in> set (entry_slots t 0 512)"
  by (intro entry_slot_in va_index_less) simp

text \<open>The top entry of an address lies in the half of the table its highest bits say.\<close>

lemma va_index_top: "va_index 3 va = unat va div 2 ^ 39 mod 512"
proof -
  have "drop_bit 39 va AND 0x1FF = take_bit 9 (drop_bit 39 va)"
    by (simp add: take_bit_eq_mask mask_eq_exp_minus_1)
  then show ?thesis by (simp add: va_index_def unsigned_take_bit_eq unsigned_drop_bit_eq
      take_bit_eq_mod drop_bit_eq_div unat_mod_distrib unat_div_distrib)
qed

lemma lower_index:
  assumes "va < lower_end"
  shows "va_index 3 va < 256"
proof -
  have "unat va < 2 ^ 47" using assms by (simp add: lower_end_def word_less_nat_alt)
  then have "unat va div 2 ^ 39 < 256" by (simp add: less_mult_imp_div_less)
  then show ?thesis by (simp add: va_index_top)
qed

lemma upper_index:
  assumes "upper_half \<le> va"
  shows "256 \<le> va_index 3 va"
proof -
  have "0xFFFF800000000000 \<le> unat va" using assms by (simp add: upper_half_def word_le_nat_alt)
  moreover have "unat va < 2 ^ 64" using unat_lt_2p64 [of va] by simp
  ultimately have "33554176 \<le> unat va div 2 ^ 39" "unat va div 2 ^ 39 < 33554432"
    using div_le_mono [of "0xFFFF800000000000" "unat va" "2 ^ 39"] by (simp_all add: less_mult_imp_div_less)
  moreover have "256 \<le> x mod 512" if "33554176 \<le> x" "x < 33554432" for x :: nat
  proof -
    define y where "y = x - 33553920"
    from that have y: "x = y + 65535 * 512" "256 \<le> y" "y < 512" by (simp_all add: y_def)
    have "x mod 512 = y mod 512" unfolding y(1) by (rule mod_mult_self1)
    also have "\<dots> = y" using y(3) by (rule mod_less)
    finally show ?thesis using y(2) by (simp only:)
  qed
  ultimately have "256 \<le> unat va div 2 ^ 39 mod 512" by blast
  then show ?thesis by (simp add: va_index_top)
qed

lemma lower_entry: "va < lower_end \<Longrightarrow> entry_slot t 3 va \<in> set (entry_slots t 0 256)"
  by (intro entry_slot_in lower_index) simp_all

lemma upper_entry: "upper_half \<le> va \<Longrightarrow> entry_slot t 3 va \<in> set (entry_slots t 256 512)"
  by (intro entry_slot_in upper_index va_index_less)

lemma Suc_two: "Suc 2 = 3"
  by simp

lemmas top_level = leaf_of.simps(2) [of 2, unfolded Suc_two] visited.simps(2) [of 2, unfolded Suc_two]
  clear_leaf.simps(2) [of 2, unfolded Suc_two] globalize_leaf.simps(2) [of 2, unfolded Suc_two]

section \<open>Running through a table\<close>

text \<open>
  Steps that only move along a preorder, each establishing a fact that later steps keep,
  establish all their facts.
\<close>

lemma for_each_all:
  assumes "for_each f xs s = Done s'"
    and step: "\<And>x s s'. x \<in> set xs \<Longrightarrow> f x s = Done s' \<Longrightarrow> R s s' \<and> Q x s'"
    and keep: "\<And>x s s'. R s s' \<Longrightarrow> Q x s \<Longrightarrow> Q x s'"
    and refl: "\<And>s. R s s" and trans: "\<And>s t u. R s t \<Longrightarrow> R t u \<Longrightarrow> R s u"
  shows "R s s' \<and> (\<forall>x \<in> set xs. Q x s')"
  using assms(1) step
proof (induction xs arbitrary: s)
  case Nil
  then show ?case using refl by simp
next
  case (Cons x xs)
  from Cons.prems(1) obtain s1 where s1: "f x s = Done s1" "for_each f xs s1 = Done s'"
    by (auto simp: and_then_eq_Done)
  from Cons.prems(2) [of x s s1] s1(1) have 1: "R s s1" "Q x s1" by auto
  from Cons.IH [OF s1(2)] Cons.prems(2) have 2: "R s1 s'" "\<forall>y \<in> set xs. Q y s'" by auto
  from 1 2 trans keep show ?case by auto
qed

section \<open>After the clean up\<close>

lemma pte_simps:
  assumes "pte_ok P"
  shows "load_entry P b (store_entry P a v m) = (if b = a then v else load_entry P b m)"
    and "entry_addr P (set_flags P v f) = entry_addr P v"
    and "f AND pt_flag_mask = f \<Longrightarrow> entry_flags P (set_flags P v f) = f"
    and "entry_flags P v AND pt_flag_mask = entry_flags P v" and "entry_flags P 0 = 0"
  using assms by (simp_all add: pte_ok_def)

lemma has_flag_iff: "bitflags_ok e \<Longrightarrow> has_flag e P f v \<longleftrightarrow> entry_flags P v AND f = f"
  by (simp add: has_flag_def bitflags_ok_def)

lemma and_mask_sub: "f AND m = f \<Longrightarrow> (f AND x) AND m = f AND x" for f m x :: u64
  by (metis and.assoc and.commute)

lemma flags_clear_present:
  assumes "pte_ok P" and "bitflags_ok e"
  shows "entry_flags P (set_flags P v (entry_flags P v AND NOT pt_present)) = entry_flags P v AND NOT pt_present"
    and "\<not> has_flag e P pt_present (set_flags P v (entry_flags P v AND NOT pt_present))"
proof -
  show f: "entry_flags P (set_flags P v (entry_flags P v AND NOT pt_present)) = entry_flags P v AND NOT pt_present"
    using assms(1) by (intro pte_simps(3) and_mask_sub pte_simps(4))
  have "(x AND NOT pt_present) AND pt_present = 0" for x :: u64 by (simp add: and.assoc)
  then show "\<not> has_flag e P pt_present (set_flags P v (entry_flags P v AND NOT pt_present))"
    by (simp add: has_flag_iff [OF assms(2)] f) (simp add: pt_present_def)
qed

text \<open>The clean up takes entries away and changes no other.\<close>

definition cleared :: "env \<Rightarrow> 'm pte_ops \<Rightarrow> 'm \<Rightarrow> 'm \<Rightarrow> bool" where
  "cleared e P m m' \<longleftrightarrow>
     (\<forall>a. load_entry P a m' = load_entry P a m \<or> \<not> has_flag e P pt_present (load_entry P a m'))"

lemma cleared_refl: "cleared e P m m"
  by (simp add: cleared_def)

lemma cleared_trans: "cleared e P m m1 \<Longrightarrow> cleared e P m1 m2 \<Longrightarrow> cleared e P m m2"
  unfolding cleared_def by metis

lemma leaf_of_cleared:
  "cleared e P m m' \<Longrightarrow> leaf_of n e P va a m' = Some x \<Longrightarrow> leaf_of n e P va a m = Some x"
proof (induction n arbitrary: a)
  case 0
  from 0(2) have "has_flag e P pt_present (load_entry P a m')" by (simp add: Let_def split: if_splits)
  with 0(1) have "load_entry P a m' = load_entry P a m" unfolding cleared_def by metis
  with 0(2) show ?case by (simp add: Let_def)
next
  case (Suc n)
  from Suc.prems(2) have pres: "has_flag e P pt_present (load_entry P a m')"
    by (auto simp: Let_def split: if_splits)
  with Suc.prems(1) have same: "load_entry P a m' = load_entry P a m" unfolding cleared_def by metis
  from Suc.prems(2) pres show ?case
    by (auto simp: Let_def same split: if_splits outcome.splits intro: Suc.IH [OF Suc.prems(1)])
qed

text \<open>What may be left: a huge page that is not global.\<close>

definition only_huge :: "env \<Rightarrow> 'm pte_ops \<Rightarrow> (nat \<times> u64) option \<Rightarrow> bool" where
  "only_huge e P x \<longleftrightarrow> (case x of None \<Rightarrow> True
     | Some (n, v) \<Rightarrow> n \<noteq> 0 \<and> has_flag e P pt_huge v \<and> \<not> has_flag e P pt_global v)"

lemma only_huge_cleared:
  "cleared e P m m' \<Longrightarrow> only_huge e P (leaf_of n e P va a m) \<Longrightarrow> only_huge e P (leaf_of n e P va a m')"
  using leaf_of_cleared [of e P m m' n va a] by (cases "leaf_of n e P va a m'") (auto simp: only_huge_def)

lemma cleared_store:
  assumes "pte_ok P" and "bitflags_ok e"
  shows "cleared e P m (store_entry P a (set_flags P v (entry_flags P v AND NOT pt_present)) m)"
  using flags_clear_present(2) [OF assms] by (simp add: cleared_def pte_simps(1) [OF assms(1)])

lemma clear_leaf_clears:
  assumes ok: "pte_ok P" "bitflags_ok e" and "clear_leaf n e P a m = Done m'"
  shows "cleared e P m m' \<and> (\<forall>va. only_huge e P (leaf_of n e P va a m'))"
  using assms(3)
proof (induction n arbitrary: a m m')
  case 0
  then show ?case
    using cleared_store [OF ok] flags_clear_present(2) [OF ok]
    by (auto simp: Let_def cleared_refl only_huge_def pte_simps(1) [OF ok(1)] split: if_splits)
next
  case (Suc n)
  let ?v = "load_entry P a m"
  consider (absent) "\<not> has_flag e P pt_present ?v" "m' = m"
    | (unset) "m' = store_entry P a (set_flags P ?v (entry_flags P ?v AND NOT pt_present)) m"
    | (table) t where "\<not> has_flag e P pt_global ?v" "sub_table e P ?v = Done t"
        "for_each (clear_leaf n e P) (entry_slots t 0 512) m = Done m'"
    using Suc.prems by (auto simp: Let_def and_then_eq_Done split: if_splits)
  then show ?case
  proof cases
    case absent
    then show ?thesis by (simp add: cleared_refl only_huge_def)
  next
    case unset
    then show ?thesis
      using cleared_store [OF ok] flags_clear_present(2) [OF ok]
      by (simp add: pte_simps(1) [OF ok(1)] only_huge_def Let_def)
  next
    case table
    have all: "cleared e P m m' \<and>
        (\<forall>x \<in> set (entry_slots t 0 512). \<forall>va. only_huge e P (leaf_of n e P va x m'))"
    proof (rule for_each_all [OF table(3), where R = "cleared e P"
          and Q = "\<lambda>x m. \<forall>va. only_huge e P (leaf_of n e P va x m)"])
      show "cleared e P s s' \<and> (\<forall>va. only_huge e P (leaf_of n e P va x s'))"
        if "clear_leaf n e P x s = Done s'" for x s s' using Suc.IH [OF that] .
      show "\<forall>va. only_huge e P (leaf_of n e P va x s')"
        if "cleared e P s s'" "\<forall>va. only_huge e P (leaf_of n e P va x s)" for x s s'
        using that(2) by (blast intro: only_huge_cleared [OF that(1)])
    qed (rule cleared_refl, rule cleared_trans)
    have "only_huge e P (leaf_of (Suc n) e P va a m')" for va
    proof (cases "load_entry P a m' = ?v")
      case True
      with table(1,2) all entry_slot_mem [of t n va] show ?thesis by (auto simp: Let_def only_huge_def)
    next
      case False
      with all have "\<not> has_flag e P pt_present (load_entry P a m')" by (auto simp: cleared_def)
      then show ?thesis by (simp add: only_huge_def)
    qed
    with all show ?thesis by blast
  qed
qed

section \<open>After globalizing\<close>

text \<open>Only the global bit is set; the walks stay as they are.\<close>

definition marked :: "'m pte_ops \<Rightarrow> 'm \<Rightarrow> 'm \<Rightarrow> bool" where
  "marked P m m' \<longleftrightarrow> (\<forall>a. entry_addr P (load_entry P a m') = entry_addr P (load_entry P a m) \<and>
     entry_flags P (load_entry P a m') \<in>
       {entry_flags P (load_entry P a m), entry_flags P (load_entry P a m) OR pt_global})"

lemma marked_refl: "marked P m m"
  by (simp add: marked_def)

lemma marked_trans:
  assumes "marked P m m1" and "marked P m1 m2"
  shows "marked P m m2"
  unfolding marked_def
proof (rule allI)
  fix a
  have "entry_addr P (load_entry P a m1) = entry_addr P (load_entry P a m)"
    "entry_flags P (load_entry P a m1) = entry_flags P (load_entry P a m) \<or>
     entry_flags P (load_entry P a m1) = entry_flags P (load_entry P a m) OR pt_global"
    "entry_addr P (load_entry P a m2) = entry_addr P (load_entry P a m1)"
    "entry_flags P (load_entry P a m2) = entry_flags P (load_entry P a m1) \<or>
     entry_flags P (load_entry P a m2) = entry_flags P (load_entry P a m1) OR pt_global"
    using assms by (auto simp: marked_def)
  then show "entry_addr P (load_entry P a m2) = entry_addr P (load_entry P a m) \<and>
    entry_flags P (load_entry P a m2) \<in>
      {entry_flags P (load_entry P a m), entry_flags P (load_entry P a m) OR pt_global}"
    by (auto simp: or.assoc)
qed

lemma marked_flags:
  assumes "marked P m m'" and "bitflags_ok e"
  shows "has_flag e P pt_present (load_entry P a m') = has_flag e P pt_present (load_entry P a m)"
    and "has_flag e P pt_huge (load_entry P a m') = has_flag e P pt_huge (load_entry P a m)"
    and "has_flag e P pt_global (load_entry P a m) \<Longrightarrow> has_flag e P pt_global (load_entry P a m')"
    and "sub_table e P (load_entry P a m') = sub_table e P (load_entry P a m)"
proof -
  have g: "(f OR pt_global) AND pt_present = f AND pt_present" "(f OR pt_global) AND pt_huge = f AND pt_huge"
    "(f OR pt_global) AND pt_global = pt_global" for f :: u64
    by (simp_all add: pt_bits bit.conj_disj_distrib2)
  from assms(1) have "entry_addr P (load_entry P a m') = entry_addr P (load_entry P a m)"
    "entry_flags P (load_entry P a m') = entry_flags P (load_entry P a m) \<or>
     entry_flags P (load_entry P a m') = entry_flags P (load_entry P a m) OR pt_global"
    by (auto simp: marked_def)
  then show "has_flag e P pt_present (load_entry P a m') = has_flag e P pt_present (load_entry P a m)"
    "has_flag e P pt_huge (load_entry P a m') = has_flag e P pt_huge (load_entry P a m)"
    "has_flag e P pt_global (load_entry P a m) \<Longrightarrow> has_flag e P pt_global (load_entry P a m')"
    "sub_table e P (load_entry P a m') = sub_table e P (load_entry P a m)"
    by (auto simp: has_flag_iff [OF assms(2)] sub_table_def g)
qed

definition all_global :: "nat \<Rightarrow> env \<Rightarrow> 'm pte_ops \<Rightarrow> u64 \<Rightarrow> u64 \<Rightarrow> 'm \<Rightarrow> bool" where
  "all_global n e P va a m \<longleftrightarrow> (\<forall>v \<in> set (visited n e P va a m). has_flag e P pt_global v)"

lemma all_global_marked:
  assumes "bitflags_ok e" and "marked P m m'"
  shows "all_global n e P va a m \<Longrightarrow> all_global n e P va a m'"
proof (induction n arbitrary: a)
  case 0
  then show ?case using marked_flags [OF assms(2,1)] by (auto simp: all_global_def Let_def)
next
  case (Suc n)
  then show ?case
    using marked_flags [OF assms(2,1)] unfolding all_global_def
    by (auto simp: Let_def split: outcome.splits if_splits)
qed

lemma mark_global_marks:
  assumes "pte_ok P" and "bitflags_ok e"
  shows "marked P m (mark_global e P a m)"
    and "has_flag e P pt_global (load_entry P a (mark_global e P a m))"
proof -
  let ?v = "load_entry P a m"
  have "(entry_flags P ?v OR pt_global) AND pt_flag_mask = entry_flags P ?v OR pt_global"
    using pte_simps(4) [OF assms(1), of ?v] by (simp add: bit.conj_disj_distrib2) (simp add: pt_bits pt_flag_mask_def)
  from pte_simps(3) [OF assms(1) this]
  have f: "entry_flags P (set_flags P ?v (entry_flags P ?v OR pt_global)) = entry_flags P ?v OR pt_global" .
  show "marked P m (mark_global e P a m)"
    using f by (auto simp: marked_def mark_global_def Let_def pte_simps(1,2) [OF assms(1)])
  show "has_flag e P pt_global (load_entry P a (mark_global e P a m))"
    by (auto simp: mark_global_def Let_def pte_simps(1) [OF assms(1)] has_flag_iff [OF assms(2)] f
        bit.conj_disj_distrib2)
qed

lemma globalize_leaf_marks:
  assumes ok: "pte_ok P" "bitflags_ok e" and "globalize_leaf n e P a m = Done m'"
  shows "marked P m m' \<and> (\<forall>va. all_global n e P va a m')"
  using assms(3)
proof (induction n arbitrary: a m m')
  case 0
  then show ?case
    using mark_global_marks [OF ok] by (auto simp: Let_def marked_refl all_global_def split: if_splits)
next
  case (Suc n)
  let ?m1 = "mark_global e P a m"
  note mark = mark_global_marks [OF ok, where m = m and a = a]
  consider (absent) "\<not> has_flag e P pt_present (load_entry P a m)" "m' = m"
    | (huge) "has_flag e P pt_huge (load_entry P a ?m1)" "m' = ?m1"
    | (table) t where "sub_table e P (load_entry P a ?m1) = Done t"
        "for_each (globalize_leaf n e P) (entry_slots t 0 512) ?m1 = Done m'"
  proof (cases "has_flag e P pt_present (load_entry P a m)")
    case False
    then have "globalize_leaf (Suc n) e P a m = Done m" by (simp only: globalize_leaf.simps) simp
    then have "m' = m" using Suc.prems by simp
    with False show ?thesis by (rule absent)
  next
    case present: True
    show ?thesis
    proof (cases "has_flag e P pt_huge (load_entry P a ?m1)")
      case True
      with present have "globalize_leaf (Suc n) e P a m = Done ?m1" by (simp add: Let_def)
      then have "m' = ?m1" using Suc.prems by simp
      with True show ?thesis by (rule huge)
    next
      case False
      with Suc.prems present
      have "and_then (sub_table e P (load_entry P a ?m1))
          (\<lambda>t. for_each (globalize_leaf n e P) (entry_slots t 0 512) ?m1) = Done m'" by (simp add: Let_def)
      then show ?thesis unfolding and_then_eq_Done using table by blast
    qed
  qed
  then show ?case
  proof cases
    case absent
    then show ?thesis by (simp add: marked_refl all_global_def)
  next
    case huge
    with mark show ?thesis by (simp add: all_global_def Let_def)
  next
    case table
    have all: "marked P ?m1 m' \<and>
        (\<forall>x \<in> set (entry_slots t 0 512). \<forall>va. all_global n e P va x m')"
    proof (rule for_each_all [OF table(2), where R = "marked P" and Q = "\<lambda>x m. \<forall>va. all_global n e P va x m"])
      show "marked P s s' \<and> (\<forall>va. all_global n e P va x s')"
        if "globalize_leaf n e P x s = Done s'" for x s s' using Suc.IH [OF that] .
      show "\<forall>va. all_global n e P va x s'"
        if "marked P s s'" "\<forall>va. all_global n e P va x s" for x s s'
        using that(2) by (blast intro: all_global_marked [OF ok(2) that(1)])
    qed (rule marked_refl, rule marked_trans)
    note flags = marked_flags [OF conjunct1 [OF all] ok(2), of a]
    have "all_global (Suc n) e P va a m'" for va
    proof -
      have "all_global n e P va (entry_slot t n va) m'" 
        by (rule spec [OF bspec [OF conjunct2 [OF all] entry_slot_mem]])
      then show ?thesis
        using flags(3) [OF mark(2)] by (simp add: all_global_def flags(4) table(1) Let_def)
    qed
    moreover have "marked P m m'" by (rule marked_trans [OF mark(1) conjunct1 [OF all]])
    ultimately show ?thesis by blast
  qed
qed

section \<open>A new table\<close>

lemma load_zeroed:
  assumes "pte_ok P"
  shows "load_entry P a (fold (\<lambda>x. store_entry P x 0) xs m) = (if a \<in> set xs then 0 else load_entry P a m)"
  by (induction xs arbitrary: m) (auto simp: pte_simps(1) [OF assms])

lemma load_copied:
  assumes "pte_ok P" and "\<forall>i \<in> set is. \<forall>j \<in> set is. b + 8 * of_nat i \<noteq> t + 8 * of_nat j"
    and "inj_on (\<lambda>i. b + 8 * of_nat i) (set is)" and "distinct is"
  defines "copy \<equiv> \<lambda>i s. store_entry P (b + 8 * of_nat i) (load_entry P (t + 8 * of_nat i) s) s"
  shows "(a \<notin> (\<lambda>i. b + 8 * of_nat i) ` set is \<longrightarrow> load_entry P a (fold copy is m) = load_entry P a m) \<and>
    (\<forall>i \<in> set is. load_entry P (b + 8 * of_nat i) (fold copy is m) = load_entry P (t + 8 * of_nat i) m)"
  using assms(2-4)
proof (induction "is" arbitrary: m a)
  case Nil
  then show ?case by simp
next
  case (Cons i "is")
  have step: "load_entry P x (copy i m) = (if x = b + 8 * of_nat i then load_entry P (t + 8 * of_nat i) m else load_entry P x m)" for x
    by (simp add: copy_def pte_simps(1) [OF assms(1)])
  have IH: "x \<notin> (\<lambda>i. b + 8 * of_nat i) ` set is \<Longrightarrow> load_entry P x (fold copy is (copy i m)) = load_entry P x (copy i m)"
    "j \<in> set is \<Longrightarrow> load_entry P (b + 8 * of_nat j) (fold copy is (copy i m)) = load_entry P (t + 8 * of_nat j) (copy i m)" for x j
  proof -
    have "\<forall>k \<in> set is. \<forall>j \<in> set is. b + 8 * of_nat k \<noteq> t + 8 * of_nat j" "distinct is"
      "inj_on (\<lambda>i. b + 8 * of_nat i) (set is)"
      using Cons.prems by simp_all
    from Cons.IH [OF this(1,3,2), of x "copy i m"]
    show "x \<notin> (\<lambda>i. b + 8 * of_nat i) ` set is \<Longrightarrow> load_entry P x (fold copy is (copy i m)) = load_entry P x (copy i m)"
      "j \<in> set is \<Longrightarrow> load_entry P (b + 8 * of_nat j) (fold copy is (copy i m)) = load_entry P (t + 8 * of_nat j) (copy i m)"
      by blast+
  qed
  have new: "b + 8 * of_nat i \<notin> (\<lambda>i. b + 8 * of_nat i) ` set is"
    using Cons.prems(2,3) by simp
  have t: "t + 8 * of_nat j \<noteq> b + 8 * of_nat i" if "j \<in> set is" for j
    using Cons.prems(1) that by (metis list.set_intros)
  show ?case
    using IH(1) [of a] IH(1) [OF new] IH(2) t by (simp add: step)
qed

text \<open>The new box does not overlap the table it is made from, whose entries its allocation keeps.\<close>

definition box_apart :: "'m pte_ops \<Rightarrow> u64 \<Rightarrow> u64 \<Rightarrow> 'm \<Rightarrow> 'm \<Rightarrow> bool" where
  "box_apart P b t m m0 \<longleftrightarrow>
     (\<forall>i < 512. \<forall>j < 512. b + 8 * of_nat i \<noteq> t + 8 * of_nat j) \<and>
     (\<forall>i < 512. load_entry P (t + 8 * of_nat i) m0 = load_entry P (t + 8 * of_nat i) m)"

lemma slots_inj: "inj_on (\<lambda>i. b + 8 * of_nat i :: u64) {0..<512}"
proof (rule inj_onI)
  fix i j :: nat
  assume "i \<in> {0..<512}" "j \<in> {0..<512}" "b + 8 * of_nat i = b + 8 * of_nat j"
  then show "i = j" by (intro eight_times_inj) simp_all
qed

lemma new_table_entries:
  assumes "pte_ok P" and "box_page ops m = (Some b, m0)" and "box_apart P b t m m0"
    and "user_table_new_from ops P t m = Done (b', m')"
  shows "b' = b" and "i < 512 \<Longrightarrow> load_entry P (b + 8 * of_nat i) m' = (if i < 256 then 0 else load_entry P (t + 8 * of_nat i) m)"
    and "a \<notin> set (entry_slots b 0 512) \<Longrightarrow> load_entry P a m' = load_entry P a m0"
proof -
  define m1 where "m1 = fold (\<lambda>a. store_entry P a 0) (entry_slots b 0 512) m0"
  define copy where "copy = (\<lambda>i s. store_entry P (b + 8 * of_nat i) (load_entry P (t + 8 * of_nat i) s) s)"
  have r: "b' = b" "m' = fold copy [256..<512] m1"
    using assms(2,4) by (auto simp: user_table_new_from_def m1_def copy_def Let_def)
  show "b' = b" by (rule r)
  have apart: "\<forall>i \<in> set [256..<512]. \<forall>j \<in> set [256..<512]. b + 8 * of_nat i \<noteq> t + 8 * of_nat j"
    using assms(3) unfolding box_apart_def set_upt by (meson atLeastLessThan_iff)
  have inj: "inj_on (\<lambda>i. b + 8 * of_nat i) (set [256..<512])"
    by (rule inj_on_subset [OF slots_inj]) auto
  note copied = load_copied [OF assms(1) apart inj distinct_upt, of _ m1, folded copy_def, folded r(2)]
  have m1: "load_entry P a m1 = (if a \<in> set (entry_slots b 0 512) then 0 else load_entry P a m0)" for a
    unfolding m1_def by (rule load_zeroed [OF assms(1)])
  have tslot: "t + 8 * of_nat i \<notin> set (entry_slots b 0 512)" if "i < 512" for i
    using assms(3) that unfolding box_apart_def entry_slots_def by force
  show "load_entry P (b + 8 * of_nat i) m' = (if i < 256 then 0 else load_entry P (t + 8 * of_nat i) m)" if i: "i < 512"
  proof (cases "i < 256")
    case True
    have "b + 8 * of_nat i \<notin> (\<lambda>i. b + 8 * of_nat i) ` set [256..<512]"
    proof
      assume "b + 8 * of_nat i \<in> (\<lambda>i. b + 8 * of_nat i) ` set [256..<512]"
      then obtain j :: nat where "j \<in> {256..<512}" "b + 8 * of_nat i = b + 8 * of_nat j" by auto
      with inj_onD [OF slots_inj this(2)] i True show False by simp
    qed
    with copied have "load_entry P (b + 8 * of_nat i) m' = load_entry P (b + 8 * of_nat i) m1" by blast
    moreover have "b + 8 * of_nat i \<in> set (entry_slots b 0 512)" using i by (simp add: entry_slots_def)
    ultimately show ?thesis using True by (simp add: m1)
  next
    case False
    with i have "i \<in> set [256..<512]" by simp
    with copied have "load_entry P (b + 8 * of_nat i) m' = load_entry P (t + 8 * of_nat i) m1" by blast
    also have "\<dots> = load_entry P (t + 8 * of_nat i) m"
      using assms(3) i tslot [OF i] by (simp add: m1 box_apart_def)
    finally show ?thesis using False by simp
  qed
  show "load_entry P a m' = load_entry P a m0" if "a \<notin> set (entry_slots b 0 512)"
  proof -
    have "a \<notin> (\<lambda>i. b + 8 * of_nat i) ` set [256..<512]" using that by (auto simp: entry_slots_def)
    with copied have "load_entry P a m' = load_entry P a m1" by blast
    with that show ?thesis by (simp add: m1)
  qed
qed

lemma clean_up_clears:
  assumes "pte_ok P" and "bitflags_ok e"
    and "fix_bootloader_pollution e P cr3 m = Done m'" and "get_page_table e cr3 = Done t"
  shows "(\<forall>va < lower_end. only_huge e P (leaf_of 3 e P va (entry_slot t 3 va) m')) \<and> cleared e P m m'"
proof -
  from assms(3,4) have run: "for_each (clear_leaf 3 e P) (entry_slots t 0 256) m = Done m'"
    by (simp add: fix_bootloader_pollution_def)
  have "cleared e P m m' \<and>
    (\<forall>x \<in> set (entry_slots t 0 256). \<forall>va. only_huge e P (leaf_of 3 e P va x m'))"
  proof (rule for_each_all [OF run, where R = "cleared e P"
        and Q = "\<lambda>x m. \<forall>va. only_huge e P (leaf_of 3 e P va x m)"])
    show "cleared e P s s' \<and> (\<forall>va. only_huge e P (leaf_of 3 e P va x s'))"
      if "clear_leaf 3 e P x s = Done s'" for x s s' using clear_leaf_clears [OF assms(1,2) that] .
    show "\<forall>va. only_huge e P (leaf_of 3 e P va x s')"
      if "cleared e P s s'" "\<forall>va. only_huge e P (leaf_of 3 e P va x s)" for x s s'
      using that(2) by (blast intro: only_huge_cleared [OF that(1)])
  qed (rule cleared_refl, rule cleared_trans)
  then show ?thesis by (metis lower_entry)
qed

text \<open>The global bit changes no walk.\<close>

lemma leaf_of_marked:
  assumes "bitflags_ok e" and "marked P m m'"
  shows "map_option fst (leaf_of n e P va a m') = map_option fst (leaf_of n e P va a m)"
proof (induction n arbitrary: a)
  case 0
  then show ?case using marked_flags [OF assms(2,1)] by (simp add: Let_def)
next
  case (Suc n)
  then show ?case
    using marked_flags [OF assms(2,1)] by (simp add: Let_def split: outcome.split)
qed

section \<open>Properties\<close>

text \<open>
  C33: After the clean up nothing the bootloader left is mapped in the lower half: an address there
  has no translation, unless by a huge page without the global bit, which the clean up takes for
  a table. Every entry, of any table, is either as it was or no longer present.
\<close>
theorem lower_half_cleared:
  assumes "pte_ok P" and "bitflags_ok e"
    and "fix_bootloader_pollution e P cr3 m = Done m'" and "get_page_table e cr3 = Done t"
  shows "(\<forall>va < lower_end. only_huge e P (leaf_of 3 e P va (entry_slot t 3 va) m')) \<and> cleared e P m m'"
  by (rule clean_up_clears [OF assms])

text \<open>
  After \<open>globalize_kernelspace\<close> every entry on the way to an address of the upper half has the
  global bit, so that the kernel stays in the translation cache over a switch of page tables; and
  the translations of all addresses are, but for that bit, the ones from before.
\<close>
theorem upper_half_global:
  assumes "pte_ok P" and "bitflags_ok e"
    and "globalize_kernelspace e P cr3 m = Done m'" and "get_page_table e cr3 = Done t"
  shows "(\<forall>va \<ge> upper_half. all_global 3 e P va (entry_slot t 3 va) m') \<and> marked P m m'"
proof -
  from assms(3,4) have run: "for_each (globalize_leaf 3 e P) (entry_slots t 256 512) m = Done m'"
    by (simp add: globalize_kernelspace_def)
  have "marked P m m' \<and>
    (\<forall>x \<in> set (entry_slots t 256 512). \<forall>va. all_global 3 e P va x m')"
  proof (rule for_each_all [OF run, where R = "marked P" and Q = "\<lambda>x m. \<forall>va. all_global 3 e P va x m"])
    show "marked P s s' \<and> (\<forall>va. all_global 3 e P va x s')"
      if "globalize_leaf 3 e P x s = Done s'" for x s s' using globalize_leaf_marks [OF assms(1,2) that] .
    show "\<forall>va. all_global 3 e P va x s'"
      if "marked P s s'" "\<forall>va. all_global 3 e P va x s" for x s s'
      using that(2) by (blast intro: all_global_marked [OF assms(2) that(1)])
  qed (rule marked_refl, rule marked_trans)
  then show ?thesis by (metis upper_entry)
qed

text \<open>
  C34: The page table of a new task. Nothing is mapped in its lower half, and it shares the kernel
  half with the table it is made from: an address of the upper half leads to the same entry in
  both, through the same subtables.
\<close>
theorem new_table_shares_kernel_half:
  assumes "pte_ok P" and "bitflags_ok e" and "box_page ops m = (Some b, m0)" and "box_apart P b t m m0"
    and "user_table_new_from ops P t m = Done (b', m')"
  shows "b' = b \<and>
    (\<forall>va < lower_end. leaf_of 3 e P va (entry_slot b 3 va) m' = None) \<and>
    (\<forall>va \<ge> upper_half. leaf_of 3 e P va (entry_slot b 3 va) m' = leaf_of 3 e P va (entry_slot t 3 va) m')"
proof (intro conjI allI impI)
  note new = new_table_entries [OF assms(1,3-5)]
  show "b' = b" by (rule new)
  show "leaf_of 3 e P va (entry_slot b 3 va) m' = None" if "va < lower_end" for va
  proof -
    have "va_index 3 va < 256" using lower_index [OF that] .
    then have "load_entry P (entry_slot b 3 va) m' = 0" by (simp add: entry_slot_def new(2))
    then show ?thesis
      by (simp add: top_level has_flag_iff [OF assms(2)] pte_simps(5) [OF assms(1)]) (simp add: pt_present_def)
  qed
  show "leaf_of 3 e P va (entry_slot b 3 va) m' = leaf_of 3 e P va (entry_slot t 3 va) m'"
    if "upper_half \<le> va" for va
  proof -
    have i: "256 \<le> va_index 3 va" "va_index 3 va < 512" using upper_index [OF that] va_index_less by auto
    have "entry_slot t 3 va \<notin> set (entry_slots b 0 512)"
      using assms(4) i(2) unfolding box_apart_def entry_slots_def entry_slot_def by force
    then have "load_entry P (entry_slot t 3 va) m' = load_entry P (entry_slot t 3 va) m"
      using new(3) assms(4) i(2) by (simp add: box_apart_def entry_slot_def)
    with i have "load_entry P (entry_slot b 3 va) m' = load_entry P (entry_slot t 3 va) m'"
      by (simp add: entry_slot_def new(2))
    then show ?thesis by (simp add: top_level)
  qed
qed

section \<open>Examples\<close>

text \<open>A level 4 table at the physical address 0x1000, with one global entry in each half.\<close>

definition example_table :: u64 where "example_table = 0xFFFFA00000001000"

definition example_entries :: "u64 \<Rightarrow> u64" where
  "example_entries = (\<lambda>_. 0)(example_table := 0x5103, example_table + 8 * 256 := 0x7083)"

lemma example_walk: "get_page_table (documented_env True) 0x1000 = Done example_table"
  by (simp add: get_page_table_def documented_env_def physical_memory_offset_def kernel_addresses
      sign_extend_47_def canonical_def example_table_def)

lemma for_each_idle: "\<forall>x \<in> set xs. f x s = Done s \<Longrightarrow> for_each f xs s = Done s"
  by (induction xs) auto

lemma slots_Cons: "i < j \<Longrightarrow> entry_slots t i j = (t + 8 * of_nat i) # entry_slots t (Suc i) j"
  by (simp add: entry_slots_def upt_conv_Cons)

lemma slot_ne: "x \<in> set (entry_slots t i j) \<Longrightarrow> k < i \<or> j \<le> k \<Longrightarrow> k < 512 \<Longrightarrow> j \<le> 512 \<Longrightarrow> x \<noteq> t + 8 * of_nat k"
  using inj_onD [OF slots_inj, of t] by (fastforce simp: entry_slots_def)

theorem lower_half_cleared_witness:
  "\<exists>m'. fix_bootloader_pollution (documented_env True) word_ptes 0x1000 example_entries = Done m' \<and>
     only_huge (documented_env True) word_ptes
       (leaf_of 3 (documented_env True) word_ptes 0x1234 (entry_slot example_table 3 0x1234) m')"
proof -
  let ?e = "documented_env True"
  let ?m = "example_entries(example_table := 0x5102)"
  have "clear_leaf 3 ?e word_ptes example_table example_entries = Done ?m"
    by (simp add: top_level Let_def has_flag_def word_ptes_def documented_env_def example_entries_def pt_bits pt_flag_mask_def
        example_table_def)
  moreover have "for_each (clear_leaf 3 ?e word_ptes) (entry_slots example_table 1 256) ?m = Done ?m"
  proof (rule for_each_idle, rule ballI)
    fix x
    assume x: "x \<in> set (entry_slots example_table 1 256)"
    have "x \<noteq> example_table + 8 * of_nat 0" "x \<noteq> example_table + 8 * of_nat 256"
      by (rule slot_ne [OF x]; simp)+
    then have "?m x = 0" by (simp add: example_entries_def)
    then show "clear_leaf 3 ?e word_ptes x ?m = Done ?m"
      by (simp add: top_level has_flag_def word_ptes_def documented_env_def pt_bits)
  qed
  ultimately have "fix_bootloader_pollution ?e word_ptes 0x1000 example_entries = Done ?m"
    by (simp add: fix_bootloader_pollution_def example_walk slots_Cons [of 0])
  with lower_half_cleared [OF word_ptes_ok documented_bitflags this example_walk] show ?thesis
    by (auto simp: lower_end_def)
qed

theorem upper_half_global_witness:
  "\<exists>m'. globalize_kernelspace (documented_env True) word_ptes 0x1000 example_entries = Done m' \<and>
     all_global 3 (documented_env True) word_ptes upper_half (entry_slot example_table 3 upper_half) m'"
proof -
  let ?e = "documented_env True"
  let ?m = "example_entries(example_table + 8 * 256 := 0x7183)"
  have "mark_global ?e word_ptes (example_table + 8 * 256) example_entries = ?m"
    by (simp add: mark_global_def Let_def has_flag_def word_ptes_def documented_env_def example_entries_def
        pt_bits pt_flag_mask_def example_table_def)
  then have "globalize_leaf 3 ?e word_ptes (example_table + 8 * 256) example_entries = Done ?m"
    by (simp add: top_level Let_def has_flag_def word_ptes_def documented_env_def pt_bits pt_flag_mask_def)
       (simp add: example_entries_def)
  moreover have "for_each (globalize_leaf 3 ?e word_ptes) (entry_slots example_table 257 512) ?m = Done ?m"
  proof (rule for_each_idle, rule ballI)
    fix x
    assume x: "x \<in> set (entry_slots example_table 257 512)"
    have "x \<noteq> example_table + 8 * of_nat 0" "x \<noteq> example_table + 8 * of_nat 256"
      by (rule slot_ne [OF x]; simp)+
    then have "?m x = 0" by (simp add: example_entries_def)
    then show "globalize_leaf 3 ?e word_ptes x ?m = Done ?m"
      by (simp add: top_level has_flag_def word_ptes_def documented_env_def pt_bits)
  qed
  ultimately have "globalize_kernelspace ?e word_ptes 0x1000 example_entries = Done ?m"
    by (simp add: globalize_kernelspace_def example_walk slots_Cons [of 256])
  with upper_half_global [OF word_ptes_ok documented_bitflags this example_walk] show ?thesis
    by auto
qed

text \<open>Boxes for the example: one free page in the heap.\<close>

definition entry_ops :: "u64 \<Rightarrow> (u64 \<Rightarrow> u64) mem_ops" where
  "entry_ops b = \<lparr> box_page = (\<lambda>m. (Some b, m)), drop_box = (\<lambda>_ m. m),
     translate_addr = (\<lambda>t v m. if KERNEL_HEAP_START \<le> v then Some (v - KERNEL_HEAP_START + 0x100000) else None),
     map_to_with_flags = (\<lambda>alloc t p f fl pf s. Done (Some FrameAllocationFailed, s)),
     map_to = (\<lambda>alloc t p f fl s. Done (Some FrameAllocationFailed, s)),
     write_bytes = (\<lambda>a bs m. m) \<rparr>"

theorem new_table_shares_kernel_half_witness:
  "\<exists>m'. user_table_new_from (entry_ops 0xFFFFC00000000000) word_ptes example_table example_entries =
      Done (0xFFFFC00000000000, m') \<and>
    leaf_of 3 (documented_env True) word_ptes 0x1234 (entry_slot 0xFFFFC00000000000 3 0x1234) m' = None"
proof -
  let ?b = "0xFFFFC00000000000 :: u64"
  have ne: "?b + 8 * of_nat i \<noteq> example_table + 8 * of_nat j" if "i < 512" "j < 512" for i j :: nat
  proof
    assume eq: "?b + 8 * of_nat i = example_table + 8 * of_nat j"
    have "unat (of_nat (8 * i) :: u64) = 8 * i" "unat (of_nat (8 * j) :: u64) = 8 * j"
      using that by (auto intro!: unat_of_nat_u64 simp del: of_nat_mult)
    then have u: "unat (8 * of_nat i :: u64) = 8 * i" "unat (8 * of_nat j :: u64) = 8 * j" by simp_all
    have "unat (?b + 8 * of_nat i) = unat ?b + 8 * i" using that u by (subst unat_add_no_overflow) simp_all
    moreover have "unat (example_table + 8 * of_nat j) = unat example_table + 8 * j"
      using that u by (subst unat_add_no_overflow) (simp_all add: example_table_def)
    ultimately have "unat ?b + 8 * i = unat example_table + 8 * j" using eq by simp
    with that show False by (simp add: example_table_def)
  qed
  then have apart: "box_apart word_ptes ?b example_table example_entries example_entries"
    by (simp add: box_apart_def)
  have box: "box_page (entry_ops ?b) example_entries = (Some ?b, example_entries)" by (simp add: entry_ops_def)
  obtain m' where run: "user_table_new_from (entry_ops ?b) word_ptes example_table example_entries = Done (?b, m')"
    by (simp add: user_table_new_from_def box Let_def)
  from new_table_shares_kernel_half [OF word_ptes_ok documented_bitflags box apart run]
  have "leaf_of 3 (documented_env True) word_ptes 0x1234 (entry_slot ?b 3 0x1234) m' = None"
    by (simp add: lower_end_def)
  with run show ?thesis by blast
qed

end
