(* ===== verification/Elf_Loader.thy ===== *)
theory Elf_Loader
  imports User_Memory Page_Tables
begin

text \<open>
  Loading an executable (\<open>context/elf.rs\<close>): the checks on the file, its program headers and their
  parts of the file, and the mapping of the loadable ones into the page table of a task. The
  layout of the headers and the constants of the format come from the crate \<open>goblin\<close>, the record
  \<open>elf_format\<close>; \<open>goblin_ok\<close> states what the ELF-64 format documents of them.
\<close>

section \<open>The format\<close>

type_synonym u16 = "16 word"

record elf_header =
  e_entry :: u64
  e_phoff :: u64
  e_phnum :: u16

record program_header =
  p_type :: u32
  p_flags :: u32
  p_offset :: u64
  p_vaddr :: u64
  p_filesz :: u64
  p_memsz :: u64

record elf_format =
  sizeof_ehdr :: nat
  sizeof_phdr :: nat
  elf_magic :: "u8 list"
  parse_header :: "u8 list \<Rightarrow> elf_header"
  parse_program_header :: "u8 list \<Rightarrow> program_header"
  pt_load :: u32
  pf_x :: u32
  pf_w :: u32
  pf_r :: u32

definition little_endian :: "u8 list \<Rightarrow> nat \<Rightarrow> nat \<Rightarrow> nat" where
  "little_endian bs off n = foldr (\<lambda>b acc. unat b + 256 * acc) (take n (drop off bs)) 0"

definition elf64 :: elf_format where
  "elf64 = \<lparr> sizeof_ehdr = 64, sizeof_phdr = 56, elf_magic = [0x7F, 0x45, 0x4C, 0x46],
     parse_header = (\<lambda>bs. \<lparr> e_entry = of_nat (little_endian bs 24 8),
       e_phoff = of_nat (little_endian bs 32 8), e_phnum = of_nat (little_endian bs 56 2) \<rparr>),
     parse_program_header = (\<lambda>bs. \<lparr> p_type = of_nat (little_endian bs 0 4),
       p_flags = of_nat (little_endian bs 4 4), p_offset = of_nat (little_endian bs 8 8),
       p_vaddr = of_nat (little_endian bs 16 8), p_filesz = of_nat (little_endian bs 32 8),
       p_memsz = of_nat (little_endian bs 40 8) \<rparr>),
     pt_load = 1, pf_x = 1, pf_w = 2, pf_r = 4 \<rparr>"

definition goblin_ok :: "elf_format \<Rightarrow> bool" where
  "goblin_ok G \<longleftrightarrow> sizeof_ehdr G = 64 \<and> sizeof_phdr G = 56"

lemma elf64_ok: "goblin_ok elf64"
  by (simp add: goblin_ok_def elf64_def)

section \<open>The file\<close>

datatype elf_error = InvalidSize | InvalidMagic | InvalidHeaders

definition elf_header_of :: "elf_format \<Rightarrow> u8 list \<Rightarrow> elf_header" where
  "elf_header_of G data = parse_header G (take (sizeof_ehdr G) data)"

text \<open>\<open>Elf::new\<close>: the slice is kept as it is. The product of the header count cannot overflow.\<close>

definition elf_new :: "elf_format \<Rightarrow> u8 list \<Rightarrow> elf_error + u8 list" where
  "elf_new G data =
     (if length data \<le> sizeof_ehdr G then Inl InvalidSize
      else if take (length (elf_magic G)) data \<noteq> elf_magic G then Inl InvalidMagic
      else let h = elf_header_of G data in
        case checked_add (e_phoff h) (ucast (e_phnum h) * of_nat (sizeof_phdr G)) of
          Some x \<Rightarrow> if unat x < length data then Inr data else Inl InvalidHeaders
        | None \<Rightarrow> Inl InvalidHeaders)"

definition program_headers :: "elf_format \<Rightarrow> u8 list \<Rightarrow> program_header list" where
  "program_headers G data = (let h = elf_header_of G data in
     map (\<lambda>i. parse_program_header G
         (take (sizeof_phdr G) (drop (unat (e_phoff h) + i * sizeof_phdr G) data)))
       [0..<unat (e_phnum h)])"

text \<open>\<open>&data[offset..][..filesz]\<close>: slicing out of range panics.\<close>

definition program_data :: "u8 list \<Rightarrow> program_header \<Rightarrow> u8 list outcome" where
  "program_data data h =
     (if length data < unat (p_offset h) then Panic
      else let d = drop (unat (p_offset h)) data in
        if length d < unat (p_filesz h) then Panic else Done (take (unat (p_filesz h)) d))"

section \<open>Mapping it\<close>

definition segment_flags :: "elf_format \<Rightarrow> program_header \<Rightarrow> u64 outcome" where
  "segment_flags G h =
     (let f = pt_present OR pt_user;
          f = (if p_flags h AND pf_x G = 0 then f OR pt_no_execute else f);
          f = (if p_flags h AND pf_w G \<noteq> 0 then f OR pt_writable else f)
      in if p_flags h AND pf_r G = 0 then Panic else Done f)"

text \<open>
  What is copied into a page: the range of the data, and the offset in the page, as \<open>isize\<close>. The
  index stays the one of the first page for every page of the segment.
\<close>

definition copy_range :: "int \<Rightarrow> nat \<Rightarrow> (int \<times> int \<times> int) option" where
  "copy_range file_index len =
     (let data_start = max file_index 0;
          data_end = min (file_index + 4096) (int len);
          off = max (- file_index) 0
      in if data_start \<le> data_end then Some (data_start, data_end, off) else None)"

definition fill_page :: "env \<Rightarrow> 'm mem_ops \<Rightarrow> u64 \<Rightarrow> int \<Rightarrow> u8 list \<Rightarrow> 'm frames \<Rightarrow> 'm frames outcome" where
  "fill_page e ops frame file_index data s =
     and_then (unwrap (virt_add e physical_memory_offset frame)) (\<lambda>a.
     let s1 = s\<lparr>hw := write_bytes ops a (replicate 4096 0) (hw s)\<rparr> in
     case copy_range file_index (length data) of
       None \<Rightarrow> Done s1
     | Some (d0, d1, off) \<Rightarrow>
         Done (s1\<lparr>hw := write_bytes ops (a + of_int off) (take (nat (d1 - d0)) (drop (nat d0) data)) (hw s1)\<rparr>))"

fun mount_pages ::
    "env \<Rightarrow> 'm mem_ops \<Rightarrow> u64 \<Rightarrow> u64 \<Rightarrow> u64 \<Rightarrow> int \<Rightarrow> u8 list \<Rightarrow> u64 list \<Rightarrow> 'm frames \<Rightarrow> 'm frames outcome" where
  "mount_pages e ops root table flags file_index data [] s = Done s"
| "mount_pages e ops root table flags file_index data (page # pages) s =
     and_then (allocate_frame e ops root s) (\<lambda>(f, s1).
     and_then (unwrap f) (\<lambda>frame.
     and_then (map_to ops (allocate_frame e ops root) table page frame flags s1) (\<lambda>(err, s2).
     if err \<noteq> None then Panic
     else and_then (fill_page e ops frame file_index data s2)
       (mount_pages e ops root table flags file_index data pages))))"

definition segment_pages :: "env \<Rightarrow> program_header \<Rightarrow> (u64 \<times> u64 list) outcome" where
  "segment_pages e h =
     and_then (unwrap (virt_new e (p_vaddr h))) (\<lambda>from.
     and_then (unwrap (virt_add e from (p_memsz h))) (\<lambda>to.
     case check_addr_userspace from of
       Inl err \<Rightarrow> Panic
     | Inr _ \<Rightarrow> (case check_addr_userspace to of
         Inl err \<Rightarrow> Panic
       | Inr _ \<Rightarrow>
           and_then (unwrap (virt_sub e to 1)) (\<lambda>last.
             Done (from, page_range_inclusive e (containing_address e from) (containing_address e last))))))"

definition mount_segment ::
    "env \<Rightarrow> elf_format \<Rightarrow> 'm mem_ops \<Rightarrow> u64 \<Rightarrow> u64 \<Rightarrow> program_header \<Rightarrow> u8 list \<Rightarrow> 'm frames \<Rightarrow> 'm frames outcome" where
  "mount_segment e G ops root table h data s =
     and_then (segment_pages e h) (\<lambda>(from, pages).
     and_then (segment_flags G h) (\<lambda>flags.
       mount_pages e ops root table flags (sint (containing_address e from) - sint from) data pages s))"

text \<open>The slice of every header is taken when it is reached, and before the headers are filtered.\<close>

fun mount_headers ::
    "env \<Rightarrow> elf_format \<Rightarrow> 'm mem_ops \<Rightarrow> u64 \<Rightarrow> u64 \<Rightarrow> u8 list \<Rightarrow> program_header list \<Rightarrow> 'm frames \<Rightarrow> 'm frames outcome" where
  "mount_headers e G ops root table elf [] s = Done s"
| "mount_headers e G ops root table elf (h # hs) s =
     and_then (program_data elf h) (\<lambda>data.
     if p_type h = pt_load G \<and> 0 < p_memsz h
     then and_then (mount_segment e G ops root table h data s) (mount_headers e G ops root table elf hs)
     else mount_headers e G ops root table elf hs s)"

definition mount_into ::
    "env \<Rightarrow> elf_format \<Rightarrow> 'm mem_ops \<Rightarrow> u64 \<Rightarrow> u64 \<Rightarrow> u8 list \<Rightarrow> 'm frames \<Rightarrow> 'm frames outcome" where
  "mount_into e G ops root table elf s =
     mount_headers e G ops root table elf (program_headers G elf) s"

text \<open>\<open>TaskContext::load_elf\<close>: the entry point comes with the mapped program.\<close>

definition load_elf ::
    "env \<Rightarrow> elf_format \<Rightarrow> 'm mem_ops \<Rightarrow> u64 \<Rightarrow> u64 \<Rightarrow> u8 list \<Rightarrow> 'm frames \<Rightarrow> (u64 \<times> 'm frames) outcome" where
  "load_elf e G ops root table elf s =
     and_then (mount_into e G ops root table elf s) (\<lambda>s1.
     and_then (unwrap (virt_new e (e_entry (elf_header_of G elf)))) (\<lambda>entry. Done (entry, s1)))"

section \<open>Inside the file and inside the page\<close>

lemma elf_new_cases:
  assumes "goblin_ok G" and "elf_new G data = Inr d"
  shows "d = data" and "64 < length data"
    and "unat (e_phoff (elf_header_of G data)) + 56 * unat (e_phnum (elf_header_of G data)) < length data"
proof -
  let ?h = "elf_header_of G data"
  have ok: "sizeof_ehdr G = 64" "sizeof_phdr G = 56" using assms(1) by (simp_all add: goblin_ok_def)
  from assms(2) show "d = data" "64 < length data"
    by (auto simp: elf_new_def ok Let_def split: if_splits option.splits)
  from assms(2) obtain x where x: "checked_add (e_phoff ?h) (ucast (e_phnum ?h) * 56) = Some x" "unat x < length data"
    by (auto simp: elf_new_def ok Let_def split: if_splits option.splits)
  have "unat (e_phnum ?h) < 2 ^ 16" using unsigned_less [of "e_phnum ?h", where ?'a = nat] by simp
  then have n: "unat (ucast (e_phnum ?h) * 56 :: u64) = unat (e_phnum ?h) * 56"
    by (simp add: unat_word_ariths unsigned_ucast_eq take_bit_eq_mod)
  from checked_add_unat [OF x(1)] x(2) n
  show "unat (e_phoff ?h) + 56 * unat (e_phnum ?h) < length data" by simp
qed

lemma sint_user: "a < 0x8000000000000000 \<Longrightarrow> sint a = int (unat a)" for a :: u64
proof -
  assume "a < 0x8000000000000000"
  then have "unat a < 2 ^ 63" by (simp add: word_less_nat_alt)
  then have "uint a < 2 ^ 63" by (metis of_nat_less_iff of_nat_numeral of_nat_power uint_nat)
  then have "signed_take_bit 63 (uint a) = uint a"
    using uint_nonnegative [of a] by (intro signed_take_bit_int_eq_self) linarith+
  then show ?thesis by (simp add: sint_uint)
qed

lemma file_index_range:
  assumes "page_ok e" and "from < 0x8000000000000000"
  shows "- 4096 < sint (containing_address e from) - sint from"
    and "sint (containing_address e from) - sint from \<le> 0"
proof -
  have c: "unat (containing_address e from) = unat from - unat from mod 4096" by (rule page_of_address [OF assms(1)])
  then have "containing_address e from < 0x8000000000000000" using assms(2) by (simp add: word_less_nat_alt)
  then have "sint (containing_address e from) - sint from = int (unat from - unat from mod 4096) - int (unat from)"
    using assms(2) c by (simp add: sint_user)
  moreover have "unat from mod 4096 < 4096" "unat from mod 4096 \<le> unat from" by simp_all
  ultimately show "- 4096 < sint (containing_address e from) - sint from"
    "sint (containing_address e from) - sint from \<le> 0" by linarith+
qed

lemma copy_range_bounds:
  assumes "copy_range i n = Some (d0, d1, off)" and "- 4096 < i" and "i \<le> 0"
  shows "0 \<le> d0 \<and> d0 \<le> d1 \<and> d1 \<le> int n \<and> 0 \<le> off \<and> off + (d1 - d0) \<le> 4096"
  using assms by (auto simp: copy_range_def Let_def split: if_splits)

lemma user_canonical: "sign_extend_47 a = Some b \<Longrightarrow> b < 0x8000000000000000 \<Longrightarrow> b = a \<and> a < lower_end"
proof -
  assume a: "sign_extend_47 a = Some b" "b < 0x8000000000000000"
  have "\<not> a OR 0xFFFF000000000000 < 0x8000000000000000" if "a < 0x0001000000000000"
  proof -
    have "(0xFFFF000000000000 :: u64) \<le> a OR 0xFFFF000000000000" by (metis le_word_or2 or.commute)
    then show ?thesis by (simp add: not_less order.trans [rotated])
  qed
  with a show ?thesis
    by (auto simp: sign_extend_47_def canonical_def lower_end_def word_less_nat_alt word_le_nat_alt
        split: if_splits)
qed

text \<open>The pages of a segment, when its end does not wrap around.\<close>

lemma segment_pages_user:
  assumes "virt_ok e" and "page_ok e" and "segment_pages e h = Done (from, pages)"
    and "unat (p_vaddr h) + unat (p_memsz h) < 2 ^ 64" and "0 < p_memsz h"
  shows "from = p_vaddr h" and "from < lower_end" and "p \<in> set pages \<Longrightarrow> p < lower_end"
proof -
  let ?to = "p_vaddr h + p_memsz h"
  from assms(3) obtain to last where st: "virt_new e (p_vaddr h) = Some from"
    "virt_add e from (p_memsz h) = Some to" "from < 0x8000000000000000" "to < 0x8000000000000000"
    "virt_sub e to 1 = Some last"
    "pages = page_range_inclusive e (containing_address e from) (containing_address e last)"
    by (auto simp: segment_pages_def and_then_eq_Done check_addr_userspace_simps split: if_splits)
  have f: "from = p_vaddr h" "from < lower_end"
    using st(1,3) user_canonical by (auto simp: virt_simps [OF assms(1)])
  then show "from = p_vaddr h" "from < lower_end" by simp_all
  have "sign_extend_47 ?to = Some to"
    using st(2) f(1) assms(4) by (simp add: virt_simps [OF assms(1)])
  then have to: "to = ?to" "?to < lower_end"
    using st(4) user_canonical [of ?to to] by simp_all
  have pos: "0 < unat ?to"
    using unat_add_no_overflow [OF assms(4)] assms(5) by (simp add: word_less_nat_alt)
  then have "1 \<le> ?to" by (simp add: word_le_nat_alt)
  then have one: "unat (?to - 1) = unat ?to - 1" by (simp add: unat_sub)
  have "unat ?to < 0x800000000000" using to(2) by (simp add: lower_end_def word_less_nat_alt)
  with one have last': "?to - 1 < lower_end" by (simp add: lower_end_def word_less_nat_alt)
  have "sign_extend_47 (?to - 1) = Some (?to - 1)"
    using last' by (simp add: sign_extend_47_def canonical_def lower_end_def)
  with st(5) to(1) \<open>1 \<le> ?to\<close> have last: "last = ?to - 1"
    by (simp add: virt_simps [OF assms(1)] split: if_splits)
  let ?a = "containing_address e from" and ?b = "containing_address e last"
  show "p < lower_end" if p: "p \<in> set pages" for p
  proof -
    have le: "unat ?b \<le> unat last" using page_of_address [OF assms(2)] by simp
    then have b: "?b < lower_end" using last' last by (simp add: word_less_nat_alt lower_end_def)
    have "\<not> upper_half \<le> ?b" using b by (simp add: lower_end_def upper_half_def word_less_nat_alt word_le_nat_alt)
    with p st(6) have ab: "?a \<le> ?b" "p \<in> set (page_starts ?a (unat (?b - ?a) div 4096 + 1))"
      by (auto simp: page_ranges(2) [OF assms(2)] pages_between_def simp del: One_nat_def split: if_splits)
    from ab(2) obtain i where "i < unat (?b - ?a) div 4096 + 1" "p = ?a + 4096 * of_nat i"
      unfolding page_starts_def set_map set_upt by (meson atLeastLessThan_iff imageE)
    with ab(1) have i: "?a \<le> ?b" "i < unat (?b - ?a) div 4096 + 1" "p = ?a + 4096 * of_nat i" by blast+
    have sub: "unat (?b - ?a) = unat ?b - unat ?a" using i(1) by (simp add: unat_sub)
    from i(2) have "i * 4096 \<le> unat ?b - unat ?a" unfolding sub by (metis Suc_eq_plus1 less_Suc_eq_le div_times_less_eq_dividend mult_le_mono1 order_trans)
    moreover have "unat ?a \<le> unat ?b" using i(1) by (simp add: word_le_nat_alt)
    ultimately have "unat ?a + 4096 * i \<le> unat ?b" by linarith
    moreover have "unat (4096 * of_nat i :: u64) = 4096 * i"
      using calculation unat_lt_2p64 [of ?b] unat_of_nat_u64 [of "4096 * i"] by simp
    ultimately have "unat p \<le> unat ?b" using unat_lt_2p64 [of ?b] i(3)
      by (simp add: unat_add_no_overflow)
    with b show ?thesis by (simp add: word_less_nat_alt lower_end_def)
  qed
qed

section \<open>Properties\<close>


text \<open>An executable of 124 bytes: one segment at 0x400010 with the last four bytes of the file.\<close>

definition example_elf :: "u8 list" where
  "example_elf = [0x7F, 0x45, 0x4C, 0x46] @ replicate 20 0 @ [0x10, 0, 0x40, 0, 0, 0, 0, 0] @
     [64, 0, 0, 0, 0, 0, 0, 0] @ replicate 16 0 @ [1, 0] @ replicate 6 0 @
     [1, 0, 0, 0, 5, 0, 0, 0] @ [120, 0, 0, 0, 0, 0, 0, 0] @ [0x10, 0, 0x40, 0, 0, 0, 0, 0] @
     replicate 8 0 @ [4, 0, 0, 0, 0, 0, 0, 0] @ [0, 0x20, 0, 0, 0, 0, 0, 0] @ replicate 8 0 @
     [0xAA, 0xBB, 0xCC, 0xDD]"

definition example_segment :: program_header where
  "example_segment = \<lparr> p_type = 1, p_flags = 5, p_offset = 120, p_vaddr = 0x400010, p_filesz = 4, p_memsz = 0x2000 \<rparr>"

lemma example_header: "elf_header_of elf64 example_elf = \<lparr> e_entry = 0x400010, e_phoff = 64, e_phnum = 1 \<rparr>"
  by (simp add: elf_header_of_def elf64_def example_elf_def little_endian_def)

lemma example_elf_new: "elf_new elf64 example_elf = Inr example_elf"
  by (simp add: elf_new_def example_header checked_add_def) (simp add: elf64_def example_elf_def)

lemma example_elf_headers: "program_headers elf64 example_elf = [example_segment]"
  by (simp add: program_headers_def example_header)
     (simp add: elf64_def example_elf_def little_endian_def example_segment_def)

lemma example_elf_pages:
  "segment_pages (documented_env True) example_segment = Done (0x400010, [0x400000, 0x401000, 0x402000])"
  by (simp add: segment_pages_def example_segment_def documented_env_def sign_extend_47_def canonical_def
      check_addr_userspace_simps pages_between_def page_starts_def lower_end_def upper_half_def numeral_3_eq_3)


text \<open>
  The index into the data is the same for every page of a segment: the two pages of the example
  behind the first, which should be zero, get the four bytes of the file too. The machine is the
  log of the writes and the list of the free pages.
\<close>

type_synonym write_log = "(u64 \<times> u8 list) list \<times> u64 list"

definition log_ops :: "write_log mem_ops" where
  "log_ops = \<lparr>
     box_page = (\<lambda>(l, bs). case bs of [] \<Rightarrow> (None, (l, [])) | b # bs' \<Rightarrow> (Some b, (l, bs'))),
     drop_box = (\<lambda>b (l, bs). (l, b # bs)),
     translate_addr = (\<lambda>t v m. if KERNEL_HEAP_START \<le> v then Some (v - KERNEL_HEAP_START + 0x100000) else None),
     map_to_with_flags = (\<lambda>alloc t p f fl pf s. Done (None, s)),
     map_to = (\<lambda>alloc t p f fl s. Done (None, s)),
     write_bytes = (\<lambda>a bs (l, boxes). (l @ [(a, bs)], boxes)) \<rparr>"

definition example_heap :: "write_log frames" where
  "example_heap = \<lparr> hw = ([], [0xFFFFC00000000000, 0xFFFFC00000001000, 0xFFFFC00000002000]),
     frame_entries = [\<lparr> region_start = 0x100000, region_end = 0x200000, virt_start = Some 0xFFFFC00000000000 \<rparr>] \<rparr>"

theorem bss_gets_file_bytes:
  "\<exists>s. load_elf (documented_env True) elf64 log_ops 0x5000 0xFFFFC00000010000 example_elf example_heap = Done (0x400010, s) \<and>
     filter (\<lambda>(a, bs). length bs < 4096) (fst (hw s)) =
       [(0xFFFFA00000100010, [0xAA, 0xBB, 0xCC, 0xDD]), (0xFFFFA00000101010, [0xAA, 0xBB, 0xCC, 0xDD]),
        (0xFFFFA00000102010, [0xAA, 0xBB, 0xCC, 0xDD])]"
proof -
  let ?e = "documented_env True"
  have data: "program_data example_elf example_segment = Done [0xAA, 0xBB, 0xCC, 0xDD]"
    by (simp add: program_data_def example_segment_def example_elf_def)
  have flags: "segment_flags elf64 example_segment = Done 5"
    by (simp add: segment_flags_def example_segment_def elf64_def pt_bits)
  have idx: "sint (containing_address ?e 0x400010) - 0x400010 = - 16"
    by (simp add: documented_env_def)
  have range: "copy_range (- 16) (Suc (Suc (Suc (Suc 0)))) = Some (0, 4, 16)" by (simp add: copy_range_def)
  have alloc: "allocate_frame ?e log_ops 0x5000 \<lparr> hw = (l, b # bs), frame_entries = frame_entries example_heap \<rparr> =
      Done (Some (b - 0xFFFFC00000000000 + 0x100000), \<lparr> hw = (l, bs), frame_entries = frame_entries example_heap \<rparr>)"
    if "b \<in> {0xFFFFC00000000000, 0xFFFFC00000001000, 0xFFFFC00000002000}" for l b bs
    using that by (auto simp: allocate_frame_def log_ops_def example_page_table example_heap_def)
      (simp_all add: documented_env_def sign_extend_47_def canonical_def kernel_addresses in_region_def)
  have fill: "fill_page ?e log_ops f (- 16) [0xAA, 0xBB, 0xCC, 0xDD] \<lparr> hw = (l, bs), frame_entries = rs \<rparr> =
      Done \<lparr> hw = (l @ [(0xFFFFA00000000000 + f, replicate 4096 0),
        (0xFFFFA00000000000 + f + 16, [0xAA, 0xBB, 0xCC, 0xDD])], bs), frame_entries = rs \<rparr>"
    if "f \<in> {0x100000, 0x101000, 0x102000}" for f l bs rs
    using that by (auto simp: fill_page_def range Let_def log_ops_def physical_memory_offset_def kernel_addresses
        documented_env_def sign_extend_47_def canonical_def)
  have kind: "p_type example_segment = pt_load elf64" "0 < p_memsz example_segment"
    by (simp_all add: example_segment_def elf64_def)
  have map: "map_to log_ops al t p f fl s = Done (None, s)" for al t p f fl s by (simp add: log_ops_def)
  have heap: "example_heap = \<lparr> hw = ([], [0xFFFFC00000000000, 0xFFFFC00000001000, 0xFFFFC00000002000]),
     frame_entries = frame_entries example_heap \<rparr>" by (simp add: example_heap_def)
  have entry: "virt_new ?e 0x400010 = Some 0x400010"
    by (simp add: documented_env_def sign_extend_47_def canonical_def)
  show ?thesis
    apply (subst heap)
    by (simp add: load_elf_def mount_into_def example_elf_headers data mount_segment_def example_elf_pages flags idx
        kind alloc map fill example_header entry)
qed

end
