(* ===== verification/Task_Create.thy ===== *)
theory Task_Create
  imports Task_Calls Elf_Loader
begin

text \<open>
  How tasks come to be (\<open>context/task.rs\<close>, \<open>context/syscall.rs\<close>, \<open>run_executor\<close> of \<open>main.rs\<close>,
  \<open>start_initproc\<close>): the process ids, the context of a new task with its page table and its
  stacks, the system calls \<open>spawn\<close> and \<open>exec\<close>, and the two tasks the kernel starts with. The page
  table of a task is the address of its level 4 table. A step on the kernel and on the machine
  returns the machine with its result.
\<close>

type_synonym table_kernel = "u64 kernel"

text \<open>
  Two more functions of the machine: a box of the given number of bytes with alignment 1, and
  \<open>translate_page\<close> of a page of 4 KiB.
\<close>

record 'm task_ops =
  box_bytes :: "nat \<Rightarrow> 'm \<Rightarrow> u64 option \<times> 'm"
  translate_page :: "u64 \<Rightarrow> u64 \<Rightarrow> 'm \<Rightarrow> u64 option"

section \<open>Process ids\<close>

definition allocate_pid :: "'pt kernel \<Rightarrow> (pid \<times> 'pt kernel) outcome" where
  "allocate_pid k =
     (let raw = next_pid k; k' = k\<lparr>next_pid := raw + 1\<rparr> in
      if raw = - 1 then Panic else Done (raw, k'))"

section \<open>Stacks\<close>

definition KERNEL_STACK_SIZE :: nat where "KERNEL_STACK_SIZE = 16 * 1024"
definition USER_STACK_SIZE :: nat where "USER_STACK_SIZE = 64 * 1024"
definition USERSPACE_STACK_ADDR :: u64 where "USERSPACE_STACK_ADDR = 0x40000000"

text \<open>\<open>OwnedStack::alloc_uninit\<close>; a failed allocation is a panic.\<close>

definition alloc_stack :: "'m task_ops \<Rightarrow> nat \<Rightarrow> 'm frames \<Rightarrow> (u64 \<times> 'm frames) outcome" where
  "alloc_stack T n s =
     (case box_bytes T n (hw s) of
        (None, m) \<Rightarrow> Panic
      | (Some a, m) \<Rightarrow> Done (a, s\<lparr>hw := m\<rparr>))"

definition user_stack_flags :: u64 where
  "user_stack_flags = pt_present OR pt_writable OR pt_no_execute OR pt_user"

definition heap_stack_pages :: "env \<Rightarrow> u64 \<Rightarrow> u64 list outcome" where
  "heap_stack_pages e stack =
     and_then (unwrap (virt_new e stack)) (\<lambda>start.
     and_then (unwrap (virt_add e start (of_nat USER_STACK_SIZE))) (\<lambda>x.
     and_then (unwrap (virt_sub e x 1)) (\<lambda>last.
       Done (page_range_inclusive e (containing_address e start) (containing_address e last)))))"

text \<open>\<open>user_page += 1\<close> is the page 4 KiB further on.\<close>

fun mount_stack_pages ::
    "env \<Rightarrow> 'm mem_ops \<Rightarrow> 'm task_ops \<Rightarrow> u64 \<Rightarrow> u64 \<Rightarrow> u64 \<Rightarrow> u64 \<Rightarrow> u64 list \<Rightarrow> 'm frames \<Rightarrow> 'm frames outcome" where
  "mount_stack_pages e ops T root ktable table user_page [] s = Done s"
| "mount_stack_pages e ops T root ktable table user_page (heap_page # heap_pages) s =
     and_then (unwrap (translate_page T ktable heap_page (hw s))) (\<lambda>real_stack.
     and_then (map_to ops (allocate_frame e ops root) table user_page real_stack user_stack_flags s) (\<lambda>(err, s1).
     if err \<noteq> None then Panic
     else and_then (unwrap (virt_add e user_page 4096)) (\<lambda>user_page'.
       mount_stack_pages e ops T root ktable table user_page' heap_pages s1)))"

definition mount_user_stack ::
    "env \<Rightarrow> 'm mem_ops \<Rightarrow> 'm task_ops \<Rightarrow> u64 \<Rightarrow> u64 task_context \<Rightarrow> 'm frames \<Rightarrow> 'm frames outcome" where
  "mount_user_stack e ops T root ctx s =
     and_then (get_page_table e root) (\<lambda>ktable.
     and_then (unwrap (user_stack ctx)) (\<lambda>stack.
     and_then (heap_stack_pages e stack) (\<lambda>heap_pages.
     and_then (unwrap (virt_new e USERSPACE_STACK_ADDR)) (\<lambda>a.
       mount_stack_pages e ops T root ktable (page_table ctx) (containing_address e a) heap_pages s))))"

text \<open>\<open>prepare_tcb\<close> returns what it writes to \<open>TCD.user_stack_pointer\<close>.\<close>

definition prepare_tcb :: u64 where
  "prepare_tcb = USERSPACE_STACK_ADDR + of_nat USER_STACK_SIZE - 128"

section \<open>New contexts\<close>

definition new_context :: "pid \<Rightarrow> pid option \<Rightarrow> task_state \<Rightarrow> u64 \<Rightarrow> u64 option \<Rightarrow> u64 option \<Rightarrow> u64 task_context" where
  "new_context t p st table ks us = \<lparr> task_id = t, parent = p, children = [], tstate = st,
     arch_regs = context_regs_default, capabilities = cap_storage_default, files = file_storage_new t,
     page_table = table, kernel_stack = ks, user_stack = us, user_entry_point = 0 \<rparr>"

definition with_cr3 :: "env \<Rightarrow> 'm mem_ops \<Rightarrow> 'm frames \<Rightarrow> u64 task_context \<Rightarrow> u64 task_context outcome" where
  "with_cr3 e ops s ctx =
     and_then (user_table_frame e ops (page_table ctx) (hw s)) (\<lambda>frame.
       Done (ctx\<lparr>arch_regs := reload_cr3 frame (arch_regs ctx)\<rparr>))"

definition create_init :: "env \<Rightarrow> 'm mem_ops \<Rightarrow> u64 \<Rightarrow> 'm frames \<Rightarrow> u64 task_context outcome" where
  "create_init e ops root s =
     and_then (user_table_from_current e root) (\<lambda>table.
       with_cr3 e ops s (new_context 1 None Sleepy table None None))"

text \<open>\<open>func\<close> is the address the new task starts at; it is pushed on its kernel stack.\<close>

definition create ::
    "env \<Rightarrow> 'm mem_ops \<Rightarrow> 'm pte_ops \<Rightarrow> 'm task_ops \<Rightarrow> pid \<Rightarrow> u64 \<Rightarrow> table_kernel \<Rightarrow> 'm frames \<Rightarrow>
     (u64 task_context \<times> table_kernel \<times> 'm frames) outcome" where
  "create e ops P T p func k s =
     (let root = c_cr3 (core k) in
      and_then (get_page_table e root) (\<lambda>ktable.
      and_then (allocate_pid k) (\<lambda>(t, k1).
      and_then (user_table_new_from ops P ktable (hw s)) (\<lambda>(table, m).
      and_then (alloc_stack T KERNEL_STACK_SIZE (s\<lparr>hw := m\<rparr>)) (\<lambda>(ks, s1).
      and_then (alloc_stack T USER_STACK_SIZE s1) (\<lambda>(us, s2).
      and_then (with_cr3 e ops s2 (new_context t (Some p) User table (Some ks) (Some us))) (\<lambda>ctx.
      and_then (add_chk (overflow_checks e) ks (of_nat KERNEL_STACK_SIZE)) (\<lambda>top.
      and_then (sub_chk (overflow_checks e) top 8) (\<lambda>sp.
      let ctx1 = ctx\<lparr>arch_regs := (arch_regs ctx)\<lparr>c_rsp := sp\<rparr>\<rparr>;
          s3 = s2\<lparr>hw := store_entry P sp func (hw s2)\<rparr>
      in and_then (mount_user_stack e ops T root ctx1 s3) (\<lambda>s4. Done (ctx1, k1, s4)))))))))))"

section \<open>The system calls\<close>

definition spawn ::
    "env \<Rightarrow> 'm mem_ops \<Rightarrow> 'm pte_ops \<Rightarrow> 'm task_ops \<Rightarrow> u64 \<Rightarrow> 'm frames \<Rightarrow> table_kernel \<Rightarrow>
     ((pid syscall_result \<times> 'm frames) \<times> table_kernel) outcome" where
  "spawn e ops P T jmp_userspace s k =
     and_then (current_task e k) (\<lambda>(t, k1).
     holding_task e t (\<lambda>k2.
       and_then (unwrap (registry k2 t)) (\<lambda>c.
       case List.find (\<lambda>x. ctype (snd x) = SpawnProcess) (cap_handles (capabilities c)) of
         None \<Rightarrow> Done ((Inl WrongCapability, s), k2)
       | Some _ \<Rightarrow>
           and_then (current_task_id k2) (\<lambda>cur.
           and_then (create e ops P T cur jmp_userspace k2 s) (\<lambda>(child, k3, s1).
           and_then (holding_registry e (\<lambda>k4. and_then (registry_add e child k4) (\<lambda>k5. Done ((), k5))) k3) (\<lambda>(_, k6).
             Done ((Inr (task_id child), s1), k6)))))) k1)"

text \<open>\<open>exec\<close> from the file on, under the locks of the child and of the caller.\<close>

definition exec_file ::
    "env \<Rightarrow> elf_format \<Rightarrow> 'm mem_ops \<Rightarrow> pid \<Rightarrow> pid \<Rightarrow> usize \<Rightarrow> 'm frames \<Rightarrow> table_kernel \<Rightarrow>
     ((unit syscall_result \<times> 'm frames) \<times> table_kernel) outcome" where
  "exec_file e G ops proc cur fd s k =
     and_then (unwrap (registry k proc)) (\<lambda>child.
     and_then (unwrap (registry k cur)) (\<lambda>c.
     case pairs_get fd (file_handles (files c)) of
       None \<Rightarrow> Done ((Inl WrongDescriptor, s), k)
     | Some h \<Rightarrow>
         and_then (read_file_to_memory e h (1024 * 1024 * 1024)) (\<lambda>(r, h').
         let k1 = update_task cur (\<lambda>c. c\<lparr>files := (files c)\<lparr>file_handles :=
             pairs_set fd h' (file_handles (files c))\<rparr>\<rparr>) k
         in case r of
              Inl err \<Rightarrow> Done ((Inl err, s), k1)
            | Inr file \<Rightarrow>
                (case elf_new G file of
                   Inl _ \<Rightarrow> Done ((Inl FsNotExecutable, s), k1)
                 | Inr elf \<Rightarrow>
                     and_then (load_elf e G ops (c_cr3 (core k)) (page_table child) elf s) (\<lambda>(entry, s1).
                     and_then (holding_registry e (\<lambda>k3. Done ((), queue_for_execution proc k3))
                         (update_task proc (\<lambda>c. c\<lparr>user_entry_point := entry\<rparr>) k1)) (\<lambda>(_, k4).
                       Done ((Inr (), s1), k4)))))))"

definition exec_call ::
    "env \<Rightarrow> elf_format \<Rightarrow> 'm mem_ops \<Rightarrow> usize \<Rightarrow> usize \<Rightarrow> 'm frames \<Rightarrow> table_kernel \<Rightarrow>
     ((unit syscall_result \<times> 'm frames) \<times> table_kernel) outcome" where
  "exec_call e G ops proc fd s k =
     (if proc = 0 then Done ((Inl WrongParameters, s), k)
      else and_then (reading_registry e (\<lambda>k1. Done (registry_get proc k1, k1)) k) (\<lambda>(found, k1).
      case found of
        None \<Rightarrow> Done ((Inl WrongProcess, s), k1)
      | Some _ \<Rightarrow>
          holding_task e proc (\<lambda>k2.
            and_then (unwrap (registry k2 proc)) (\<lambda>child.
            and_then (current_task_id k2) (\<lambda>cur.
            if parent child \<noteq> Some cur then Done ((Inl WrongProcess, s), k2)
            else if user_entry_point child \<noteq> 0 then Done ((Inl WrongProcess, s), k2)
            else and_then (current_task e k2) (\<lambda>(t, k3).
              holding_task e t (exec_file e G ops proc t fd s) k3)))) k1))"

text \<open>
  Where a task starts: \<open>jmp_userspace\<close> enters the program at its entry point, or has nothing to
  enter.
\<close>

definition jmp_userspace :: "env \<Rightarrow> 'pt kernel \<Rightarrow> (u64 option \<times> 'pt kernel) outcome" where
  "jmp_userspace e k =
     and_then (read_current e user_entry_point k) (\<lambda>(entry, k1).
       Done (if entry = 0 then None else Some entry, k1))"

section \<open>The first two tasks\<close>

definition add_task :: "env \<Rightarrow> u64 task_context \<Rightarrow> table_kernel \<Rightarrow> table_kernel outcome" where
  "add_task e ctx k =
     and_then (holding_registry e (\<lambda>k1. and_then (registry_add e ctx k1) (\<lambda>k2. Done ((), k2))) k) (\<lambda>(_, k3). Done k3)"

definition init_name :: str where "init_name = [0x69, 0x6E, 0x69, 0x74]"

text \<open>\<open>run_executor\<close> up to its loop.\<close>

definition boot_tasks ::
    "env \<Rightarrow> 'm mem_ops \<Rightarrow> 'm pte_ops \<Rightarrow> 'm task_ops \<Rightarrow> init_dir \<Rightarrow> u64 \<Rightarrow> table_kernel \<Rightarrow> 'm frames \<Rightarrow>
     (table_kernel \<times> 'm frames) outcome" where
  "boot_tasks e ops P T dir start_initproc k s =
     and_then (create_init e ops (c_cr3 (core k)) s) (\<lambda>init.
     and_then (add_task e init k) (\<lambda>k1.
     and_then (create e ops P T (task_id init) start_initproc (set_current_task_id (task_id init) k1) s)
       (\<lambda>(ctx, k2, s1).
     let ctx1 = ctx\<lparr>files := (files ctx)\<lparr>file_root :=
         proc_mount init_name (InitFsPath (from_init_dir dir init_name)) (file_root (files ctx))\<rparr>\<rparr>
     in and_then (holding_registry e (\<lambda>k3.
          and_then (registry_add e ctx1 k3) (\<lambda>k4. Done ((), queue_for_execution (task_id ctx) k4))) k2)
        (\<lambda>(_, k5). Done (k5, s1)))))"

text \<open>\<open>start_initproc\<close>: the program comes out of the init directory; the result is its entry point.\<close>

definition initproc_name :: str where
  "initproc_name = [0x69, 0x6E, 0x69, 0x74, 0x70, 0x72, 0x6F, 0x63]"

definition start_initproc ::
    "env \<Rightarrow> elf_format \<Rightarrow> 'm mem_ops \<Rightarrow> init_dir \<Rightarrow> 'm frames \<Rightarrow> table_kernel \<Rightarrow>
     ((u64 \<times> 'm frames) \<times> table_kernel) outcome" where
  "start_initproc e G ops dir s k =
     and_then (unwrap (init_dir_entry_of dir initproc_name)) (\<lambda>entry.
     case entry of
       InitFolder _ \<Rightarrow> Panic
     | InitFile data \<Rightarrow>
         (case elf_new G data of
            Inl _ \<Rightarrow> Panic
          | Inr elf \<Rightarrow>
              on_current e (\<lambda>c.
                and_then (load_elf e G ops (c_cr3 (core k)) (page_table c) elf s) (\<lambda>(entry, s1).
                  Done ((entry, s1), c\<lparr>user_entry_point := entry\<rparr>))) k))"

section \<open>What creating a task does\<close>

lemma with_cr3_Done:
  "with_cr3 e ops s ctx = Done ctx' \<Longrightarrow> \<exists>r. ctx' = ctx\<lparr>arch_regs := r\<rparr>"
  by (auto simp: with_cr3_def and_then_eq_Done)

text \<open>All of a new context but its registers, table and stacks.\<close>

definition fresh_context :: "pid \<Rightarrow> pid option \<Rightarrow> task_state \<Rightarrow> u64 task_context \<Rightarrow> bool" where
  "fresh_context t p st c \<longleftrightarrow> task_id c = t \<and> parent c = p \<and> children c = [] \<and> tstate c = st \<and>
     capabilities c = cap_storage_default \<and> files c = file_storage_new t \<and> user_entry_point c = 0"

lemma create_Done:
  assumes "create e ops P T p func k s = Done (ctx, k', s')"
  shows "fresh_context (next_pid k) (Some p) User ctx" and "k' = k\<lparr>next_pid := next_pid k + 1\<rparr>"
    and "next_pid k \<noteq> - 1"
proof -
  have "fresh_context (next_pid k) (Some p) User ctx \<and> k' = k\<lparr>next_pid := next_pid k + 1\<rparr> \<and> next_pid k \<noteq> - 1"
    using assms
    by (auto simp: create_def Let_def and_then_eq_Done allocate_pid_def fresh_context_def new_context_def
        dest!: with_cr3_Done split: if_splits)
  then show "fresh_context (next_pid k) (Some p) User ctx" "k' = k\<lparr>next_pid := next_pid k + 1\<rparr>"
    "next_pid k \<noteq> - 1" by simp_all
qed

lemma create_init_Done:
  "create_init e ops root s = Done ctx \<Longrightarrow> fresh_context 1 None Sleepy ctx"
  by (auto simp: create_init_def and_then_eq_Done fresh_context_def new_context_def dest!: with_cr3_Done)

text \<open>A child cannot be added while its parent is locked.\<close>

lemma registry_add_locked:
  assumes "spin_ok e" and "parent ctx = Some p" and "registry k p = Some pc" and "task_lock k p \<noteq> Unlocked"
  shows "registry_add e ctx k \<in> {Panic, Hang}"
    and "registry k (task_id ctx) = None \<Longrightarrow> registry_add e ctx k = Hang"
  using assms by (auto simp: registry_add_def Let_def set_task_lock_def holding_task_def)

text \<open>The write lock of the current task around a body.\<close>

lemma holding_current:
  assumes "spin_ok e" and "sched_ok k" and "registry k (cur_task k) = Some c"
  shows "and_then (current_task e k) (\<lambda>(t, k1). holding_task e t (f t) k1) =
    and_then (f (cur_task k) (set_task_lock (cur_task k) WriteLocked k)) (\<lambda>(r, k'). Done (r, set_task_lock (cur_task k) Unlocked k'))"
proof -
  note D = sched_ok_D [OF assms(2)]
  show ?thesis
    using assms(1) D(2) current_task_ok [OF assms(1) D(1,4) assms(3)] by (simp add: holding_task_def)
qed

definition spawn_cap :: "'pt task_context \<Rightarrow> bool" where
  "spawn_cap c \<longleftrightarrow> List.find (\<lambda>x. ctype (snd x) = SpawnProcess) (cap_handles (capabilities c)) \<noteq> None"

lemma spawn_cap_None:
  "\<not> spawn_cap c \<Longrightarrow> List.find (\<lambda>x. ctype (snd x) = SpawnProcess) (cap_handles (capabilities c)) = None"
  unfolding spawn_cap_def by blast

lemma spawn_cases:
  assumes "spin_ok e" and "sched_ok k" and "registry k (cur_task k) = Some c"
  defines "k2 \<equiv> set_task_lock (cur_task k) WriteLocked k"
  shows "\<not> spawn_cap c \<Longrightarrow> spawn e ops P T jmp s k = Done ((Inl WrongCapability, s), k)"
    and "spawn_cap c \<Longrightarrow> create e ops P T (cur_task k) jmp k2 s = Done (child, k3, s1) \<Longrightarrow>
      registry k (task_id child) = None \<Longrightarrow> spawn e ops P T jmp s k = Hang"
    and "spawn_cap c \<Longrightarrow> spawn e ops P T jmp s k \<in> {Panic, Hang}"
proof -
  note D = sched_ok_D [OF assms(2)]
  let ?t = "cur_task k"
  have k2: "registry k2 = registry k" "cur_task k2 = ?t" "registry_lock k2 = Unlocked" "task_lock k2 ?t = WriteLocked"
    "set_task_lock ?t Unlocked k2 = k"
    using D(1,2) unlock_noop by (simp_all add: k2_def set_task_lock_def fun_upd_idem)
  show "spawn e ops P T jmp s k = Done ((Inl WrongCapability, s), k)" if "\<not> spawn_cap c"
    unfolding spawn_def holding_current [OF assms(1-3)] k2_def [symmetric]
    using that assms(3) k2 by (simp add: spawn_cap_None)
  have body: "spawn e ops P T jmp s k =
    and_then (and_then (create e ops P T ?t jmp k2 s) (\<lambda>(child, k3, s1).
        and_then (holding_registry e (\<lambda>k4. and_then (registry_add e child k4) (\<lambda>k5. Done ((), k5))) k3) (\<lambda>(_, k6).
          Done ((Inr (task_id child), s1), k6))))
      (\<lambda>(r, k'). Done (r, set_task_lock ?t Unlocked k'))" if "spawn_cap c"
    unfolding spawn_def holding_current [OF assms(1-3)] k2_def [symmetric]
    using that assms(3) k2 D(4) by (auto simp: spawn_cap_def current_task_id_def)
  have add: "and_then (holding_registry e (\<lambda>k4. and_then (registry_add e child k4) (\<lambda>k5. Done ((), k5))) k3) f \<in> {Panic, Hang} \<and>
      (registry k (task_id child) = None \<longrightarrow>
        and_then (holding_registry e (\<lambda>k4. and_then (registry_add e child k4) (\<lambda>k5. Done ((), k5))) k3) f = Hang)"
    if cr: "create e ops P T ?t jmp k2 s = Done (child, k3, s1)"
    for child k3 s1 and f :: "unit \<times> table_kernel \<Rightarrow> ((pid syscall_result \<times> 'a frames) \<times> table_kernel) outcome"
  proof -
    note C = create_Done [OF cr]
    let ?k4 = "k3\<lparr>registry_lock := WriteLocked\<rparr>"
    have p: "parent child = Some ?t" using C(1) by (simp add: fresh_context_def)
    have k4: "registry ?k4 = registry k" "task_lock ?k4 ?t = WriteLocked" "registry_lock k3 = Unlocked"
      using C(2) k2 by simp_all
    then have "registry ?k4 ?t = Some c" "task_lock ?k4 ?t \<noteq> Unlocked" using assms(3) by simp_all
    note L = registry_add_locked [OF assms(1) p this]
    have h: "holding_registry e (\<lambda>k4. and_then (registry_add e child k4) (\<lambda>k5. Done ((), k5))) k3 =
      and_then (registry_add e child ?k4) (\<lambda>k5. Done ((), k5\<lparr>registry_lock := Unlocked\<rparr>))"
      using assms(1) k4(3) by (simp add: holding_registry_def)
    show ?thesis using L k4(1) unfolding h by (cases "registry_add e child ?k4") auto
  qed
  show "spawn e ops P T jmp s k = Hang"
    if "spawn_cap c" "create e ops P T ?t jmp k2 s = Done (child, k3, s1)" "registry k (task_id child) = None"
    using add [OF that(2)] that(3) unfolding body [OF that(1)] that(2) by simp
  show "spawn e ops P T jmp s k \<in> {Panic, Hang}" if sc: "spawn_cap c"
  proof (cases "create e ops P T ?t jmp k2 s")
    case (Done x)
    obtain child k3 s1 where x: "x = (child, k3, s1)" by (cases x)
    show ?thesis using add [OF Done [unfolded x]] unfolding body [OF sc] Done x by auto
  qed (simp_all add: body [OF sc])
qed

section \<open>Fresh process ids\<close>

text \<open>Ids are handed out in increasing order; 0 stands for no task.\<close>

definition pids_ok :: "'pt kernel \<Rightarrow> bool" where
  "pids_ok k \<longleftrightarrow> 2 \<le> next_pid k \<and> (\<forall>t. registry k t \<noteq> None \<longrightarrow> t \<noteq> 0 \<and> t < next_pid k)"

lemma registry_add_Done:
  assumes "registry_add e ctx k = Done k'"
  shows "registry k (task_id ctx) = None" and "next_pid k' = next_pid k"
    and "registry k' x \<noteq> None \<longleftrightarrow> x = task_id ctx \<or> registry k x \<noteq> None"
    and "executable_tasks k' = executable_tasks k" and "cur_task k' = cur_task k"
proof -
  have "registry k (task_id ctx) = None \<and> next_pid k' = next_pid k \<and>
    (registry k' x \<noteq> None \<longleftrightarrow> x = task_id ctx \<or> registry k x \<noteq> None) \<and>
    executable_tasks k' = executable_tasks k \<and> cur_task k' = cur_task k"
    using assms
    by (auto simp: registry_add_def Let_def and_then_eq_Done holding_task_def set_task_lock_def update_task_def
        split: if_splits option.splits)
  then show "registry k (task_id ctx) = None" "next_pid k' = next_pid k"
    "registry k' x \<noteq> None \<longleftrightarrow> x = task_id ctx \<or> registry k x \<noteq> None"
    "executable_tasks k' = executable_tasks k" "cur_task k' = cur_task k" by blast+
qed

section \<open>After boot\<close>

definition boot_state :: "'pt kernel \<Rightarrow> bool" where
  "boot_state k \<longleftrightarrow> registry k = (\<lambda>_. None) \<and> executable_tasks k = [] \<and> unlocked k \<and> next_pid k = 2"

lemma add_task_root:
  assumes "spin_ok e" and "boot_state k" and "parent ctx = None"
  shows "add_task e ctx k = Done (k\<lparr>registry := [task_id ctx \<mapsto> ctx]\<rparr>)"
  using assms
  by (auto simp: add_task_def holding_registry_def registry_add_def boot_state_def unlocked_def Let_def
      set_task_lock_def fun_upd_idem intro!: kernel.equality)

definition with_init_mount :: "init_dir \<Rightarrow> 'pt task_context \<Rightarrow> 'pt task_context" where
  "with_init_mount dir ctx = ctx\<lparr>files := (files ctx)\<lparr>file_root :=
     proc_mount init_name (InitFsPath (from_init_dir dir init_name)) (file_root (files ctx))\<rparr>\<rparr>"

text \<open>The registration of the init task, which finds every lock free.\<close>

lemma boot_registers:
  assumes "spin_ok e" and "boot_state k" and "create_init e ops (c_cr3 (core k)) s = Done init"
    and "add_task e init k = Done k1"
    and "create e ops P T (task_id init) start (set_current_task_id (task_id init) k1) s = Done (ctx, k2, s1)"
  shows "fresh_context 1 None Sleepy init" and "fresh_context 2 (Some 1) User ctx"
    and "holding_registry e (\<lambda>k3. and_then (registry_add e (with_init_mount dir ctx) k3)
          (\<lambda>k4. Done ((), queue_for_execution (task_id ctx) k4))) k2 =
      Done ((), k\<lparr>registry := [1 \<mapsto> init\<lparr>children := [2]\<rparr>, 2 \<mapsto> with_init_mount dir ctx], cur_task := 1, next_pid := 3,
        executable_tasks := [2]\<rparr>)"
proof -
  note I = create_init_Done [OF assms(3), unfolded fresh_context_def]
  note B = assms(2) [unfolded boot_state_def unlocked_def]
  have k1: "k1 = k\<lparr>registry := [1 \<mapsto> init]\<rparr>"
    using assms(4) add_task_root [OF assms(1,2), of init] I by simp
  note C = create_Done(1) [OF assms(5), unfolded fresh_context_def] create_Done(2) [OF assms(5)]
  let ?ctx1 = "with_init_mount dir ctx"
  have ctx1: "task_id ?ctx1 = 2" "parent ?ctx1 = Some 1" "task_id ctx = 2"
    using C(1) k1 B I by (simp_all add: with_init_mount_def set_current_task_id_def)
  let ?k3 = "k2\<lparr>registry_lock := WriteLocked\<rparr>"
  have k3: "registry ?k3 (task_id ?ctx1) = None" "registry ?k3 1 = Some init" "task_lock ?k3 1 = Unlocked"
    "task_lock ?k3 (task_id ?ctx1) = Unlocked" "registry_lock k2 = Unlocked"
    using C(2) k1 B by (simp_all add: ctx1 set_current_task_id_def)
  have ch: "children init = []" using I by simp
  have "registry_add e ?ctx1 ?k3 = Done (?k3\<lparr>registry := (registry ?k3)(2 \<mapsto> ?ctx1, 1 \<mapsto> init\<lparr>children := [2]\<rparr>)\<rparr>)"
    using registry_add_child [OF assms(1) k3(1) ctx1(2) k3(2,3,4)] by (simp add: ch ctx1)
  then have "holding_registry e (\<lambda>k3. and_then (registry_add e ?ctx1 k3) (\<lambda>k4. Done ((), queue_for_execution (task_id ctx) k4))) k2 =
      Done ((), (?k3\<lparr>registry := (registry ?k3)(2 \<mapsto> ?ctx1, 1 \<mapsto> init\<lparr>children := [2]\<rparr>),
      executable_tasks := executable_tasks k2 @ [2]\<rparr>)\<lparr>registry_lock := Unlocked\<rparr>)"
    using assms(1) k3(5) by (simp add: holding_registry_def queue_for_execution_def ctx1)
  moreover have "(?k3\<lparr>registry := (registry ?k3)(2 \<mapsto> ?ctx1, 1 \<mapsto> init\<lparr>children := [2]\<rparr>),
      executable_tasks := executable_tasks k2 @ [2]\<rparr>)\<lparr>registry_lock := Unlocked\<rparr> =
    k\<lparr>registry := [1 \<mapsto> init\<lparr>children := [2]\<rparr>, 2 \<mapsto> ?ctx1], cur_task := 1, next_pid := 3, executable_tasks := [2]\<rparr>"
    using C(2) k1 B I by (auto simp: set_current_task_id_def fun_upd_twist intro!: kernel.equality)
  ultimately show "holding_registry e (\<lambda>k3. and_then (registry_add e ?ctx1 k3)
          (\<lambda>k4. Done ((), queue_for_execution (task_id ctx) k4))) k2 =
      Done ((), k\<lparr>registry := [1 \<mapsto> init\<lparr>children := [2]\<rparr>, 2 \<mapsto> ?ctx1], cur_task := 1, next_pid := 3,
        executable_tasks := [2]\<rparr>)" by simp
  show "fresh_context 1 None Sleepy init" "fresh_context 2 (Some 1) User ctx"
    using C(1) B I k1 by (auto simp: fresh_context_def set_current_task_id_def)
qed

lemma boot_tasks_Done:
  assumes "spin_ok e" and "boot_state k" and "boot_tasks e ops P T dir start k s = Done (k', s')"
  obtains init :: "u64 task_context" and ctx where "fresh_context 1 None Sleepy init"
    "fresh_context 2 (Some 1) User (ctx\<lparr>files := file_storage_new 2\<rparr>)"
    "root_mounts (file_root (files ctx)) = [(init_name, InitFsPath (from_init_dir dir init_name))]"
    "k' = k\<lparr>registry := [1 \<mapsto> init\<lparr>children := [2]\<rparr>, 2 \<mapsto> ctx], cur_task := 1, next_pid := 3,
      executable_tasks := [2]\<rparr>"
proof -
  from assms(3) obtain init k1 ctx k2 s1 where st: "create_init e ops (c_cr3 (core k)) s = Done init"
    "add_task e init k = Done k1"
    "create e ops P T (task_id init) start (set_current_task_id (task_id init) k1) s = Done (ctx, k2, s1)"
    and fin: "and_then (holding_registry e (\<lambda>k3. and_then (registry_add e (with_init_mount dir ctx) k3)
            (\<lambda>k4. Done ((), queue_for_execution (task_id ctx) k4))) k2) (\<lambda>(_, k5). Done (k5, s1)) = Done (k', s')"
    by (auto simp: boot_tasks_def with_init_mount_def Let_def and_then_eq_Done)
  note R = boot_registers [OF assms(1,2) st]
  from fin R(3) [of dir] have "k' = k\<lparr>registry := [1 \<mapsto> init\<lparr>children := [2]\<rparr>, 2 \<mapsto> with_init_mount dir ctx],
      cur_task := 1, next_pid := 3, executable_tasks := [2]\<rparr>" by simp
  then show thesis
    using R(1,2) by (intro that [of init "with_init_mount dir ctx"])
      (auto simp: with_init_mount_def fresh_context_def proc_mount_def file_storage_new_def proc_root_new_def)
qed

section \<open>The user stack\<close>

lemma heap_stack_pages_eq:
  assumes "virt_ok e" and "page_ok e" and "KERNEL_HEAP_START \<le> stack" and "unat stack + 65536 < 2 ^ 64"
  shows "heap_stack_pages e stack =
    Done (page_starts (containing_address e stack) (if unat stack mod 4096 = 0 then 16 else 17))"
proof -
  have "upper_half \<le> stack"
    using assms(3) by (rule order_trans [rotated]) (simp add: kernel_addresses upper_half_def)
  from pages_of_64_KiB [OF assms(1,2) this assms(4)] show ?thesis by (simp add: heap_stack_pages_def USER_STACK_SIZE_def)
qed

lemma mount_stack_pages_mapped:
  assumes "virt_ok e" and "mapper_ok ops view" and "mount_stack_pages e ops T root kt t up hps s = Done s'"
    and "unat up + 4096 * length hps < 0x800000000000"
  shows "\<exists>frames. length frames = length hps \<and>
    mapped view t s s' (zip (page_starts up (length hps)) frames) user_stack_flags"
  using assms(3,4)
proof (induction hps arbitrary: up s)
  case Nil
  then show ?case by (simp add: mapped_Nil page_starts_def)
next
  case (Cons hp hps)
  from Cons.prems(1) obtain f s1 up' where st:
    "map_to ops (allocate_frame e ops root) t up f user_stack_flags s = Done (None, s1)"
    "virt_add e up 4096 = Some up'" "mount_stack_pages e ops T root kt t up' hps s1 = Done s'"
    by (auto simp: and_then_eq_Done split: if_splits)
  have u: "unat (up + 4096) = unat up + 4096" using Cons.prems(2) by (subst unat_add_no_overflow) simp_all
  have "up + 4096 < 0x800000000000" using u Cons.prems(2) by (simp add: word_less_nat_alt)
  then have up': "up' = up + 4096"
    using st(2) by (auto simp: virt_simps(2) [OF assms(1)] sign_extend_47_def canonical_def split: if_splits)
  have leaf: "maps_leaf view t up f user_stack_flags None s s1"
    by (rule mapper_leaf(2) [OF assms(2) allocate_frame_view [OF assms(2)] st(1)])
  from Cons.IH [OF st(3)] Cons.prems(2) u up' obtain frames where fr: "length frames = length hps"
    "mapped view t s1 s' (zip (page_starts (up + 4096) (length hps)) frames) user_stack_flags" by auto
  have "page_starts up (Suc n) = up # page_starts (up + 4096) n" for n
    by (simp add: page_starts_def upt_conv_Cons map_Suc_upt [symmetric] algebra_simps del: upt_Suc)
  with mapped_Cons [OF leaf fr(2)] fr(1) show ?case by (intro exI [of _ "f # frames"]) simp
qed

section \<open>Properties\<close>

text \<open>
  C37: \<open>spawn\<close> never returns a process. Without the capability it refuses and changes nothing. With
  it the caller stays locked while the registry adds the child, which waits for the lock of the
  parent, the caller itself: the processor hangs with the registry locked (unless creating the
  task has panicked before).
\<close>
theorem spawn_never_returns:
  assumes "spin_ok e" and "sched_ok k" and "registry k (cur_task k) = Some c"
  shows "if spawn_cap c
    then spawn e ops P T jmp s k \<in> {Panic, Hang} \<and>
      (\<forall>child k3 s1. create e ops P T (cur_task k) jmp (set_task_lock (cur_task k) WriteLocked k) s = Done (child, k3, s1) \<and>
         registry k (task_id child) = None \<longrightarrow> spawn e ops P T jmp s k = Hang)
    else spawn e ops P T jmp s k = Done ((Inl WrongCapability, s), k)"
proof (cases "spawn_cap c")
  case True
  then show ?thesis
    using spawn_cases(3) [OF assms True, of ops P T jmp s] spawn_cases(2) [OF assms True, of ops P T jmp s] by auto
next
  case False
  then show ?thesis by (simp add: spawn_cases(1) [OF assms False])
qed

lemma exec_file_fails:
  assumes "goblin_ok G" and "exec_file e G ops proc cur fd s k = Done ((r, s'), k')"
  shows "s' = s \<and> r \<in> {Inl WrongDescriptor, Inl NoMemory, Inl FsNotExecutable} \<and>
    (registry k' = registry k \<or> (\<exists>c h. registry k cur = Some c \<and> registry k' = (registry k)(cur \<mapsto> c\<lparr>files := h\<rparr>))) \<and>
    cur_task k' = cur_task k"
proof -
  have empty: "elf_new G [] = Inl InvalidSize" by (simp add: elf_new_def)
  from assms(2) obtain child c where reg: "registry k proc = Some child" "registry k cur = Some c"
    by (auto simp: exec_file_def and_then_eq_Done)
  show ?thesis
  proof (cases "pairs_get fd (file_handles (files c))")
    case None
    with assms(2) reg show ?thesis by (auto simp: exec_file_def)
  next
    case (Some h)
    let ?rd = "read_file_to_memory e h (1024 * 1024 * 1024)"
    have "?rd \<in> {Done (Inr [], h), Done (Inl NoMemory, h), Panic}" by (rule read_file_one_round)
    then have "s' = s \<and> r \<in> {Inl NoMemory, Inl FsNotExecutable} \<and> registry k' = (registry k)(cur \<mapsto> c\<lparr>files :=
        (files c)\<lparr>file_handles := pairs_set fd h (file_handles (files c))\<rparr>\<rparr>) \<and> cur_task k' = cur_task k"
      using assms(2) reg Some by (auto simp: exec_file_def Let_def empty update_task_def)
    with reg(2) show ?thesis by blast
  qed
qed

lemma exec_call_fails:
  assumes "goblin_ok G" and "exec_call e G ops proc fd s k = Done ((r, s'), k')"
  shows "s' = s \<and> r \<in> {Inl WrongParameters, Inl WrongProcess, Inl WrongDescriptor, Inl NoMemory, Inl FsNotExecutable} \<and>
    (registry k' = registry k \<or> (\<exists>t c h. registry k t = Some c \<and> registry k' = (registry k)(t \<mapsto> c\<lparr>files := h\<rparr>))) \<and>
    cur_task k' = cur_task k"
proof (cases "proc = 0")
  case True
  with assms(2) show ?thesis by (auto simp: exec_call_def)
next
  case False
  with assms(2) obtain found k1 where get: "reading_registry e (\<lambda>k1. Done (registry_get proc k1, k1)) k = Done (found, k1)"
    and rest: "(case found of None \<Rightarrow> Done ((Inl WrongProcess, s), k1)
      | Some _ \<Rightarrow> holding_task e proc (\<lambda>k2.
            and_then (unwrap (registry k2 proc)) (\<lambda>child.
            and_then (current_task_id k2) (\<lambda>cur.
            if parent child \<noteq> Some cur then Done ((Inl WrongProcess, s), k2)
            else if user_entry_point child \<noteq> 0 then Done ((Inl WrongProcess, s), k2)
            else and_then (current_task e k2) (\<lambda>(t, k3).
              holding_task e t (exec_file e G ops proc t fd s) k3)))) k1) = Done ((r, s'), k')"
    by (auto simp: exec_call_def and_then_eq_Done)
  from get have f: "registry k1 = registry k" "cur_task k1 = cur_task k"
    by (auto simp: reading_registry_def and_then_eq_Done)
  show ?thesis
  proof (cases found)
    case None
    with rest f show ?thesis by auto
  next
    case (Some x)
    with rest obtain l child cur k5 where st: "registry k1 proc = Some child"
      "(if parent child \<noteq> Some cur then Done ((Inl WrongProcess, s), set_task_lock proc l k1)
        else if user_entry_point child \<noteq> 0 then Done ((Inl WrongProcess, s), set_task_lock proc l k1)
        else and_then (current_task e (set_task_lock proc l k1)) (\<lambda>(t, k3).
          holding_task e t (exec_file e G ops proc t fd s) k3)) = Done ((r, s'), k5)"
      "k' = set_task_lock proc Unlocked k5"
      by (auto simp: holding_task_def and_then_eq_Done set_task_lock_def)
    show ?thesis
    proof (cases "parent child \<noteq> Some cur \<or> user_entry_point child \<noteq> 0")
      case True
      with st f show ?thesis by (auto simp: set_task_lock_def split: if_splits)
    next
      case False
      with st(2) obtain t k3 where cur: "current_task e (set_task_lock proc l k1) = Done (t, k3)"
        "holding_task e t (exec_file e G ops proc t fd s) k3 = Done ((r, s'), k5)"
        by (auto simp: and_then_eq_Done)
      from current_task_Done [OF cur(1)] f have k3: "registry k3 = registry k" "cur_task k3 = cur_task k"
        by (auto simp: set_task_lock_def)
      from cur(2) obtain l2 k6 where ex: "exec_file e G ops proc t fd s (set_task_lock t l2 k3) = Done ((r, s'), k6)"
        "k5 = set_task_lock t Unlocked k6"
        by (auto simp: holding_task_def and_then_eq_Done)
      from exec_file_fails [OF assms(1) ex(1)] ex(2) st(3) k3 show ?thesis
        by (auto simp: set_task_lock_def)
    qed
  qed
qed

text \<open>
  \<open>exec\<close> never starts a program. Reading the file into memory gives no bytes, so the file is
  refused as not executable at the latest; the machine, and with it the memory of the child, is
  left as it was.
\<close>
theorem exec_never_succeeds:
  assumes "goblin_ok G" and "exec_call e G ops proc fd s k = Done ((r, s'), k')"
  shows "(\<exists>err \<in> {WrongParameters, WrongProcess, WrongDescriptor, NoMemory, FsNotExecutable}. r = Inl err) \<and> s' = s"
  using exec_call_fails [OF assms] by auto

text \<open>
  Process ids are never used twice. The id of a new task is not 0 and not registered, and is
  below the counter when the task has been added, as all registered ids are.
\<close>
theorem new_pid_fresh:
  assumes "pids_ok k" and "create e ops P T p func k s = Done (ctx, k1, s1)" and "registry_add e ctx k1 = Done k2"
  shows "task_id ctx \<noteq> 0 \<and> registry k (task_id ctx) = None \<and> task_id ctx < next_pid k2 \<and> pids_ok k2"
proof -
  note C = create_Done [OF assms(2)]
  have t: "task_id ctx = next_pid k" using C(1) by (simp add: fresh_context_def)
  note A = registry_add_Done [OF assms(3)]
  have n: "next_pid k2 = next_pid k + 1" using A(2) C(2) by simp
  have less: "next_pid k < next_pid k + 1" by (rule self_less_plus_one [OF C(3)])
  have two: "2 \<le> next_pid k" using assms(1) by (simp add: pids_ok_def)
  have "pids_ok k2"
    unfolding pids_ok_def n
  proof (intro conjI allI impI)
    show "2 \<le> next_pid k + 1" using two less by simp
    fix x
    assume "registry k2 x \<noteq> None"
    then have "x = next_pid k \<or> registry k x \<noteq> None" using A(3) [of x] C(2) t by simp
    then have "x = next_pid k \<or> x \<noteq> 0 \<and> x < next_pid k" using assms(1) by (auto simp: pids_ok_def)
    then show "x \<noteq> 0" "x < next_pid k + 1" using two less by (auto intro: less_trans)
  qed
  moreover have "registry k (next_pid k) = None" using A(1) C(2) t by simp
  ultimately show ?thesis using two less by (auto simp: t n)
qed

text \<open>
  The kernel starts in a state of the invariants: the scheduler, the family tree and the ids
  are consistent, task 1 runs and task 2 waits for the processor. And no task holds any authority.
\<close>
theorem boot_establishes:
  assumes "spin_ok e" and "boot_state k" and "boot_tasks e ops P T dir start k s = Done (k', s')"
  shows "sched_ok k' \<and> family_ok k' \<and> pids_ok k' \<and> cur_task k' = 1 \<and> executable_tasks k' = [2] \<and>
    (\<forall>t. task_authority k' t = {})"
proof -
  from boot_tasks_Done [OF assms] obtain init :: "u64 task_context" and ctx where
    i: "fresh_context 1 None Sleepy init" and
    c: "fresh_context 2 (Some 1) User (ctx\<lparr>files := file_storage_new 2\<rparr>)" and
    k': "k' = k\<lparr>registry := [1 \<mapsto> init\<lparr>children := [2]\<rparr>, 2 \<mapsto> ctx], cur_task := 1, next_pid := 3,
      executable_tasks := [2]\<rparr>" by blast
  have "unlocked k'" using assms(2) by (auto simp: k' boot_state_def unlocked_def)
  moreover have "ids_ok k'" "family_ok k'"
    using i c by (auto simp: k' ids_ok_def family_ok_def fresh_context_def split: if_splits)
  moreover have "task_authority k' t = {}" for t
    using i c by (auto simp: k' task_authority_def fresh_context_def store_authority_def cap_storage_default_def)
  moreover have "pids_ok k'" by (auto simp: k' pids_ok_def)
  ultimately show ?thesis
    using i c by (auto simp: k' sched_ok_def runnable_def fresh_context_def)
qed

text \<open>
  The user stack of a new task covers its 64 KiB from the user address on, and is mapped with
  user access, writable and not executable. The box of the stack has no alignment: when it
  starts inside a page, a seventeenth page is mapped, and the task gets the rest of the first and
  of the last page, which belong to other boxes of the kernel heap.
\<close>
theorem user_stack_mapped:
  assumes "virt_ok e" and "page_ok e" and "mapper_ok ops view" and "user_stack ctx = Some stack"
    and "KERNEL_HEAP_START \<le> stack" and "unat stack + 65536 < 2 ^ 64"
    and "mount_user_stack e ops T root ctx s = Done s'"
  shows "\<exists>frames. length frames = (if unat stack mod 4096 = 0 then 16 else 17) \<and>
    mapped view (page_table ctx) s s' (zip (page_starts USERSPACE_STACK_ADDR (length frames)) frames) user_stack_flags"
proof -
  have "sign_extend_47 USERSPACE_STACK_ADDR = Some USERSPACE_STACK_ADDR"
    by (simp add: sign_extend_47_def canonical_def USERSPACE_STACK_ADDR_def)
  then have a: "virt_new e USERSPACE_STACK_ADDR = Some USERSPACE_STACK_ADDR" by (simp add: virt_simps(1) [OF assms(1)])
  have b: "containing_address e USERSPACE_STACK_ADDR = USERSPACE_STACK_ADDR"
    by (simp add: page_ranges(4) [OF assms(2)] USERSPACE_STACK_ADDR_def)
  let ?n = "if unat stack mod 4096 = 0 then 16 else 17 :: nat"
  from assms(4,7) heap_stack_pages_eq [OF assms(1,2,5,6)] a b obtain kt where
    run: "mount_stack_pages e ops T root kt (page_table ctx) USERSPACE_STACK_ADDR
      (page_starts (containing_address e stack) ?n) s = Done s'"
    by (auto simp: mount_user_stack_def and_then_eq_Done)
  have len: "length (page_starts (containing_address e stack) ?n) = ?n" by (simp add: page_starts_def)
  have "unat USERSPACE_STACK_ADDR + 4096 * ?n < 0x800000000000" by (simp add: USERSPACE_STACK_ADDR_def)
  from mount_stack_pages_mapped [OF assms(1,3) run, unfolded len, OF this] obtain frames where
    "length frames = ?n"
    "mapped view (page_table ctx) s s' (zip (page_starts USERSPACE_STACK_ADDR ?n) frames) user_stack_flags" by blast
  then show ?thesis by (intro exI [of _ frames]) simp
qed

section \<open>Examples\<close>

text \<open>A machine without a state: every box is at the same place, every mapping succeeds.\<close>

definition idle_ops :: "'m mem_ops" where
  "idle_ops = \<lparr> box_page = (\<lambda>m. (Some 0xFFFFC00000010000, m)), drop_box = (\<lambda>_ m. m),
     translate_addr = (\<lambda>t v m. Some (v - KERNEL_HEAP_START + 0x100000)),
     map_to_with_flags = (\<lambda>alloc t p f fl pf s. Done (None, s)),
     map_to = (\<lambda>alloc t p f fl s. Done (None, s)), write_bytes = (\<lambda>a bs m. m) \<rparr>"

definition idle_ptes :: "unit pte_ops" where
  "idle_ptes = \<lparr> load_entry = (\<lambda>a m. 0), store_entry = (\<lambda>a v m. m), entry_addr = (\<lambda>v. v),
     entry_flags = (\<lambda>v. v), set_flags = (\<lambda>v f. f) \<rparr>"

definition idle_tasks :: "'m task_ops" where
  "idle_tasks = \<lparr> box_bytes = (\<lambda>n m. (Some 0xFFFFC00000020000, m)), translate_page = (\<lambda>t v m. Some 0x130000) \<rparr>"

definition idle_frames :: "unit frames" where
  "idle_frames = \<lparr> hw = (), frame_entries = [] \<rparr>"

lemma idle_mount:
  "unat up + 4096 * length hps < 0x800000000000 \<Longrightarrow>
     mount_stack_pages (documented_env oc) idle_ops idle_tasks root kt t up hps s = Done s"
proof (induction hps arbitrary: up)
  case Nil
  then show ?case by simp
next
  case (Cons hp hps)
  have u: "unat (up + 4096) = unat up + 4096" using Cons.prems by (subst unat_add_no_overflow) simp_all
  have "up + 4096 < 0x800000000000" using u Cons.prems by (simp add: word_less_nat_alt)
  then have "virt_add (documented_env oc) up 4096 = Some (up + 4096)"
    using Cons.prems by (simp add: documented_env_def sign_extend_47_def canonical_def)
  with Cons u show ?case by (simp add: idle_tasks_def idle_ops_def)
qed

lemma idle_create:
  assumes "c_cr3 (core k) = 0x5000" and "next_pid k \<noteq> - 1"
  shows "\<exists>ctx s'. create (documented_env True) idle_ops P idle_tasks p func k s =
    Done (ctx, k\<lparr>next_pid := next_pid k + 1\<rparr>, s')"
proof -
  let ?e = "documented_env True"
  have hp: "heap_stack_pages ?e 0xFFFFC00000020000 = Done (page_starts 0xFFFFC00000020000 16)"
    using heap_stack_pages_eq [of ?e "0xFFFFC00000020000"]
    by (simp add: kernel_addresses) (simp add: documented_env_def)
  have a: "virt_new ?e USERSPACE_STACK_ADDR = Some USERSPACE_STACK_ADDR" "containing_address ?e USERSPACE_STACK_ADDR = 0x40000000"
    by (simp_all add: documented_env_def USERSPACE_STACK_ADDR_def sign_extend_47_def canonical_def)
  have f: "user_table_frame ?e idle_ops 0xFFFFC00000010000 m = Done 0x110000" for m
    by (simp add: user_table_frame_def documented_env_def sign_extend_47_def canonical_def idle_ops_def kernel_addresses)
  have len: "length (page_starts 0xFFFFC00000020000 16) = 16" by (simp add: page_starts_def)
  have boxes: "box_page idle_ops m = (Some 0xFFFFC00000010000, m)" "box_bytes idle_tasks n m = (Some 0xFFFFC00000020000, m)"
    for m n by (simp_all add: idle_ops_def idle_tasks_def)
  have sums: "add_chk oc 0xFFFFC00000020000 (of_nat KERNEL_STACK_SIZE) = Done 0xFFFFC00000024000"
    "sub_chk oc 0xFFFFC00000024000 8 = Done 0xFFFFC00000023FF8" for oc
    by (simp_all add: add_chk_def sub_chk_def KERNEL_STACK_SIZE_def)
  obtain m' where table: "user_table_new_from idle_ops P 0xFFFFA00000005000 (hw s) = Done (0xFFFFC00000010000, m')"
    unfolding user_table_new_from_def boxes Let_def by (simp del: upt_rec_numeral)
  show ?thesis
    by (simp add: create_def Let_def assms example_page_table allocate_pid_def table boxes
        alloc_stack_def with_cr3_def new_context_def f mount_user_stack_def hp a idle_mount len sums)
qed

definition start_kernel :: table_kernel where
  "start_kernel = \<lparr> registry = (\<lambda>_. None), executable_tasks = [], registry_lock = Unlocked,
     task_lock = (\<lambda>_. Unlocked), cur_task = 0, switch_locks = None,
     core = context_regs_default\<lparr>c_cr3 := 0x5000\<rparr>, next_pid = 2 \<rparr>"

lemma start_kernel_boot: "boot_state start_kernel"
  by (simp add: boot_state_def start_kernel_def unlocked_def)

lemma idle_boot:
  "\<exists>k' s'. boot_tasks (documented_env True) idle_ops P idle_tasks [] 0x1234 start_kernel s = Done (k', s')"
proof -
  let ?e = "documented_env True"
  have f: "user_table_frame ?e idle_ops t m = Done (t - KERNEL_HEAP_START + 0x100000)"
    if "canonical t" "t AND 0xFFF = 0" "(t - KERNEL_HEAP_START + 0x100000) AND 0xFFF = 0" for t m
    using that by (simp add: user_table_frame_def documented_env_def sign_extend_47_def idle_ops_def)
  obtain init where init: "create_init ?e idle_ops 0x5000 s = Done init"
    by (simp add: create_init_def user_table_from_current_def example_page_table with_cr3_def new_context_def
        f canonical_def kernel_addresses)
  note I = create_init_Done [OF init, unfolded fresh_context_def]
  let ?k1 = "start_kernel\<lparr>registry := [1 \<mapsto> init]\<rparr>"
  have k1: "add_task ?e init start_kernel = Done ?k1"
    using add_task_root [OF documented_spin start_kernel_boot, of init True] I by simp
  let ?k2 = "set_current_task_id 1 ?k1"
  have "c_cr3 (core ?k2) = 0x5000" "next_pid ?k2 \<noteq> - 1"
    by (simp_all add: set_current_task_id_def start_kernel_def)
  from idle_create [OF this] obtain ctx s' where
    cr: "create ?e idle_ops P idle_tasks 1 0x1234 ?k2 s = Done (ctx, ?k2\<lparr>next_pid := next_pid ?k2 + 1\<rparr>, s')"
    by blast
  note C = create_Done(1) [OF cr, unfolded fresh_context_def]
  have "start_kernel\<lparr>registry := \<lambda>_. None\<rparr> = start_kernel" by (simp add: start_kernel_def)
  then show ?thesis
    using I C init k1 cr
    by (simp add: boot_tasks_def Let_def holding_registry_def registry_add_def set_current_task_id_def
        holding_task_def set_task_lock_def update_task_def)
       (simp add: start_kernel_def Let_def holding_task_def set_task_lock_def update_task_def)
qed

theorem boot_establishes_witness:
  "\<exists>k' s'. boot_tasks (documented_env True) idle_ops idle_ptes idle_tasks [] 0x1234 start_kernel idle_frames = Done (k', s') \<and>
     sched_ok k' \<and> executable_tasks k' = [2]"
  using idle_boot boot_establishes [OF documented_spin start_kernel_boot] by blast

text \<open>Task 2 with the right to spawn.\<close>

definition spawning :: table_kernel where
  "spawning = start_kernel\<lparr>cur_task := 2, next_pid := 3, registry := [1 \<mapsto> (new_context 1 None Sleepy 0 None None)\<lparr>children := [2]\<rparr>,
     2 \<mapsto> (new_context 2 (Some 1) User 0 None None)\<lparr>capabilities :=
       \<lparr> next_handle = 1, cap_handles = [(0, \<lparr> cap_perms = 0, ctype = SpawnProcess \<rparr>)] \<rparr>\<rparr>]\<rparr>"

lemma spawning_ok: "sched_ok spawning"
  by (auto simp: spawning_def start_kernel_def sched_ok_def unlocked_def ids_ok_def runnable_def new_context_def)

theorem spawn_never_returns_witness:
  "spawn (documented_env True) idle_ops idle_ptes idle_tasks 0x1234 idle_frames spawning = Hang"
proof -
  let ?e = "documented_env True" and ?k = "set_task_lock 2 WriteLocked spawning"
  let ?c = "(new_context 2 (Some 1) User 0 None None)\<lparr>capabilities :=
       \<lparr> next_handle = 1, cap_handles = [(0, \<lparr> cap_perms = 0, ctype = SpawnProcess \<rparr>)] \<rparr>\<rparr>"
  have c: "registry spawning (cur_task spawning) = Some ?c" "spawn_cap ?c" "cur_task spawning = 2"
    by (simp_all add: spawning_def spawn_cap_def)
  have "c_cr3 (core ?k) = 0x5000" "next_pid ?k \<noteq> - 1"
    by (simp_all add: set_task_lock_def spawning_def start_kernel_def)
  from idle_create [OF this] obtain ctx s' where
    cr: "create ?e idle_ops idle_ptes idle_tasks 2 0x1234 ?k idle_frames = Done (ctx, ?k\<lparr>next_pid := next_pid ?k + 1\<rparr>, s')"
    by blast
  have "task_id ctx = 3" using create_Done(1) [OF cr] by (simp add: fresh_context_def set_task_lock_def spawning_def)
  then have "registry spawning (task_id ctx) = None" by (simp add: spawning_def)
  with spawn_never_returns [where ops = idle_ops and P = idle_ptes and T = idle_tasks and jmp = "0x1234"
      and s = idle_frames and e = ?e, OF documented_spin spawning_ok c(1)]
    c(2,3) cr show ?thesis by auto
qed

theorem exec_never_succeeds_witness:
  "exec_call (documented_env True) elf64 idle_ops 0 1 idle_frames spawning = Done ((Inl WrongParameters, idle_frames), spawning)"
proof -
  have run: "exec_call (documented_env True) elf64 idle_ops 0 1 idle_frames spawning = Done ((Inl WrongParameters, idle_frames), spawning)"
    by (simp add: exec_call_def)
  from exec_never_succeeds [OF elf64_ok run] run show ?thesis by blast
qed

theorem new_pid_fresh_witness:
  "\<exists>k2 :: table_kernel. pids_ok k2 \<and> registry k2 3 \<noteq> None \<and> registry spawning 3 = None"
proof -
  have ok: "pids_ok spawning" by (simp add: pids_ok_def spawning_def)
  have "c_cr3 (core spawning) = 0x5000" "next_pid spawning \<noteq> - 1" by (simp_all add: spawning_def start_kernel_def)
  from idle_create [OF this] obtain ctx s' where
    cr: "create (documented_env True) idle_ops idle_ptes idle_tasks 1 0x1234 spawning idle_frames =
      Done (ctx, spawning\<lparr>next_pid := next_pid spawning + 1\<rparr>, s')" by blast
  note C = create_Done(1) [OF cr, unfolded fresh_context_def]
  let ?k1 = "spawning\<lparr>next_pid := next_pid spawning + 1\<rparr>"
  have "\<exists>k2. registry_add (documented_env True) ctx ?k1 = Done k2"
    using C by (simp add: registry_add_def Let_def holding_task_def set_task_lock_def)
      (simp add: spawning_def start_kernel_def)
  then obtain k2 where k2: "registry_add (documented_env True) ctx ?k1 = Done k2" ..
  have "task_id ctx = 3" using C by (simp add: spawning_def)
  with registry_add_Done(3) [OF k2, of 3] new_pid_fresh [OF ok cr k2]
  have "pids_ok k2 \<and> registry k2 3 \<noteq> None \<and> registry spawning 3 = None" by simp
  then show ?thesis by blast
qed

text \<open>A stack box at the start of a page.\<close>

definition leaf_tasks :: "leaf_machine task_ops" where
  "leaf_tasks = \<lparr> box_bytes = (\<lambda>n m. (None, m)), translate_page = (\<lambda>t v m. Some (v - KERNEL_HEAP_START + 0x100000)) \<rparr>"

lemma leaf_mount:
  assumes "unat up + 4096 * length hps < 0x800000000000" and "\<forall>p \<in> set (page_starts up (length hps)). leaf_view t (hw s) p = None"
  shows "\<exists>s'. mount_stack_pages (documented_env True) leaf_ops leaf_tasks root kt t up hps s = Done s'"
  using assms
proof (induction hps arbitrary: up s)
  case Nil
  then show ?case by simp
next
  case (Cons hp hps)
  obtain l bs where hw: "hw s = (l, bs)" by (cases "hw s")
  have u: "unat (up + 4096) = unat up + 4096" using Cons.prems(1) by (subst unat_add_no_overflow) simp_all
  have "up + 4096 < 0x800000000000" using u Cons.prems(1) by (simp add: word_less_nat_alt)
  then have va: "virt_add (documented_env True) up 4096 = Some (up + 4096)"
    using Cons.prems(1) by (simp add: documented_env_def sign_extend_47_def canonical_def)
  have ps: "page_starts up (Suc n) = up # page_starts (up + 4096) n" for n
    by (simp add: page_starts_def upt_conv_Cons map_Suc_upt [symmetric] algebra_simps del: upt_Suc)
  have free: "l t up = None" "\<forall>p \<in> set (page_starts (up + 4096) (length hps)). l t p = None"
    using Cons.prems(2) by (simp_all add: ps leaf_view_def hw)
  let ?s1 = "s\<lparr>hw := (l(t := (l t)(up \<mapsto> (hp - KERNEL_HEAP_START + 0x100000, user_stack_flags))), bs)\<rparr>"
  have new: "up \<notin> set (page_starts (up + 4096) (length hps))"
  proof
    assume "up \<in> set (page_starts (up + 4096) (length hps))"
    then obtain i where i: "i < length hps" "up = up + 4096 + 4096 * of_nat i" by (auto simp: page_starts_def)
    then have "4096 * of_nat (Suc i) = (0 :: u64)" by (simp add: algebra_simps)
    then have "of_nat (4096 * Suc i) = (0 :: u64)" by simp
    moreover have "unat (of_nat (4096 * Suc i) :: u64) = 4096 * Suc i"
      using i(1) Cons.prems(1) by (intro unat_of_nat_u64) simp
    ultimately show False by (metis mult_is_0 nat.distinct(1) unat_0 zero_neq_numeral)
  qed
  then have "\<forall>p \<in> set (page_starts (up + 4096) (length hps)). leaf_view t (hw ?s1) p = None"
    using free(2) by (auto simp: leaf_view_def)
  with Cons.IH [of "up + 4096" ?s1] Cons.prems(1) u obtain s' where
    "mount_stack_pages (documented_env True) leaf_ops leaf_tasks root kt t (up + 4096) hps ?s1 = Done s'" by auto
  then show ?case using free(1) by (simp add: leaf_tasks_def leaf_ops_def leaf_map_def hw va)
qed

theorem user_stack_mapped_witness:
  "\<exists>s' frames. length frames = 17 \<and>
     mount_user_stack (documented_env True) leaf_ops leaf_tasks 0x5000
       (new_context 2 (Some 1) User 0xFFFFC00000010000 None (Some 0xFFFFC00000020010)) example_pool = Done s' \<and>
     mapped leaf_view 0xFFFFC00000010000 example_pool s' (zip (page_starts USERSPACE_STACK_ADDR 17) frames) user_stack_flags"
proof -
  let ?e = "documented_env True" and ?t = "0xFFFFC00000010000 :: u64"
  let ?c = "new_context 2 (Some 1) User ?t None (Some 0xFFFFC00000020010)"
  have hp: "heap_stack_pages ?e 0xFFFFC00000020010 = Done (page_starts 0xFFFFC00000020000 17)"
    using heap_stack_pages_eq [of ?e "0xFFFFC00000020010"]
    by (simp add: kernel_addresses) (simp add: documented_env_def)
  have a: "virt_new ?e USERSPACE_STACK_ADDR = Some USERSPACE_STACK_ADDR" "containing_address ?e USERSPACE_STACK_ADDR = 0x40000000"
    by (simp_all add: documented_env_def USERSPACE_STACK_ADDR_def sign_extend_47_def canonical_def)
  have "\<exists>s'. mount_stack_pages ?e leaf_ops leaf_tasks 0x5000 0xFFFFA00000005000 ?t 0x40000000
      (page_starts 0xFFFFC00000020000 17) example_pool = Done s'"
    by (rule leaf_mount) (simp_all add: page_starts_def leaf_view_def example_pool_def)
  then obtain s' where run: "mount_user_stack ?e leaf_ops leaf_tasks 0x5000 ?c example_pool = Done s'"
    by (auto simp: mount_user_stack_def example_page_table new_context_def hp a)
  have us: "user_stack ?c = Some 0xFFFFC00000020010" by (simp add: new_context_def)
  from user_stack_mapped [OF documented_virt documented_page leaf_ops_ok us _ _ run] run
  show ?thesis by (force simp: kernel_addresses new_context_def)
qed

end
