(* ===== verification/Syscall_Entry.thy ===== *)
theory Syscall_Entry
  imports Machine
begin

text \<open>
  Entering and leaving the kernel (\<open>syscalls/asm.rs\<close>, the naked function \<open>on_syscall_raw\<close> of
  \<open>syscalls/mod.rs\<close>, \<open>enter_userspace\<close> of \<open>syscalls/userspace.rs\<close>): the macros that generate
  the pushes and pops, the frame \<open>AllSavedRegisters\<close> they build on the kernel stack, and the way of
  a system call through it. The Rust function in the middle is an argument; what is proved about
  the way in and out holds for every handler that works on the frame.
\<close>

section \<open>The macros\<close>

fun concat_reverse :: "'a list \<Rightarrow> 'a list \<Rightarrow> 'a list" where
  "concat_reverse [] reversed = reversed"
| "concat_reverse (first # rest) reversed = concat_reverse rest (first # reversed)"

definition save_specified_regs :: "reg list \<Rightarrow> instr list" where
  "save_specified_regs rs = concat_reverse (map Push rs) []"

definition load_specified_regs :: "reg list \<Rightarrow> instr list" where
  "load_specified_regs rs = map Pop rs"

definition all_regs :: "reg list" where
  "all_regs = [Rax, Rbx, Rcx, Rdx, Rbp, Rsi, Rdi, R8, R9, R10, R11, R12, R13, R14, R15]"

definition save_all_regs :: "instr list" where
  "save_all_regs = save_specified_regs all_regs @ [Pushfq]"

definition load_all_regs :: "instr list" where
  "load_all_regs = Popfq # load_specified_regs all_regs"

text \<open>\<open>AllSavedRegisters\<close> (\<open>repr(C)\<close>): \<open>rflags\<close> and then the registers of the list, 8 bytes each.\<close>

record saved_regs =
  sr_rflags :: u64
  sr_reg :: "reg \<Rightarrow> u64"

definition reg_index :: "reg \<Rightarrow> nat option" where
  "reg_index r = position (\<lambda>x. x = r) all_regs"

definition frame_at :: "(u64 \<Rightarrow> u64) \<Rightarrow> u64 \<Rightarrow> saved_regs" where
  "frame_at m a = \<lparr> sr_rflags = m a,
     sr_reg = (\<lambda>r. case reg_index r of Some i \<Rightarrow> m (a + 8 * of_nat (Suc i)) | None \<Rightarrow> 0) \<rparr>"

section \<open>The entry point\<close>

text \<open>
  The two slots of the thread control data, relative to \<open>fs\<close>; the offset of \<open>TCD\<close> from the
  thread pointer is chosen by the linker.
\<close>

definition user_sp_slot :: "u64 \<Rightarrow> u64" where "user_sp_slot tcd = tcd + 0 + 8"
definition kernel_sp_slot :: "u64 \<Rightarrow> u64" where "kernel_sp_slot tcd = tcd + 8 + 8"

text \<open>The processor on \<open>syscall\<close>: the return address goes to \<open>rcx\<close> and the flags to \<open>r11\<close>.\<close>

definition do_syscall :: "u64 \<Rightarrow> cpu \<Rightarrow> cpu" where
  "do_syscall rip c = c\<lparr>gpr := (gpr c)(Rcx := rip, R11 := rflags c)\<rparr>"

text \<open>\<open>sysretq\<close>: the address to go on at, and the flags out of \<open>r11\<close> without RF and VM.\<close>

definition sysret_flags :: "u64 \<Rightarrow> u64" where
  "sysret_flags v = (v AND 0x3C7FD7) OR 2"

definition do_sysret :: "cpu \<Rightarrow> u64 \<times> cpu" where
  "do_sysret c = (gpr c Rcx, c\<lparr>rflags := sysret_flags (gpr c R11)\<rparr>)"

definition entry_asm :: "u64 \<Rightarrow> instr list" where
  "entry_asm tcd =
     [Swapgs, StoreFs (user_sp_slot tcd) Rsp, LoadFs Rsp (kernel_sp_slot tcd)] @
     save_all_regs @ [MovR Rdi Rsp]"

definition exit_asm :: "u64 \<Rightarrow> instr list" where
  "exit_asm tcd = load_all_regs @ [LoadFs Rsp (user_sp_slot tcd), Swapgs]"

definition on_syscall_raw :: "u64 \<Rightarrow> (cpu \<Rightarrow> cpu) \<Rightarrow> cpu \<Rightarrow> u64 \<times> cpu" where
  "on_syscall_raw tcd c_syscall c =
     do_sysret (run (exit_asm tcd) (c_syscall (run (entry_asm tcd) c)))"

text \<open>\<open>enter_userspace\<close>: the first way out, with the interrupt flag set.\<close>

definition enter_userspace :: "u64 \<Rightarrow> u64 \<Rightarrow> cpu \<Rightarrow> u64 \<times> cpu" where
  "enter_userspace tcd ip c =
     do_sysret (run [StoreFs (kernel_sp_slot tcd) Rsp, LoadFs Rsp (user_sp_slot tcd), Swapgs]
       (set_reg R11 0x200 (set_reg Rcx ip c)))"

section \<open>Pushing and popping\<close>

lemma concat_reverse_rev: "concat_reverse xs ys = rev xs @ ys"
  by (induction xs ys rule: concat_reverse.induct) auto

lemma save_specified_rev: "save_specified_regs rs = map Push (rev rs)"
  by (simp add: save_specified_regs_def concat_reverse_rev rev_map)

fun pushed :: "u64 list \<Rightarrow> u64 \<Rightarrow> (u64 \<Rightarrow> u64) \<Rightarrow> u64 \<Rightarrow> u64" where
  "pushed [] sp m = m"
| "pushed (v # vs) sp m = pushed vs (sp - 8) (m(sp - 8 := v))"

lemma run_push:
  assumes "Rsp \<notin> set rs"
  shows "run (map Push rs) c = c\<lparr>gpr := (gpr c)(Rsp := gpr c Rsp - 8 * of_nat (length rs)),
    slots := pushed (map (gpr c) rs) (gpr c Rsp) (slots c)\<rparr>"
  using assms
proof (induction rs arbitrary: c)
  case Nil
  then show ?case by simp
next
  case (Cons r rs)
  let ?c = "push_val (gpr c r) c"
  have g: "gpr ?c = (gpr c)(Rsp := gpr c Rsp - 8)" "slots ?c = (slots c)(gpr c Rsp - 8 := gpr c r)"
    by (simp_all add: machine_defs)
  from Cons.prems have m: "map (gpr ?c) rs = map (gpr c) rs" by (auto simp: g)
  have "run (map Push (r # rs)) c = run (map Push rs) ?c" by simp
  also have "\<dots> = ?c\<lparr>gpr := (gpr ?c)(Rsp := gpr ?c Rsp - 8 * of_nat (length rs)),
      slots := pushed (map (gpr c) rs) (gpr ?c Rsp) (slots ?c)\<rparr>"
    using Cons.IH [of ?c] Cons.prems unfolding m by (simp only: list.set(2) insert_iff de_Morgan_disj simp_thms)
  also have "gpr ?c Rsp - 8 * of_nat (length rs) = gpr c Rsp - 8 * of_nat (length (r # rs))"
    by (simp add: g algebra_simps)
  finally show ?case by (simp add: machine_defs fun_upd_def cong: if_cong)
qed

text \<open>The slots below a stack pointer are all different, for any stack that is smaller than memory.\<close>

definition below :: "u64 \<Rightarrow> nat \<Rightarrow> u64 set" where
  "below sp n = (\<lambda>i. sp - 8 * of_nat i) ` {1..n}"

lemma pushed_other:
  assumes "a \<notin> below sp (length vs)"
  shows "pushed vs sp m a = m a"
  using assms
proof (induction vs arbitrary: sp m)
  case Nil
  then show ?case by simp
next
  case (Cons v vs)
  have "a \<noteq> sp - 8" using Cons.prems by (force simp: below_def)
  moreover have "a \<notin> below (sp - 8) (length vs)"
  proof
    assume "a \<in> below (sp - 8) (length vs)"
    then obtain i where "1 \<le> i" "i \<le> length vs" "a = sp - 8 - 8 * of_nat i" by (auto simp: below_def)
    then have "a = sp - 8 * of_nat (Suc i)" "Suc i \<in> {1..length (v # vs)}" by (auto simp: algebra_simps)
    with Cons.prems show False unfolding below_def by blast
  qed
  ultimately show ?case by (simp add: Cons.IH)
qed

lemma pushed_at:
  assumes "i < length vs" and "length vs < 2 ^ 60"
  shows "pushed vs sp m (sp - 8 * of_nat (Suc i)) = vs ! i"
  using assms
proof (induction vs arbitrary: sp m i)
  case Nil
  then show ?case by simp
next
  case (Cons v vs)
  show ?case
  proof (cases i)
    case 0
    have "sp - 8 \<notin> below (sp - 8) (length vs)"
    proof
      assume "sp - 8 \<in> below (sp - 8) (length vs)"
      then obtain j where j: "1 \<le> j" "j \<le> length vs" "sp - 8 = sp - 8 - 8 * of_nat j"
        by (auto simp: below_def)
      then have "8 * of_nat j = (8 * of_nat 0 :: u64)" by (simp add: algebra_simps)
      with eight_times_inj [of j 0] j(1,2) Cons.prems(2) show False by simp
    qed
    with 0 show ?thesis by (simp add: pushed_other)
  next
    case (Suc j)
    with Cons.prems have "pushed vs (sp - 8) (m(sp - 8 := v)) (sp - 8 - 8 * of_nat (Suc j)) = vs ! j"
      by (intro Cons.IH) simp_all
    with Suc show ?thesis by (simp add: algebra_simps)
  qed
qed

fun popped :: "reg list \<Rightarrow> (u64 \<Rightarrow> u64) \<Rightarrow> u64 \<Rightarrow> (reg \<Rightarrow> u64) \<Rightarrow> reg \<Rightarrow> u64" where
  "popped [] m sp g = g(Rsp := sp)"
| "popped (r # rs) m sp g = popped rs m (sp + 8) (g(r := m sp))"

lemma popped_Rsp_upd: "Rsp \<notin> set rs \<Longrightarrow> popped rs m sp (g(Rsp := x)) = popped rs m sp g"
proof (induction rs arbitrary: sp g)
  case Nil
  then show ?case by (simp add: fun_eq_iff)
next
  case (Cons r rs)
  have "g(Rsp := x, r := m sp) = g(r := m sp, Rsp := x)"
    using Cons.prems by (auto simp: fun_eq_iff)
  with Cons show ?case by (simp del: fun_upd_apply)
qed

lemma run_pop:
  assumes "Rsp \<notin> set rs"
  shows "run (map Pop rs) c = c\<lparr>gpr := popped rs (slots c) (gpr c Rsp) (gpr c)\<rparr>"
  using assms
proof (induction rs arbitrary: c)
  case Nil
  then show ?case by simp
next
  case (Cons r rs)
  have "popped rs (slots c) (gpr c Rsp + 8) ((gpr c)(Rsp := gpr c Rsp + 8, r := slots c (gpr c Rsp))) =
    popped rs (slots c) (gpr c Rsp + 8) ((gpr c)(r := slots c (gpr c Rsp)))"
    using Cons.prems by (simp add: fun_upd_twist [of Rsp r] popped_Rsp_upd)
  with Cons show ?case by (simp add: machine_defs)
qed

lemma popped_other: "q \<noteq> Rsp \<Longrightarrow> q \<notin> set rs \<Longrightarrow> popped rs m sp g q = g q"
  by (induction rs arbitrary: sp g) auto

lemma popped_Rsp: "Rsp \<notin> set rs \<Longrightarrow> popped rs m sp g Rsp = sp + 8 * of_nat (length rs)"
  by (induction rs arbitrary: sp g) (auto simp: algebra_simps)

lemma popped_at:
  assumes "distinct rs" and "Rsp \<notin> set rs" and "position (\<lambda>x. x = q) rs = Some i"
  shows "popped rs m sp g q = m (sp + 8 * of_nat i)"
  using assms
proof (induction rs arbitrary: sp g i)
  case Nil
  then show ?case by simp
next
  case (Cons r rs)
  show ?case
  proof (cases "r = q")
    case True
    with Cons.prems show ?thesis by (auto simp: popped_other)
  next
    case False
    with Cons.prems obtain j where "position (\<lambda>x. x = q) rs = Some j" "i = Suc j" by auto
    with Cons show ?thesis by (simp add: algebra_simps)
  qed
qed

section \<open>The way in\<close>

text \<open>The frame of the call: sixteen slots below the stack pointer of the kernel.\<close>

definition kernel_sp :: "u64 \<Rightarrow> cpu \<Rightarrow> u64" where
  "kernel_sp tcd c = slots c (fs_base c + kernel_sp_slot tcd)"

definition user_sp :: "u64 \<Rightarrow> cpu \<Rightarrow> u64" where
  "user_sp tcd c = slots c (fs_base c + user_sp_slot tcd)"

definition frame_base :: "u64 \<Rightarrow> cpu \<Rightarrow> u64" where
  "frame_base tcd c = kernel_sp tcd c - 8 * 16"

definition saved_of :: "cpu \<Rightarrow> saved_regs" where
  "saved_of c = \<lparr> sr_rflags = rflags c, sr_reg = (\<lambda>r. if r = Rsp then 0 else gpr c r) \<rparr>"

definition entry_room :: "u64 \<Rightarrow> cpu \<Rightarrow> bool" where
  "entry_room tcd c \<longleftrightarrow>
     fs_base c + user_sp_slot tcd \<notin> below (kernel_sp tcd c) 16"

lemma all_regs_facts:
  "distinct all_regs" "Rsp \<notin> set all_regs" "length all_regs = 15"
  by (simp_all add: all_regs_def)

lemma reg_index_Some: "r \<noteq> Rsp \<Longrightarrow> \<exists>i. reg_index r = Some i \<and> i < 15 \<and> all_regs ! i = r"
  by (cases r) (simp_all add: reg_index_def all_regs_def)

lemma reg_index_Rsp: "reg_index Rsp = None"
  by (simp add: reg_index_def all_regs_def)

lemma tcd_slots_apart: "f + kernel_sp_slot tcd \<noteq> f + user_sp_slot tcd"
  by (simp add: kernel_sp_slot_def user_sp_slot_def)

definition pushed_values :: "cpu \<Rightarrow> u64 list" where
  "pushed_values c = map (gpr c) (rev all_regs) @ [rflags c]"

lemma pushed_append: "pushed (vs @ [v]) sp m = (pushed vs sp m)(sp - 8 * of_nat (Suc (length vs)) := v)"
  by (induction vs arbitrary: sp m) (simp_all add: algebra_simps)

lemma run_entry:
  "run (entry_asm tcd) c = c\<lparr>
     gpr := (gpr c)(Rsp := frame_base tcd c, Rdi := frame_base tcd c),
     gs_base := kernel_gs_base c, kernel_gs_base := gs_base c,
     slots := pushed (pushed_values c) (kernel_sp tcd c)
       ((slots c)(fs_base c + user_sp_slot tcd := gpr c Rsp))\<rparr>"
proof -
  let ?c = "c\<lparr>gpr := (gpr c)(Rsp := kernel_sp tcd c), gs_base := kernel_gs_base c, kernel_gs_base := gs_base c,
    slots := (slots c)(fs_base c + user_sp_slot tcd := gpr c Rsp)\<rparr>"
  have start: "run [Swapgs, StoreFs (user_sp_slot tcd) Rsp, LoadFs Rsp (kernel_sp_slot tcd)] c = ?c"
    using tcd_slots_apart by (simp add: machine_defs kernel_sp_def)
  have ns: "Rsp \<notin> set (rev all_regs)" by (simp add: all_regs_def)
  then have vals: "map (gpr ?c) (rev all_regs) = map (gpr c) (rev all_regs)" by auto
  have push: "run (save_specified_regs all_regs) ?c = ?c\<lparr>gpr := (gpr ?c)(Rsp := kernel_sp tcd c - 8 * 15),
      slots := pushed (map (gpr c) (rev all_regs)) (kernel_sp tcd c) (slots ?c)\<rparr>"
    unfolding save_specified_rev run_push [OF ns] vals by (simp add: all_regs_facts(3))
  have "run (entry_asm tcd) c = run ([Pushfq, MovR Rdi Rsp])
      (run (save_specified_regs all_regs)
        (run [Swapgs, StoreFs (user_sp_slot tcd) Rsp, LoadFs Rsp (kernel_sp_slot tcd)] c))"
    by (simp add: entry_asm_def save_all_regs_def)
  also have "\<dots> = run [Pushfq, MovR Rdi Rsp] (?c\<lparr>gpr := (gpr ?c)(Rsp := kernel_sp tcd c - 8 * 15),
      slots := pushed (map (gpr c) (rev all_regs)) (kernel_sp tcd c) (slots ?c)\<rparr>)"
    by (simp only: start push)
  finally show ?thesis
    by (simp add: machine_defs pushed_values_def pushed_append all_regs_facts(3) frame_base_def fun_upd_def
        cong: if_cong)
qed

lemma frame_on_entry:
  "frame_at (pushed (pushed_values c) (kernel_sp tcd c) m) (frame_base tcd c) = saved_of c"
proof -
  let ?m = "pushed (pushed_values c) (kernel_sp tcd c) m"
  have len: "length (pushed_values c) = 16" by (simp add: pushed_values_def all_regs_def)
  have "?m (frame_base tcd c) = rflags c"
    using pushed_at [of 15 "pushed_values c" "kernel_sp tcd c" m] len
    by (simp add: frame_base_def pushed_values_def all_regs_def)
  moreover have "(case reg_index r of Some i \<Rightarrow> ?m (frame_base tcd c + 8 * of_nat (Suc i)) | None \<Rightarrow> 0) =
      (if r = Rsp then 0 else gpr c r)" for r
  proof (cases "r = Rsp")
    case True
    then show ?thesis by (simp add: reg_index_Rsp)
  next
    case False
    then obtain i where i: "reg_index r = Some i" "i < 15" "all_regs ! i = r" using reg_index_Some by blast
    have sum: "Suc (14 - i) + Suc i = 16" using i(2) by simp
    have "(8 * of_nat (Suc (14 - i)) + 8 * of_nat (Suc i) :: u64) = 8 * of_nat (Suc (14 - i) + Suc i)"
      by (simp add: algebra_simps)
    then have "(8 * of_nat (Suc (14 - i)) + 8 * of_nat (Suc i) :: u64) = 128"
      unfolding sum by simp
    then have at: "frame_base tcd c + 8 * of_nat (Suc i) = kernel_sp tcd c - 8 * of_nat (Suc (14 - i))"
      by (simp add: frame_base_def eq_diff_eq add.assoc add.commute diff_add_eq)
    have "14 - i < (15 :: nat)" by linarith
    then have "pushed_values c ! (14 - i) = gpr c r"
      using i by (simp add: pushed_values_def nth_append rev_nth all_regs_facts(3))
    moreover have "?m (kernel_sp tcd c - 8 * of_nat (Suc (14 - i))) = pushed_values c ! (14 - i)"
      using len by (intro pushed_at) simp_all
    ultimately have "?m (frame_base tcd c + 8 * of_nat (Suc i)) = gpr c r"
      by (simp only: at)
    with i(1) False show ?thesis by (simp del: of_nat_Suc)
  qed
  ultimately show ?thesis by (simp add: frame_at_def saved_of_def fun_eq_iff)
qed

section \<open>The way out\<close>

lemma run_exit:
  "run (exit_asm tcd) c = c\<lparr>
     gpr := (\<lambda>r. if r = Rsp then user_sp tcd c else sr_reg (frame_at (slots c) (gpr c Rsp)) r),
     rflags := popf_value (sr_rflags (frame_at (slots c) (gpr c Rsp))),
     gs_base := kernel_gs_base c, kernel_gs_base := gs_base c\<rparr>"
proof -
  let ?g = "popped all_regs (slots c) (gpr c Rsp + 8) (gpr c)"
  let ?f = "popf_value (slots c (gpr c Rsp))"
  have ns: "Rsp \<notin> set all_regs" by (rule all_regs_facts)
  have pop: "run (load_specified_regs all_regs) (exec Popfq c) = c\<lparr>gpr := ?g, rflags := ?f\<rparr>"
    unfolding load_specified_regs_def run_pop [OF ns]
    by (simp add: machine_defs popped_Rsp_upd [OF ns])
  have reg: "?g r = sr_reg (frame_at (slots c) (gpr c Rsp)) r" if "r \<noteq> Rsp" for r
  proof -
    from that obtain i where i: "reg_index r = Some i" using reg_index_Some by blast
    from popped_at [OF all_regs_facts(1,2) i [unfolded reg_index_def]] i
    show ?thesis by (simp add: frame_at_def algebra_simps)
  qed
  have "run (exit_asm tcd) c = run [LoadFs Rsp (user_sp_slot tcd), Swapgs]
      (run (load_specified_regs all_regs) (exec Popfq c))"
    by (simp add: exit_asm_def load_all_regs_def)
  also have "\<dots> = run [LoadFs Rsp (user_sp_slot tcd), Swapgs] (c\<lparr>gpr := ?g, rflags := ?f\<rparr>)"
    by (simp only: pop)
  also have "\<dots> = c\<lparr>gpr := ?g(Rsp := user_sp tcd c), rflags := ?f,
      gs_base := kernel_gs_base c, kernel_gs_base := gs_base c\<rparr>"
    by (simp add: machine_defs user_sp_def)
  also have "?g(Rsp := user_sp tcd c) =
      (\<lambda>r. if r = Rsp then user_sp tcd c else sr_reg (frame_at (slots c) (gpr c Rsp)) r)"
    using reg by (simp add: fun_eq_iff)
  finally show ?thesis by (simp add: frame_at_def)
qed

section \<open>The way of a call\<close>

text \<open>What the handler keeps: its own stack pointer on return, and the bases of the segments.\<close>

definition handler_returns :: "cpu \<Rightarrow> cpu \<Rightarrow> bool" where
  "handler_returns c1 c2 \<longleftrightarrow> gpr c2 Rsp = gpr c1 Rsp \<and> fs_base c2 = fs_base c1 \<and>
     gs_base c2 = gs_base c1 \<and> kernel_gs_base c2 = kernel_gs_base c1"

text \<open>What \<open>on_symcall_1\<close> changes of the frame: \<open>rax\<close>, and for some calls \<open>rdi\<close> and \<open>rsi\<close>.\<close>

definition frame_results :: "u64 \<Rightarrow> u64 \<Rightarrow> u64 \<Rightarrow> saved_regs \<Rightarrow> saved_regs" where
  "frame_results v x y f = f\<lparr>sr_reg := (sr_reg f)(Rax := v, Rdi := x, Rsi := y)\<rparr>"

lemma on_syscall_raw_effect:
  assumes "handler_returns (run (entry_asm tcd) c) c2" and "c2 = h (run (entry_asm tcd) c)"
    and "F = frame_at (slots c2) (frame_base tcd c)"
  shows "on_syscall_raw tcd h c = (sr_reg F Rcx,
     c\<lparr>gpr := (\<lambda>r. if r = Rsp then slots c2 (fs_base c + user_sp_slot tcd) else sr_reg F r),
       rflags := sysret_flags (sr_reg F R11), cr3 := cr3 c2, slots := slots c2\<rparr>)"
  using assms
  by (auto simp: on_syscall_raw_def do_sysret_def run_exit run_entry handler_returns_def user_sp_def
      intro!: cpu.equality)

lemma user_sp_kept_on_entry:
  assumes "entry_room tcd c"
  shows "slots (run (entry_asm tcd) c) (fs_base c + user_sp_slot tcd) = gpr c Rsp"
proof -
  have "length (pushed_values c) = 16" by (simp add: pushed_values_def all_regs_def)
  with assms show ?thesis by (simp add: run_entry pushed_other entry_room_def)
qed

text \<open>
  The stack pointer a call returns with is the one in the slot of the thread, which is not part of
  the frame: a call during which another task entered the kernel returns with the stack pointer
  of that other task.
\<close>

theorem return_stack_is_slot:
  assumes "handler_returns (run (entry_asm tcd) c) (h (run (entry_asm tcd) c))"
    and "slots (h (run (entry_asm tcd) c)) (fs_base c + user_sp_slot tcd) = w"
  shows "gpr (snd (on_syscall_raw tcd h c)) Rsp = w"
  using on_syscall_raw_effect [of tcd c "h (run (entry_asm tcd) c)" h] assms by simp

section \<open>Properties\<close>

text \<open>
  C30: A system call from user code and back. The handler gets the address of a frame that holds
  every register of the caller and its flags; whatever results it leaves in the frame for \<open>rax\<close>,
  \<open>rdi\<close> and \<open>rsi\<close>, as long as the slot of the user stack pointer is as it was, the caller goes on
  behind its \<open>syscall\<close> with these results, with every other register and the stack pointer it
  had (but \<open>rcx\<close> and \<open>r11\<close>, which the instruction itself takes), with its flags and with both
  \<open>gs\<close> bases back in place.
\<close>
theorem syscall_round_trip:
  assumes "entry_room tcd c" and "c1 = run (entry_asm tcd) (do_syscall rip c)" and "c2 = h c1"
    and "handler_returns c1 c2"
    and "slots c2 (fs_base c + user_sp_slot tcd) = slots c1 (fs_base c + user_sp_slot tcd)"
    and "frame_at (slots c2) (gpr c1 Rdi) = frame_results v x y (frame_at (slots c1) (gpr c1 Rdi))"
  shows "frame_at (slots c1) (gpr c1 Rdi) = saved_of (do_syscall rip c) \<and>
    on_syscall_raw tcd h (do_syscall rip c) = (rip,
      c\<lparr>gpr := (gpr c)(Rax := v, Rdi := x, Rsi := y, Rcx := rip, R11 := rflags c),
        rflags := sysret_flags (rflags c), cr3 := cr3 c2, slots := slots c2\<rparr>)"
proof
  let ?d = "do_syscall rip c"
  have d: "fs_base ?d = fs_base c" "gpr ?d = (gpr c)(Rcx := rip, R11 := rflags c)" "rflags ?d = rflags c"
    "gs_base ?d = gs_base c" "kernel_gs_base ?d = kernel_gs_base c" "cpu.more ?d = cpu.more c"
    "entry_room tcd ?d"
    using assms(1) by (simp_all add: do_syscall_def entry_room_def kernel_sp_def)
  have base: "gpr c1 Rdi = frame_base tcd ?d" by (simp add: assms(2) run_entry)
  show frame: "frame_at (slots c1) (gpr c1 Rdi) = saved_of ?d"
    unfolding base by (simp add: assms(2) run_entry frame_on_entry)
  have sp: "slots c2 (fs_base c + user_sp_slot tcd) = gpr c Rsp"
    using user_sp_kept_on_entry [OF d(7)] assms(2,5) by (simp add: d)
  have F: "frame_at (slots c2) (frame_base tcd ?d) = frame_results v x y (saved_of ?d)"
    using assms(6) frame base by simp
  have "on_syscall_raw tcd h ?d = (sr_reg (frame_results v x y (saved_of ?d)) Rcx,
      ?d\<lparr>gpr := (\<lambda>r. if r = Rsp then gpr c Rsp else sr_reg (frame_results v x y (saved_of ?d)) r),
        rflags := sysret_flags (sr_reg (frame_results v x y (saved_of ?d)) R11), cr3 := cr3 c2,
        slots := slots c2\<rparr>)"
    unfolding sp [symmetric] d(1) [symmetric] using assms(2-4)
    by (intro on_syscall_raw_effect [of tcd ?d c2 h, OF _ _ F [symmetric]]) simp_all
  then show "on_syscall_raw tcd h ?d = (rip,
      c\<lparr>gpr := (gpr c)(Rax := v, Rdi := x, Rsi := y, Rcx := rip, R11 := rflags c),
        rflags := sysret_flags (rflags c), cr3 := cr3 c2, slots := slots c2\<rparr>)"
    by (auto simp: frame_results_def saved_of_def d fun_eq_iff intro!: cpu.equality)
qed

text \<open>A call that returns 0 in \<open>rax\<close>.\<close>

definition example_caller :: cpu where
  "example_caller = \<lparr> gpr = (\<lambda>r. if r = Rsp then 0x4000FF80 else if r = Rbx then 7 else 9),
     rflags = 0x202, cr3 = 0x5000, fs_base = 0x7000, gs_base = 1, kernel_gs_base = 2,
     slots = (\<lambda>a. if a = 0x7010 then 0x9000 else 0) \<rparr>"

definition return_zero :: "cpu \<Rightarrow> cpu" where
  "return_zero c = set_slot (gpr c Rdi + 8) 0 c"

lemma frame_at_rax: "frame_at (m(a + 8 := v)) a = (frame_at m a)\<lparr>sr_reg := (sr_reg (frame_at m a))(Rax := v)\<rparr>"
proof -
  have "(case reg_index r of Some i \<Rightarrow> (m(a + 8 := v)) (a + 8 * of_nat (Suc i)) | None \<Rightarrow> 0) =
    (if r = Rax then v else case reg_index r of Some i \<Rightarrow> m (a + 8 * of_nat (Suc i)) | None \<Rightarrow> 0)" for r
    by (cases r) (simp_all add: reg_index_def all_regs_def)
  then have "(\<lambda>r. case reg_index r of Some i \<Rightarrow> (m(a + 8 := v)) (a + 8 * of_nat (Suc i)) | None \<Rightarrow> 0) =
    (\<lambda>r. case reg_index r of Some i \<Rightarrow> m (a + 8 * of_nat (Suc i)) | None \<Rightarrow> 0)(Rax := v)"
    by (simp only: fun_eq_iff fun_upd_def) simp
  moreover have "(m(a + 8 := v)) a = m a" by simp
  ultimately show ?thesis by (simp only: frame_at_def saved_regs.simps)
qed

theorem syscall_round_trip_witness:
  "fst (on_syscall_raw 0 return_zero (do_syscall 0x1234 example_caller)) = 0x1234 \<and>
   gpr (snd (on_syscall_raw 0 return_zero (do_syscall 0x1234 example_caller))) Rbx = 7 \<and>
   gpr (snd (on_syscall_raw 0 return_zero (do_syscall 0x1234 example_caller))) Rax = 0"
proof -
  let ?d = "do_syscall 0x1234 example_caller" and ?c1 = "run (entry_asm 0) (do_syscall 0x1234 example_caller)"
  have "(0x7008 :: u64) \<notin> below 0x9000 16"
    by (simp add: below_def atLeastAtMost_upt image_iff upt_rec)
  then have room: "entry_room 0 example_caller"
    by (simp add: entry_room_def kernel_sp_def example_caller_def user_sp_slot_def kernel_sp_slot_def)
  have F: "frame_at (slots (return_zero ?c1)) (gpr ?c1 Rdi) =
      frame_results 0 9 9 (frame_at (slots ?c1) (gpr ?c1 Rdi))"
    by (simp add: return_zero_def set_slot_def frame_at_rax run_entry frame_on_entry)
       (simp add: frame_results_def saved_of_def do_syscall_def example_caller_def fun_eq_iff)
  have "frame_base 0 ?d = 0x8F80"
    by (simp add: frame_base_def kernel_sp_def do_syscall_def example_caller_def kernel_sp_slot_def)
  then have U: "slots (return_zero ?c1) (fs_base example_caller + user_sp_slot 0) =
      slots ?c1 (fs_base example_caller + user_sp_slot 0)"
    by (simp add: return_zero_def set_slot_def run_entry) (simp add: example_caller_def user_sp_slot_def)
  have H: "handler_returns ?c1 (return_zero ?c1)"
    by (simp add: handler_returns_def return_zero_def set_slot_def)
  show ?thesis
    using syscall_round_trip [where h = return_zero, OF room refl refl H U F] by (simp add: example_caller_def)
qed

end
