(* ===== verification/Dispatch.thy ===== *)
theory Dispatch
  imports Task_Create Syscall_Entry
begin

text \<open>
  The two ends of a system call put together: \<open>on_symcall_1\<close> of \<open>syscalls/mod.rs\<close>, which takes the
  call out of the saved registers and writes its results back into them, and the functions that
  the macro \<open>create_syscall\<close> makes for user programs out of the table in \<open>syscall/src/raw.rs\<close>. The
  abstract specification between the two is \<open>kernel_call\<close>: the operation behind a code on its
  arguments, without registers.
\<close>

section \<open>The state of a call\<close>

text \<open>
  The user memory of the caller, the machine with its frames, and the kernel. A call that switches
  to another task leaves the state of that task; the saved registers are those of the caller,
  who goes on with them when it runs again.
\<close>

record 'm world =
  w_mem :: memory
  w_frames :: "'m frames"
  w_kernel :: table_kernel

text \<open>What the kernel was built with: the crates, the machine, and the address of \<open>jmp_userspace\<close>.\<close>

record 'm build =
  b_env :: env
  b_elf :: elf_format
  b_ops :: "'m mem_ops"
  b_ptes :: "'m pte_ops"
  b_tasks :: "'m task_ops"
  b_jmp :: u64

definition on_kernel :: "(table_kernel \<Rightarrow> (table_kernel, 'a) op) \<Rightarrow> 'm world \<Rightarrow> ('m world, 'a) op" where
  "on_kernel f w = and_then (f (w_kernel w)) (\<lambda>(r, k). Done (r, w\<lparr>w_kernel := k\<rparr>))"

definition on_frames ::
    "('m frames \<Rightarrow> table_kernel \<Rightarrow> (('a syscall_result \<times> 'm frames) \<times> table_kernel) outcome) \<Rightarrow> 'm world \<Rightarrow> ('m world, 'a) op" where
  "on_frames f w = and_then (f (w_frames w) (w_kernel w)) (\<lambda>((r, s), k). Done (r, w\<lparr>w_frames := s, w_kernel := k\<rparr>))"

definition on_memory ::
    "(memory \<Rightarrow> table_kernel \<Rightarrow> (('a syscall_result \<times> memory) \<times> table_kernel) outcome) \<Rightarrow> 'm world \<Rightarrow> ('m world, 'a) op" where
  "on_memory f w = and_then (f (w_mem w) (w_kernel w)) (\<lambda>((r, m), k). Done (r, w\<lparr>w_mem := m, w_kernel := k\<rparr>))"

section \<open>The dispatcher\<close>

definition set_sr :: "reg \<Rightarrow> u64 \<Rightarrow> saved_regs \<Rightarrow> saved_regs" where
  "set_sr r v regs = regs\<lparr>sr_reg := (sr_reg regs)(r := v)\<rparr>"

text \<open>\<open>.map(f)\<close> and then the code of the result in \<open>rax\<close>.\<close>

definition reply :: "saved_regs \<Rightarrow> ('a \<Rightarrow> saved_regs \<Rightarrow> saved_regs) \<Rightarrow> ('w, 'a) op \<Rightarrow> (saved_regs \<times> 'w) outcome" where
  "reply regs f m = and_then m (\<lambda>(res, w).
     Done (case res of
         Inl err \<Rightarrow> set_sr Rax (syscall_error_discr err) regs
       | Inr a \<Rightarrow> set_sr Rax 0 (f a regs), w))"

definition no_result :: "unit \<Rightarrow> saved_regs \<Rightarrow> saved_regs" where
  "no_result u regs = regs"

definition in_rdi :: "u64 \<Rightarrow> saved_regs \<Rightarrow> saved_regs" where
  "in_rdi x regs = set_sr Rdi x regs"

definition in_rdi_rsi :: "u64 \<times> u64 \<Rightarrow> saved_regs \<Rightarrow> saved_regs" where
  "in_rdi_rsi p regs = set_sr Rsi (snd p) (set_sr Rdi (fst p) regs)"

definition handle_code :: "'m build \<Rightarrow> syscall_code \<Rightarrow> saved_regs \<Rightarrow> 'm world \<Rightarrow> (saved_regs \<times> 'm world) outcome" where
  "handle_code B code regs w =
     (let e = b_env B; a = sr_reg regs Rdi; b = sr_reg regs Rsi; c = sr_reg regs Rdx; d = sr_reg regs R10 in
      case code of
        Exit \<Rightarrow> reply regs no_result (on_kernel (sys_exit e) w)
      | Yield \<Rightarrow> reply regs no_result (on_kernel (sys_yield e) w)
      | FsOpen \<Rightarrow> reply regs in_rdi (on_kernel (sys_file_open e (w_mem w) a b c) w)
      | FsHandleSeek \<Rightarrow> reply regs no_result (on_kernel (sys_file_seek e a b) w)
      | FsHandleRead \<Rightarrow> reply regs in_rdi (on_memory (sys_file_read e a b c) w)
      | FsHandleClose \<Rightarrow> reply regs no_result (on_kernel (sys_file_close e a) w)
      | CapabilityClone \<Rightarrow> reply regs in_rdi (on_kernel (sys_cap_clone e a) w)
      | CapabilityInspect \<Rightarrow> reply regs in_rdi_rsi (on_kernel (sys_cap_inspect e a b) w)
      | CapabilityRestrict \<Rightarrow> reply regs no_result (on_kernel (sys_cap_restrict e a b c) w)
      | CapabilityDrop \<Rightarrow> reply regs no_result (on_kernel (sys_cap_drop e a) w)
      | ProcessMyPid \<Rightarrow> reply regs in_rdi (on_kernel sys_mypid w)
      | ProcessSpawn \<Rightarrow> reply regs in_rdi (on_frames (spawn e (b_ops B) (b_ptes B) (b_tasks B) (b_jmp B)) w)
      | ProcessCapShare \<Rightarrow> reply regs no_result (on_kernel (process_share_transfer e a b False) w)
      | ProcessCapTransfer \<Rightarrow> reply regs no_result (on_kernel (process_share_transfer e a b True) w)
      | ProcessExec \<Rightarrow> reply regs no_result (on_frames (exec_call e (b_elf B) (b_ops B) a b) w)
      | MemoryMapVirt \<Rightarrow> reply regs no_result (on_frames (map_virt e (b_ops B) a b c) w)
      | MemoryMapPhys \<Rightarrow> reply regs no_result (on_frames (map_phys e (b_ops B) a b c d) w)
      | MemoryUnmap \<Rightarrow> reply regs no_result (Done (Inr (), w))
      | _ \<Rightarrow> reply regs no_result (Done (Inl UnknownSyscall, w)))"

definition on_symcall_1 :: "'m build \<Rightarrow> saved_regs \<Rightarrow> 'm world \<Rightarrow> (saved_regs \<times> 'm world) outcome" where
  "on_symcall_1 B regs w =
     (case code_try_from (b_env B) (sr_reg regs Rax) of
        None \<Rightarrow> Done (set_sr Rax (syscall_error_discr UnknownSyscall) regs, w)
      | Some code \<Rightarrow> handle_code B code regs w)"

section \<open>The user side\<close>

definition REGISTRIES :: "reg list" where
  "REGISTRIES = [Rdi, Rsi, Rdx, R10, R8, R9]"

record descriptor =
  d_code :: syscall_code
  arg_count :: nat
  ret_count :: nat

text \<open>\<open>create_syscall\<close> accepts a descriptor when it has at most five arguments and results.\<close>

definition create_syscall :: "syscall_code \<Rightarrow> nat \<Rightarrow> nat \<Rightarrow> descriptor option" where
  "create_syscall code argc retc =
     (if length REGISTRIES - 1 < argc then None
      else if length REGISTRIES - 1 < retc then None
      else Some \<lparr> d_code = code, arg_count = argc, ret_count = retc \<rparr>)"

definition raw_calls :: "(syscall_code \<times> nat \<times> nat) list" where
  "raw_calls = [(Exit, 0, 0), (Yield, 0, 0), (FsOpen, 3, 1), (FsHandleSeek, 2, 0), (FsHandleRead, 3, 1),
     (FsHandleClose, 1, 0), (CapabilityClone, 1, 1), (CapabilityInspect, 2, 2), (CapabilityRestrict, 3, 0),
     (CapabilityDrop, 1, 0), (ProcessMyPid, 0, 1), (ProcessSpawn, 0, 1), (ProcessCapShare, 2, 0),
     (ProcessCapTransfer, 2, 0), (ProcessExec, 2, 0), (MemoryMapVirt, 3, 0), (MemoryMapPhys, 4, 0)]"

text \<open>The registers at the \<open>syscall\<close> of a generated function, and what it makes of them afterwards.\<close>

fun load_args :: "reg list \<Rightarrow> u64 list \<Rightarrow> saved_regs \<Rightarrow> saved_regs" where
  "load_args (r # rs) (v # vs) regs = set_sr r v (load_args rs vs regs)"
| "load_args _ _ regs = regs"

definition stub_registers :: "descriptor \<Rightarrow> u64 list \<Rightarrow> saved_regs \<Rightarrow> saved_regs" where
  "stub_registers d args regs =
     set_sr Rax (syscall_discr (d_code d)) (load_args (take (arg_count d) REGISTRIES) args regs)"

definition stub_result :: "env \<Rightarrow> descriptor \<Rightarrow> saved_regs \<Rightarrow> u64 list syscall_result" where
  "stub_result e d regs =
     (let err = sr_reg regs Rax in
      if err \<noteq> 0
      then Inl (case error_try_from e err of Some x \<Rightarrow> x | None \<Rightarrow> UnknownError)
      else Inr (map (sr_reg regs) (take (ret_count d) REGISTRIES)))"

definition stub_call :: "'m build \<Rightarrow> descriptor \<Rightarrow> u64 list \<Rightarrow> saved_regs \<Rightarrow> 'm world \<Rightarrow> ('m world, u64 list) op" where
  "stub_call B d args regs w =
     and_then (on_symcall_1 B (stub_registers d args regs) w) (\<lambda>(regs', w').
       Done (stub_result (b_env B) d regs', w'))"

section \<open>Specification\<close>

text \<open>The operation behind a code, from its arguments to its results.\<close>

definition results :: "('a \<Rightarrow> u64 list) \<Rightarrow> ('w, 'a) op \<Rightarrow> ('w, u64 list) op" where
  "results f m = and_then m (\<lambda>(r, w). Done (map_sum id f r, w))"

definition kernel_call :: "'m build \<Rightarrow> syscall_code \<Rightarrow> u64 list \<Rightarrow> 'm world \<Rightarrow> ('m world, u64 list) op" where
  "kernel_call B code args w =
     (let e = b_env B; none = (\<lambda>_. []); one = (\<lambda>x. [x]); two = (\<lambda>(x, y). [x, y]) in
      case (code, args) of
        (Exit, []) \<Rightarrow> results none (on_kernel (sys_exit e) w)
      | (Yield, []) \<Rightarrow> results none (on_kernel (sys_yield e) w)
      | (FsOpen, [path, len, mode]) \<Rightarrow> results one (on_kernel (sys_file_open e (w_mem w) path len mode) w)
      | (FsHandleSeek, [fd, at]) \<Rightarrow> results none (on_kernel (sys_file_seek e fd at) w)
      | (FsHandleRead, [fd, buf, len]) \<Rightarrow> results one (on_memory (sys_file_read e fd buf len) w)
      | (FsHandleClose, [fd]) \<Rightarrow> results none (on_kernel (sys_file_close e fd) w)
      | (CapabilityClone, [h]) \<Rightarrow> results one (on_kernel (sys_cap_clone e h) w)
      | (CapabilityInspect, [what, i]) \<Rightarrow> results two (on_kernel (sys_cap_inspect e what i) w)
      | (CapabilityRestrict, [h, x, y]) \<Rightarrow> results none (on_kernel (sys_cap_restrict e h x y) w)
      | (CapabilityDrop, [h]) \<Rightarrow> results none (on_kernel (sys_cap_drop e h) w)
      | (ProcessMyPid, []) \<Rightarrow> results one (on_kernel sys_mypid w)
      | (ProcessSpawn, []) \<Rightarrow> results one (on_frames (spawn e (b_ops B) (b_ptes B) (b_tasks B) (b_jmp B)) w)
      | (ProcessCapShare, [p, h]) \<Rightarrow> results none (on_kernel (process_share_transfer e p h False) w)
      | (ProcessCapTransfer, [p, h]) \<Rightarrow> results none (on_kernel (process_share_transfer e p h True) w)
      | (ProcessExec, [p, fd]) \<Rightarrow> results none (on_frames (exec_call e (b_elf B) (b_ops B) p fd) w)
      | (MemoryMapVirt, [at, len, perms]) \<Rightarrow> results none (on_frames (map_virt e (b_ops B) at len perms) w)
      | (MemoryMapPhys, [at, len, perms, phys]) \<Rightarrow> results none (on_frames (map_phys e (b_ops B) at len perms phys) w)
      | _ \<Rightarrow> Done (Inl UnknownSyscall, w))"

section \<open>Results and registers\<close>

lemma set_sr_reg [simp]: "sr_reg (set_sr r v regs) q = (if q = r then v else sr_reg regs q)"
  by (simp add: set_sr_def)

lemma set_sr_rflags [simp]: "sr_rflags (set_sr r v regs) = sr_rflags regs"
  by (simp add: set_sr_def)

lemma saved_regs_eq: "sr_rflags f = sr_rflags g \<Longrightarrow> (\<And>r. sr_reg f r = sr_reg g r) \<Longrightarrow> f = g" for f g :: saved_regs
  by (intro saved_regs.equality) (auto simp: fun_eq_iff)

text \<open>What a reply can be: no error and up to two results, or an error and nothing else.\<close>

definition reply_of :: "saved_regs \<Rightarrow> saved_regs \<Rightarrow> bool" where
  "reply_of regs regs' \<longleftrightarrow>
     (\<exists>x y. regs' = frame_results 0 x y regs) \<or>
     (\<exists>err. regs' = frame_results (syscall_error_discr err) (sr_reg regs Rdi) (sr_reg regs Rsi) regs)"

lemma reply_of_error: "reply_of regs (set_sr Rax (syscall_error_discr err) regs)"
proof -
  have "set_sr Rax (syscall_error_discr err) regs =
    frame_results (syscall_error_discr err) (sr_reg regs Rdi) (sr_reg regs Rsi) regs"
    by (rule saved_regs_eq) (auto simp: frame_results_def)
  then show ?thesis unfolding reply_of_def by blast
qed

lemma reply_of_ok:
  "reply_of regs (set_sr Rax 0 (no_result u regs))" "reply_of regs (set_sr Rax 0 (in_rdi v regs))"
  "reply_of regs (set_sr Rax 0 (in_rdi_rsi p regs))"
proof -
  have "set_sr Rax 0 (no_result u regs) = frame_results 0 (sr_reg regs Rdi) (sr_reg regs Rsi) regs"
    "set_sr Rax 0 (in_rdi v regs) = frame_results 0 v (sr_reg regs Rsi) regs"
    "set_sr Rax 0 (in_rdi_rsi p regs) = frame_results 0 (fst p) (snd p) regs"
    by (auto intro!: saved_regs_eq simp: frame_results_def no_result_def in_rdi_def in_rdi_rsi_def)
  then show "reply_of regs (set_sr Rax 0 (no_result u regs))" "reply_of regs (set_sr Rax 0 (in_rdi v regs))"
    "reply_of regs (set_sr Rax 0 (in_rdi_rsi p regs))" unfolding reply_of_def by blast+
qed

lemma reply_shape:
  assumes "reply regs f m = Done (regs', w')" and "\<And>a. reply_of regs (set_sr Rax 0 (f a regs))"
  shows "reply_of regs regs'"
proof -
  from assms(1) obtain r where r: "regs' = (case r of Inl err \<Rightarrow> set_sr Rax (syscall_error_discr err) regs
      | Inr a \<Rightarrow> set_sr Rax 0 (f a regs))"
    by (auto simp: reply_def and_then_eq_Done)
  show ?thesis using assms(2) by (cases r) (simp_all add: r reply_of_error)
qed

lemmas reply_shapes = reply_shape [where f = no_result, OF _ reply_of_ok(1)]
  reply_shape [where f = in_rdi, OF _ reply_of_ok(2)] reply_shape [where f = in_rdi_rsi, OF _ reply_of_ok(3)]

lemma handle_code_shape: "handle_code B code regs w = Done (regs', w') \<Longrightarrow> reply_of regs regs'"
  unfolding handle_code_def Let_def
  by (cases code) (simp_all only: syscall_code.case, (erule reply_shapes)+)

lemma stub_reply:
  assumes "num_enum_ok e" and "\<And>a. map (sr_reg (set_sr Rax 0 (f a regs))) (take (ret_count d) REGISTRIES) = g a"
  shows "and_then (reply regs f m) (\<lambda>(regs', w'). Done (stub_result e d regs', w')) = results g m"
proof -
  have err: "error_try_from e (syscall_error_discr x) = Some x" for x using assms(1) by (simp add: num_enum_ok_def)
  show ?thesis
  proof (cases m)
    case (Done p)
    obtain r w' where p: "p = (r, w')" by fastforce
    show ?thesis using assms(2)
      by (cases r) (simp_all add: Done p reply_def results_def stub_result_def Let_def err syscall_error_discr_nonzero)
  qed (simp_all add: reply_def results_def)
qed

lemma stub_is_kernel_call:
  assumes "num_enum_ok (b_env B)" and "(code, argc, retc) \<in> set raw_calls"
    and "create_syscall code argc retc = Some d" and "length args = argc"
  shows "stub_call B d args regs w = kernel_call B code args w"
proof -
  have decode: "code_try_from (b_env B) (syscall_discr c) = Some c" for c
    using assms(1) by (simp add: num_enum_ok_def)
  have d: "d_code d = code" "arg_count d = argc" "ret_count d = retc"
    using assms(3) by (auto simp: create_syscall_def split: if_splits)
  let ?r = "stub_registers d args regs"
  have "sr_reg ?r Rax = syscall_discr code" by (simp add: stub_registers_def d)
  then have "on_symcall_1 B ?r w = handle_code B code ?r w" by (simp add: on_symcall_1_def decode)
  then have call: "stub_call B d args regs w =
      and_then (handle_code B code ?r w) (\<lambda>(regs', w'). Done (stub_result (b_env B) d regs', w'))"
    by (simp add: stub_call_def)
  show ?thesis
    using assms(2,4) unfolding call raw_calls_def
    by (auto simp: handle_code_def kernel_call_def Let_def length_Suc_conv numeral_2_eq_2 numeral_3_eq_3 eval_nat_numeral
        stub_registers_def d REGISTRIES_def no_result_def in_rdi_def in_rdi_rsi_def
        intro!: stub_reply [OF assms(1)])
qed

section \<open>Properties\<close>

text \<open>
  C31: The two ends fit. A function that \<open>create_syscall\<close> makes out of an entry of the table of raw
  calls is the kernel operation behind its code: the arguments arrive in their places, the
  results come back in theirs, an error of the kernel comes back as that error, and the state is
  the one the operation leaves.
\<close>
theorem stub_refines_kernel:
  assumes "num_enum_ok (b_env B)" and "(code, argc, retc) \<in> set raw_calls"
    and "create_syscall code argc retc = Some d" and "length args = argc"
  shows "stub_call B d args regs w = kernel_call B code args w"
  by (rule stub_is_kernel_call [OF assms])

text \<open>A kernel whose first task asks for its number.\<close>

definition sample_build :: "unit build" where
  "sample_build = \<lparr> b_env = documented_env True, b_elf = elf64, b_ops = idle_ops, b_ptes = idle_ptes,
     b_tasks = idle_tasks, b_jmp = 0x1234 \<rparr>"

definition sample_world :: "unit world" where
  "sample_world = \<lparr> w_mem = \<lparr> mem_byte = (\<lambda>_. None), mem_writable = (\<lambda>_. False) \<rparr>, w_frames = idle_frames, w_kernel = spawning \<rparr>"

definition sample_regs :: saved_regs where
  "sample_regs = \<lparr> sr_rflags = 0, sr_reg = (\<lambda>_. 7) \<rparr>"

definition mypid_descriptor :: descriptor where
  "mypid_descriptor = \<lparr> d_code = ProcessMyPid, arg_count = 0, ret_count = 1 \<rparr>"

lemma sample_mypid: "on_kernel sys_mypid sample_world = Done (Inr 2, sample_world)"
  by (simp add: on_kernel_def sample_world_def sys_mypid_def current_task_id_def spawning_def start_kernel_def)

theorem stub_refines_kernel_witness:
  "stub_call sample_build mypid_descriptor [] sample_regs sample_world = Done (Inr [2], sample_world)"
proof -
  have "stub_call sample_build mypid_descriptor [] sample_regs sample_world =
      kernel_call sample_build ProcessMyPid [] sample_world"
    by (rule stub_refines_kernel [of _ _ 0 1])
      (simp_all add: sample_build_def raw_calls_def create_syscall_def REGISTRIES_def mypid_descriptor_def)
  then show ?thesis by (simp add: kernel_call_def results_def sample_mypid)
qed

text \<open>
  C32: A call changes the results and nothing else of the registers of its caller. Whatever the
  registers are, when the dispatcher comes back it has put a code into \<open>rax\<close>, and into \<open>rdi\<close> and
  \<open>rsi\<close> at most; the code is 0 or that of an error, and after an error \<open>rdi\<close> and \<open>rsi\<close> are as before.
\<close>
theorem call_changes_results_only:
  assumes "on_symcall_1 B regs w = Done (regs', w')"
  shows "\<exists>v x y. regs' = frame_results v x y regs \<and>
    (v = 0 \<or> (\<exists>err. v = syscall_error_discr err) \<and> x = sr_reg regs Rdi \<and> y = sr_reg regs Rsi)"
proof -
  have "reply_of regs regs'"
    using assms handle_code_shape reply_of_error unfolding on_symcall_1_def
    by (auto split: option.splits simp del: syscall_error_discr.simps)
  then show ?thesis unfolding reply_of_def by blast
qed

theorem call_changes_results_only_witness:
  "\<exists>regs'. on_symcall_1 sample_build (set_sr Rax (syscall_discr ProcessMyPid) sample_regs) sample_world = Done (regs', sample_world) \<and>
     sr_reg regs' R8 = 7 \<and> sr_reg regs' Rax = 0 \<and> sr_reg regs' Rdi = 2"
proof -
  let ?r = "set_sr Rax (syscall_discr ProcessMyPid) sample_regs"
  have "num_enum_ok (b_env sample_build)" by (simp add: sample_build_def)
  then have "code_try_from (b_env sample_build) (syscall_discr ProcessMyPid) = Some ProcessMyPid"
    by (simp add: num_enum_ok_def)
  then have run: "on_symcall_1 sample_build ?r sample_world = Done (set_sr Rax 0 (in_rdi 2 ?r), sample_world)"
    by (simp add: on_symcall_1_def handle_code_def sample_mypid reply_def)
  from call_changes_results_only [OF run] obtain v x y where
    "set_sr Rax 0 (in_rdi 2 ?r) = frame_results v x y ?r" by blast
  then have "sr_reg (set_sr Rax 0 (in_rdi 2 ?r)) R8 = sr_reg (frame_results v x y ?r) R8" by simp
  then have "sr_reg (set_sr Rax 0 (in_rdi 2 ?r)) R8 = 7"
    by (simp add: frame_results_def sample_regs_def del: syscall_discr.simps)
  with run show ?thesis by (auto simp: in_rdi_def)
qed

text \<open>
  What the dispatcher does without an operation behind the code. A number that is no code, and
  the codes of the calls that are declared and not implemented, come back as \<open>UnknownSyscall\<close>;
  \<open>MemoryUnmap\<close> comes back as a success. In every one of these cases nothing happens.
\<close>
theorem unhandled_calls:
  assumes "num_enum_ok (b_env B)"
  shows "(code_try_from (b_env B) (sr_reg regs Rax) = None \<or>
      (\<exists>c \<in> {FsHandleWrite, ConversationCreateP2p, ConversationCreatePublic, ConversationTalk,
         ConversationCapShare, ConversationCapTransfer, MemoryEditPerms}. sr_reg regs Rax = syscall_discr c) \<longrightarrow>
      on_symcall_1 B regs w = Done (set_sr Rax (syscall_error_discr UnknownSyscall) regs, w)) \<and>
    (sr_reg regs Rax = syscall_discr MemoryUnmap \<longrightarrow> on_symcall_1 B regs w = Done (set_sr Rax 0 regs, w))"
proof -
  have decode: "code_try_from (b_env B) (syscall_discr c) = Some c" for c
    using assms by (simp add: num_enum_ok_def)
  show ?thesis
    by (auto simp: on_symcall_1_def decode handle_code_def reply_def no_result_def
        simp del: syscall_discr.simps syscall_error_discr.simps)
qed

theorem unhandled_calls_witness:
  "on_symcall_1 sample_build (set_sr Rax (syscall_discr MemoryUnmap) sample_regs) sample_world =
     Done (set_sr Rax 0 (set_sr Rax (syscall_discr MemoryUnmap) sample_regs), sample_world) \<and>
   on_symcall_1 sample_build (set_sr Rax (syscall_discr FsHandleWrite) sample_regs) sample_world =
     Done (set_sr Rax (syscall_error_discr UnknownSyscall) (set_sr Rax (syscall_discr FsHandleWrite) sample_regs), sample_world)"
proof -
  have "num_enum_ok (b_env sample_build)" by (simp add: sample_build_def)
  note C = unhandled_calls [OF this]
  show ?thesis
    using C [of "set_sr Rax (syscall_discr MemoryUnmap) sample_regs"]
      C [of "set_sr Rax (syscall_discr FsHandleWrite) sample_regs"] by simp
qed

end
