(* ===== verification/System_Runs.thy ===== *)
theory System_Runs
  imports Dispatch
begin

text \<open>
  Runs of the whole system from its start: the tasks compute, call the kernel through
  \<open>on_symcall_1\<close>, and the kernel task of \<open>run_executor\<close> passes the processor on. First the lock
  discipline of the calls (what a call that comes back leaves of the kernel), then the invariant
  of the runs and what follows for the tasks that the system starts with.
\<close>

section \<open>Calls that only change the contents of tasks\<close>

text \<open>
  What a call may change of a task: its files, its capabilities and its entry point, but a task
  without capabilities stays without.
\<close>

definition kept :: "'pt task_context \<Rightarrow> 'pt task_context \<Rightarrow> bool" where
  "kept c c' \<longleftrightarrow> task_id c' = task_id c \<and> parent c' = parent c \<and> children c' = children c \<and> tstate c' = tstate c \<and>
     (cap_handles (capabilities c) = [] \<longrightarrow> cap_handles (capabilities c') = [])"

text \<open>All the locks, the queue and the processor are as before, and the tasks are kept.\<close>

definition quiet :: "'pt kernel \<Rightarrow> 'pt kernel \<Rightarrow> bool" where
  "quiet k k' \<longleftrightarrow> k' = k\<lparr>registry := registry k'\<rparr> \<and> (\<forall>t. rel_option kept (registry k t) (registry k' t))"

lemma kept_refl [simp]: "kept c c"
  by (simp add: kept_def)

lemma kept_trans: "kept a b \<Longrightarrow> kept b c \<Longrightarrow> kept a c"
  by (simp add: kept_def)

lemma quiet_refl [simp]: "quiet k k"
  by (simp add: quiet_def option.rel_refl)

lemma quiet_trans:
  assumes "quiet a b" and "quiet b c"
  shows "quiet a c"
proof -
  have "rel_option kept (registry a t) (registry c t)" for t
    using assms kept_trans unfolding quiet_def
    by (cases "registry a t"; cases "registry b t"; cases "registry c t") (auto simp: option_rel_Some1 dest!: spec [of _ t])
  moreover have "c = a\<lparr>registry := registry c\<rparr>"
    using assms unfolding quiet_def by (metis kernel.select_convs(1) kernel.surjective kernel.update_convs(1))
  ultimately show ?thesis by (simp add: quiet_def)
qed

lemma quiet_update: "(\<And>c. registry k t = Some c \<Longrightarrow> kept c (f c)) \<Longrightarrow> quiet k (update_task t f k)"
  by (cases "registry k t") (auto simp: quiet_def update_task_def option.rel_refl)

lemma quiet_fields:
  assumes "quiet k k'"
  shows "registry_lock k' = registry_lock k" "task_lock k' = task_lock k" "cur_task k' = cur_task k"
    "executable_tasks k' = executable_tasks k" "switch_locks k' = switch_locks k" "core k' = core k"
    "next_pid k' = next_pid k"
proof -
  obtain R where "k' = k\<lparr>registry := R\<rparr>" using assms unfolding quiet_def by blast
  then show "registry_lock k' = registry_lock k" "task_lock k' = task_lock k" "cur_task k' = cur_task k"
    "executable_tasks k' = executable_tasks k" "switch_locks k' = switch_locks k" "core k' = core k"
    "next_pid k' = next_pid k" by simp_all
qed

lemma quiet_task:
  assumes "quiet k k'"
  shows "registry k t = None \<longleftrightarrow> registry k' t = None"
    and "registry k' t = Some c' \<Longrightarrow> \<exists>c. registry k t = Some c \<and> kept c c'"
    and "registry k t = Some c \<Longrightarrow> \<exists>c'. registry k' t = Some c' \<and> kept c c'"
proof -
  have r: "rel_option kept (registry k t) (registry k' t)" using assms by (simp add: quiet_def)
  show "registry k t = None \<longleftrightarrow> registry k' t = None" using r by (cases "registry k t"; cases "registry k' t") auto
  show "\<exists>c. registry k t = Some c \<and> kept c c'" if "registry k' t = Some c'"
    using r that by (simp add: option_rel_Some2)
  show "\<exists>c'. registry k' t = Some c' \<and> kept c c'" if "registry k t = Some c"
    using r that by (simp add: option_rel_Some1)
qed

text \<open>The lock of a section is free afterwards as it was before.\<close>

lemma quiet_unlock:
  assumes "quiet (set_task_lock t l k) k'"
  shows "quiet k (set_task_lock t (task_lock k t) k')"
proof -
  obtain R where R: "k' = (set_task_lock t l k)\<lparr>registry := R\<rparr>" using assms unfolding quiet_def by blast
  have "set_task_lock t (task_lock k t) k' = k\<lparr>registry := R\<rparr>"
    by (simp add: R set_task_lock_def)
  then show ?thesis using assms by (auto simp: quiet_def R set_task_lock_def)
qed

lemma quiet_holding:
  assumes "spin_ok e" and "holding_task e t body k = Done (r, k')"
    and "\<And>r k2. body (set_task_lock t WriteLocked k) = Done (r, k2) \<Longrightarrow> quiet (set_task_lock t WriteLocked k) k2"
  shows "quiet k k'"
proof -
  have u: "task_lock k t = Unlocked"
    using assms(1,2) by (cases "task_lock k t") (auto simp: holding_task_def)
  with assms(1,2) obtain k2 where "body (set_task_lock t WriteLocked k) = Done (r, k2)" "k' = set_task_lock t Unlocked k2"
    by (auto simp: holding_task_def and_then_eq_Done)
  with quiet_unlock [OF assms(3)] u show ?thesis by simp
qed

lemma quiet_reading:
  assumes "spin_ok e" and "reading_task e t body k = Done (r, k')" and "task_lock k t = Unlocked"
    and "\<And>r k2. body (set_task_lock t (ReadLocked 1) k) = Done (r, k2) \<Longrightarrow> quiet (set_task_lock t (ReadLocked 1) k) k2"
  shows "quiet k k'"
proof -
  from assms(1-3) obtain k2 where k2: "body (set_task_lock t (ReadLocked 1) k) = Done (r, k2)"
    "k' = set_task_lock t (drop_reader (task_lock k2 t)) k2"
    by (auto simp: reading_task_def and_then_eq_Done)
  have "task_lock k2 t = ReadLocked 1" using quiet_fields(2) [OF assms(4) [OF k2(1)]] by (simp add: set_task_lock_def)
  with quiet_unlock [OF assms(4) [OF k2(1)]] k2(2) assms(3) show ?thesis by simp
qed

lemma quiet_current_task:
  assumes "spin_ok e" and "registry_lock k = Unlocked" and "current_task e k = Done (t, k')"
  shows "k' = k" and "t = cur_task k" and "\<exists>c. registry k t = Some c"
proof -
  have "k' = k \<and> t = cur_task k \<and> (\<exists>c. registry k t = Some c)"
    using assms by (auto simp: current_task_def reading_registry_def and_then_eq_Done current_task_id_def
        split: if_splits)
  then show "k' = k" "t = cur_task k" "\<exists>c. registry k t = Some c" by auto
qed

lemma quiet_on_current:
  assumes "spin_ok e" and "registry_lock k = Unlocked" and "on_current e f k = Done (r, k')"
    and "\<And>c r c'. registry k (cur_task k) = Some c \<Longrightarrow> f c = Done (r, c') \<Longrightarrow> kept c c'"
  shows "quiet k k'"
proof -
  from assms(3) obtain t k1 where cur: "current_task e k = Done (t, k1)" and
    h: "holding_task e t (\<lambda>k2. and_then (unwrap (registry k2 t)) (\<lambda>c.
       and_then (f c) (\<lambda>(r, c'). Done (r, update_task t (\<lambda>_. c') k2)))) k1 = Done (r, k')"
    by (auto simp: on_current_def and_then_eq_Done)
  note K = quiet_current_task [OF assms(1,2) cur]
  from h [unfolded K(1)] show ?thesis
  proof (rule quiet_holding [OF assms(1)])
    fix r k2 let ?k = "set_task_lock t WriteLocked k"
    assume "and_then (unwrap (registry ?k t)) (\<lambda>c.
       and_then (f c) (\<lambda>(r, c'). Done (r, update_task t (\<lambda>_. c') ?k))) = Done (r, k2)"
    then obtain c c' where "registry k t = Some c" "f c = Done (r, c')" "k2 = update_task t (\<lambda>_. c') ?k"
      by (auto simp: and_then_eq_Done set_task_lock_def)
    with assms(4) K(2) show "quiet ?k k2" by (auto simp: set_task_lock_def intro!: quiet_update)
  qed
qed

lemma quiet_read_current:
  assumes "spin_ok e" and "registry_lock k = Unlocked" and "task_lock k (cur_task k) = Unlocked"
    and "read_current e f k = Done (r, k')"
  shows "quiet k k'"
proof -
  from assms(4) obtain t k1 where cur: "current_task e k = Done (t, k1)" and
    h: "reading_task e t (\<lambda>k2. and_then (unwrap (registry k2 t)) (\<lambda>c. Done (f c, k2))) k1 = Done (r, k')"
    by (auto simp: read_current_def and_then_eq_Done)
  note K = quiet_current_task [OF assms(1,2) cur]
  from h [unfolded K(1)] show ?thesis
    by (rule quiet_reading [OF assms(1)]) (auto simp: assms(3) K(2) and_then_eq_Done)
qed

lemma quiet_on_files:
  "spin_ok e \<Longrightarrow> registry_lock k = Unlocked \<Longrightarrow> on_files e f k = Done (r, k') \<Longrightarrow> quiet k k'"
  unfolding on_files_def by (erule (2) quiet_on_current) (auto simp: kept_def and_then_eq_Done)

lemma quiet_on_caps:
  assumes "spin_ok e" and "registry_lock k = Unlocked" and "on_caps e f k = Done (r, k')"
    and "\<And>s r s'. cap_handles s = [] \<Longrightarrow> f s = Done (r, s') \<Longrightarrow> cap_handles s' = []"
  shows "quiet k k'"
  using assms(3) unfolding on_caps_def
  by (rule quiet_on_current [OF assms(1,2)]) (auto simp: kept_def and_then_eq_Done intro: assms(4))

section \<open>Tasks without capabilities\<close>

definition no_caps :: "'pt kernel \<Rightarrow> bool" where
  "no_caps k \<longleftrightarrow> (\<forall>t c. registry k t = Some c \<longrightarrow> cap_handles (capabilities c) = [])"

lemma no_caps_quiet: "quiet k k' \<Longrightarrow> no_caps k \<Longrightarrow> no_caps k'"
  using quiet_task(2) [of k k'] unfolding no_caps_def kept_def by blast

lemma sched_ok_quiet:
  assumes "quiet k k'" and "sched_ok k"
  shows "sched_ok k'"
proof -
  note F = quiet_fields [OF assms(1)] and T = quiet_task [OF assms(1)]
  have run: "runnable k' t = runnable k t" for t
    using T(2,3) unfolding runnable_def kept_def by metis
  have "ids_ok k'" using assms(2) T(2) by (force simp: sched_ok_def ids_ok_def kept_def)
  moreover have "\<exists>c. registry k' 1 = Some c \<and> tstate c = Sleepy"
    using assms(2) T(3) unfolding sched_ok_def kept_def by metis
  ultimately show ?thesis
    using assms(2) by (simp add: sched_ok_def unlocked_def F run)
qed

text \<open>A capability that nobody has is refused by every operation that asks for it.\<close>

lemma without_caps:
  assumes "cap_handles s = []"
  shows "cap_get h s = None" "cap_clone e h s = Done (Inl WrongCapability, s)"
    "cap_delete h s = (Inl WrongCapability, s)" "cap_restrict e h a b s = (Inl WrongCapability, s)"
    "cap_drop h s = (Inl WrongCapability, s)"
  using assms by (simp_all add: cap_get_def cap_clone_def cap_delete_def cap_restrict_def cap_drop_def)

lemma quiet_share:
  assumes "spin_ok e" and "sched_ok k" and "no_caps k"
    and "process_share_transfer e p h transfer k = Done (r, k')"
  shows "quiet k k' \<and> (\<exists>err. r = Inl err)"
proof -
  note D = sched_ok_D [OF assms(2)]
  from cur_registered [OF assms(2)] obtain c where c: "registry k (cur_task k) = Some c" ..
  with assms(3) have "cap_handles (capabilities c) = []" by (simp add: no_caps_def)
  note W = without_caps [OF this]
  have same: "update_task (cur_task k) (\<lambda>_. c) k = k"
    using c by (simp add: update_task_def fun_upd_idem)
  have "take_capability e h transfer k = Done (Inl WrongCapability, k)"
    by (simp add: take_capability_def on_caps_def W same on_current_unlocked [OF assms(1,2) c]
        read_current_unlocked [OF assms(1,2) c])
  then show ?thesis
    using assms(4) by (auto simp: process_share_transfer_def and_then_eq_Done try_then_eq_Done split: if_splits)
qed

lemma quiet_map:
  assumes "spin_ok e" and "sched_ok k" and "no_caps k"
  shows "map_virt e ops a b c s k = Done ((r, s'), k') \<Longrightarrow> quiet k k' \<and> s' = s \<and> (\<exists>err. r = Inl err)"
    and "map_phys e ops a b c d s k = Done ((r, s'), k') \<Longrightarrow> quiet k k' \<and> s' = s \<and> (\<exists>err. r = Inl err)"
proof -
  note D = sched_ok_D [OF assms(2)]
  from cur_registered [OF assms(2)] obtain x where x: "registry k (cur_task k) = Some x" ..
  with assms(3) have none: "cap_handles (capabilities x) = []" by (simp add: no_caps_def)
  have cur: "current_task e k = Done (cur_task k, k)" by (rule current_task_ok [OF assms(1) D(1,4) x])
  have reg: "registry (set_task_lock (cur_task k) l k) (cur_task k) = Some x" for l
    using x by (simp add: set_task_lock_def)
  have rd: "reading_task e (cur_task k) body k = and_then (body (set_task_lock (cur_task k) (ReadLocked 1) k))
      (\<lambda>(r, k'). Done (r, set_task_lock (cur_task k) (drop_reader (task_lock k' (cur_task k))) k'))" for body
    using assms(1) D(2) by (simp add: reading_task_def)
  have restored: "set_task_lock (cur_task k) Unlocked (set_task_lock (cur_task k) l k) = k" for l
    using D(2) by (simp add: set_task_lock_def fun_upd_idem)
  have drop: "drop_reader (task_lock (set_task_lock t (ReadLocked (Suc 0)) k) t) = Unlocked" for t
    by (simp add: set_task_lock_def)
  note S = cur rd reg none restored drop
  show "quiet k k' \<and> s' = s \<and> (\<exists>err. r = Inl err)" if run: "map_virt e ops a b c s k = Done ((r, s'), k')"
  proof -
    from run obtain r1 where r1: "parse_page_range e a b = Done r1" by (auto simp: map_virt_def and_then_eq_Done)
    with run show ?thesis by (cases r1) (auto simp: map_virt_def S)
  qed
  show "quiet k k' \<and> s' = s \<and> (\<exists>err. r = Inl err)" if run: "map_phys e ops a b c d s k = Done ((r, s'), k')"
  proof -
    from run obtain r1 where r1: "parse_page_range e a b = Done r1" by (auto simp: map_phys_def and_then_eq_Done)
    show ?thesis
    proof (cases r1)
      case (Inr pages)
      with run r1 obtain r2 where "phys_range e d b = Done r2" by (auto simp: map_phys_def and_then_eq_Done)
      with run r1 Inr show ?thesis by (cases r2) (auto simp: map_phys_def S)
    qed (use run r1 in \<open>auto simp: map_phys_def\<close>)
  qed
qed

lemma quiet_exec_file:
  assumes "goblin_ok G" and "exec_file e G ops proc cur fd s k = Done (r, k')"
  shows "quiet k k'"
proof -
  have "elf_new G [] = Inl InvalidSize" by (simp add: elf_new_def)
  moreover from assms(2) obtain child c where "registry k proc = Some child" "registry k cur = Some c"
    by (auto simp: exec_file_def and_then_eq_Done)
  ultimately show ?thesis
  proof (cases "pairs_get fd (file_handles (files c))")
    case (Some h)
    have "read_file_to_memory e h (1024 * 1024 * 1024) \<in> {Done (Inr [], h), Done (Inl NoMemory, h), Panic}"
      by (rule read_file_one_round)
    with assms(2) Some \<open>elf_new G [] = _\<close> \<open>registry k proc = _\<close> \<open>registry k cur = _\<close> show ?thesis
      by (auto simp: exec_file_def Let_def kept_def intro!: quiet_update)
  qed (use assms(2) in \<open>auto simp: exec_file_def\<close>)
qed

lemma quiet_exec:
  assumes "spin_ok e" and "goblin_ok G" and "sched_ok k" and "exec_call e G ops p fd s k = Done (r, k')"
  shows "quiet k k'"
proof (cases "p = 0 \<or> registry k p = None")
  case True
  have "quiet k (k\<lparr>registry_lock := Unlocked\<rparr>)"
    by (subst kernel_lock_eq [OF sched_ok_D(1) [OF assms(3)]]) simp
  with True show ?thesis
    using assms(1,4) sched_ok_D(1) [OF assms(3)]
    by (auto simp: exec_call_def reading_registry_def registry_get_def and_then_eq_Done split: if_splits)
next
  case False
  note D = sched_ok_D [OF assms(3)]
  let ?body = "\<lambda>k2. and_then (unwrap (registry k2 p)) (\<lambda>child.
            and_then (current_task_id k2) (\<lambda>cur.
            if parent child \<noteq> Some cur then Done ((Inl WrongProcess, s), k2)
            else if user_entry_point child \<noteq> 0 then Done ((Inl WrongProcess, s), k2)
            else and_then (current_task e k2) (\<lambda>(t, k3).
              holding_task e t (exec_file e G ops p t fd s) k3)))"
  have "holding_task e p ?body k = Done (r, k')"
    using False assms(1,4) D(1)
    by (auto simp: exec_call_def reading_registry_def registry_get_def and_then_eq_Done kernel_lock_eq [OF D(1)])
  then show ?thesis
  proof (rule quiet_holding [OF assms(1)])
    fix q k2 let ?k = "set_task_lock p WriteLocked k"
    assume run: "?body ?k = Done (q, k2)"
    have rl: "registry_lock ?k = Unlocked" using D(1) by (simp add: set_task_lock_def)
    from run show "quiet ?k k2"
      by (auto simp: and_then_eq_Done split: if_splits dest!: quiet_current_task(1) [OF assms(1) rl]
          elim!: quiet_holding [OF assms(1)] intro: quiet_exec_file [OF assms(2)])
  qed
qed

lemma spawn_refused:
  assumes "spin_ok e" and "sched_ok k" and "no_caps k"
  shows "spawn e ops P T jmp s k = Done ((Inl WrongCapability, s), k)"
proof -
  from cur_registered [OF assms(2)] obtain c where c: "registry k (cur_task k) = Some c" ..
  with assms(3) have "\<not> spawn_cap c" by (simp add: no_caps_def spawn_cap_def)
  then show ?thesis by (rule spawn_cases(1) [OF assms(1,2) c])
qed

lemma and_then_case_sum_eq_Done:
  "and_then m (case_sum f g) = Done b \<longleftrightarrow>
     (\<exists>x. m = Done (Inl x) \<and> f x = Done b) \<or> (\<exists>x. m = Done (Inr x) \<and> g x = Done b)"
  by (cases m) (auto split: sum.splits)

lemma quiet_files:
  assumes "spin_ok e" and "sched_ok k"
  shows "sys_file_open e m a b c k = Done (r1, k') \<Longrightarrow> quiet k k'"
    and "sys_file_seek e a b k = Done (r2, k') \<Longrightarrow> quiet k k'"
    and "sys_file_read e a b c m k = Done (r3, k') \<Longrightarrow> quiet k k'"
    and "sys_file_close e a k = Done (r4, k') \<Longrightarrow> quiet k k'"
  using quiet_on_files [OF assms(1) sched_ok_D(1) [OF assms(2)]]
  by (auto simp: sys_file_open_def sys_file_seek_def sys_file_read_def sys_file_close_def
      and_then_case_sum_eq_Done)

lemma quiet_caps:
  assumes "spin_ok e" and "sched_ok k"
  shows "sys_cap_clone e h k = Done (r1, k') \<Longrightarrow> quiet k k'"
    and "sys_cap_inspect e a b k = Done (r2, k') \<Longrightarrow> quiet k k'"
    and "sys_cap_restrict e h a b k = Done (r3, k') \<Longrightarrow> quiet k k'"
    and "sys_cap_drop e h k = Done (r4, k') \<Longrightarrow> quiet k k'"
  unfolding sys_cap_clone_def sys_cap_inspect_def sys_cap_restrict_def sys_cap_drop_def
  using sched_ok_D(1,2) [OF assms(2)]
  by (auto elim!: quiet_on_caps [OF assms(1), rotated] quiet_read_current [OF assms(1), rotated 2] simp: without_caps)

section \<open>Runs\<close>

text \<open>
  A step of the system: the user code of the task that runs computes and writes to its memory; it
  calls the kernel, and the call comes back; or the kernel task goes once around the loop of
  \<open>run_executor\<close>. A call that switches leaves the processor with another task.
\<close>

inductive world_step :: "'m build \<Rightarrow> 'm world \<Rightarrow> 'm world \<Rightarrow> bool" for B where
  user: "cur_task (w_kernel w) \<noteq> 1 \<Longrightarrow> c_cr3 c = c_cr3 (core (w_kernel w)) \<Longrightarrow>
    world_step B w (w\<lparr>w_mem := m, w_kernel := (w_kernel w)\<lparr>core := c\<rparr>\<rparr>)"
| call: "cur_task (w_kernel w) \<noteq> 1 \<Longrightarrow> on_symcall_1 B regs w = Done (regs', w') \<Longrightarrow> world_step B w w'"
| executor: "cur_task (w_kernel w) = 1 \<Longrightarrow> switch_to_next_task (b_env B) (w_kernel w) = Done (b, k') \<Longrightarrow>
    world_step B w (w\<lparr>w_kernel := k'\<rparr>)"

text \<open>The scheduler is in order, there are no other tasks than the first ones, and none has a capability.\<close>

definition system_ok :: "pid set \<Rightarrow> 'pt kernel \<Rightarrow> bool" where
  "system_ok ts k \<longleftrightarrow> sched_ok k \<and> no_caps k \<and> dom (registry k) = ts"

lemma system_ok_quiet: "quiet k k' \<Longrightarrow> system_ok ts k \<Longrightarrow> system_ok ts k'"
  using quiet_task(1) [of k k'] no_caps_quiet [of k k'] sched_ok_quiet [of k k']
  by (simp add: system_ok_def dom_def)

lemma system_ok_switch:
  assumes "spin_ok e" and "system_ok ts k" and "switch_to_next_task e k = Done (b, k')"
  shows "system_ok ts k'"
proof -
  have ok: "sched_ok k" and nc: "no_caps k" and ts: "dom (registry k) = ts" using assms(2) by (simp_all add: system_ok_def)
  from switch_ok [OF assms(1) ok] assms(3) have ok': "sched_ok k'" and
    reg: "registry k' = registry k \<or> (\<exists>fc saved. registry k (cur_task k) = Some fc \<and>
      registry k' = (registry k)(cur_task k \<mapsto> fc\<lparr>arch_regs := saved\<rparr>))"
    by (metis Pair_inject outcome.inject)+
  from reg nc ts have "no_caps k' \<and> dom (registry k') = ts"
    by (auto simp: no_caps_def split: if_splits)
  with ok' show ?thesis by (simp add: system_ok_def)
qed

lemma reply_Done:
  assumes "reply regs f m = Done (regs', w')"
  obtains r where "m = Done (r, w')" "\<And>err. r = Inl err \<Longrightarrow> sr_reg regs' Rax \<noteq> 0"
  using assms unfolding reply_def by (auto simp: and_then_eq_Done syscall_error_discr_nonzero)

lemma on_kernel_Done:
  assumes "on_kernel f w = Done (r, w')"
  obtains k' where "f (w_kernel w) = Done (r, k')" "w' = w\<lparr>w_kernel := k'\<rparr>"
  using assms by (auto simp: on_kernel_def and_then_eq_Done)

lemma on_frames_Done:
  assumes "on_frames f w = Done (r, w')"
  obtains s k' where "f (w_frames w) (w_kernel w) = Done ((r, s), k')" "w' = w\<lparr>w_frames := s, w_kernel := k'\<rparr>"
  using assms by (auto simp: on_frames_def and_then_eq_Done)

lemma on_memory_Done:
  assumes "on_memory f w = Done (r, w')"
  obtains m k' where "f (w_mem w) (w_kernel w) = Done ((r, m), k')" "w' = w\<lparr>w_mem := m, w_kernel := k'\<rparr>"
  using assms by (auto simp: on_memory_def and_then_eq_Done)

text \<open>A call that comes back either yields, or is quiet and leaves the machine as it was.\<close>

lemma handle_code_effect:
  assumes "spin_ok (b_env B)" and "goblin_ok (b_elf B)" and "system_ok ts (w_kernel w)" and "cur_task (w_kernel w) \<noteq> 1"
    and run: "handle_code B code regs w = Done (regs', w')"
  shows "code \<noteq> Exit \<and> w_frames w' = w_frames w \<and>
    (code = Yield \<and> (\<exists>b. switch_to_next_task (b_env B) (w_kernel w) = Done (b, w_kernel w')) \<or>
     quiet (w_kernel w) (w_kernel w'))"
proof -
  note e = assms(1) and k = assms(3) [unfolded system_ok_def, THEN conjunct1]
    and n = assms(3) [unfolded system_ok_def, THEN conjunct2, THEN conjunct1]
  note Q = quiet_files [OF e k] quiet_caps [OF e k]
  show ?thesis
  proof (cases code)
    case Exit
    with run sys_exit_hangs [OF e k assms(4)] show ?thesis
      by (auto simp: handle_code_def Let_def on_kernel_def elim!: reply_Done)
  next
    case Yield
    with run show ?thesis
      by (auto simp: handle_code_def Let_def sys_yield_def and_then_eq_Done elim!: reply_Done on_kernel_Done)
  next
    case ProcessSpawn
    with run show ?thesis
      by (auto simp: handle_code_def Let_def spawn_refused [OF e k n] elim!: reply_Done on_frames_Done)
  next
    case ProcessExec
    with run show ?thesis
      by (auto simp: handle_code_def Let_def elim!: reply_Done on_frames_Done
          dest: exec_call_fails [OF assms(2)] quiet_exec [OF e assms(2) k])
  next
    case MemoryMapVirt
    with run show ?thesis
      by (auto simp: handle_code_def Let_def elim!: reply_Done on_frames_Done dest: quiet_map(1) [OF e k n])
  next
    case MemoryMapPhys
    with run show ?thesis
      by (auto simp: handle_code_def Let_def elim!: reply_Done on_frames_Done dest: quiet_map(2) [OF e k n])
  next
    case ProcessCapShare
    with run quiet_share [OF e k n] show ?thesis
      by (auto simp: handle_code_def Let_def elim!: reply_Done on_kernel_Done)
  next
    case ProcessCapTransfer
    with run quiet_share [OF e k n] show ?thesis
      by (auto simp: handle_code_def Let_def elim!: reply_Done on_kernel_Done)
  qed (use run Q in \<open>auto simp: handle_code_def Let_def sys_mypid_def and_then_eq_Done
      elim!: reply_Done on_kernel_Done on_memory_Done\<close>)
qed

text \<open>The calls that ask for a capability, or for a child to give one to or a program to.\<close>

definition guarded_codes :: "syscall_code set" where
  "guarded_codes = {CapabilityClone, CapabilityRestrict, CapabilityDrop, ProcessSpawn, ProcessCapShare,
     ProcessCapTransfer, ProcessExec, MemoryMapVirt, MemoryMapPhys}"

lemma quiet_guarded:
  assumes "spin_ok e" and "sched_ok k" and "no_caps k"
  shows "sys_cap_clone e h k = Done (r1, k') \<Longrightarrow> \<exists>err. r1 = Inl err"
    and "sys_cap_restrict e h a b k = Done (r2, k') \<Longrightarrow> \<exists>err. r2 = Inl err"
    and "sys_cap_drop e h k = Done (r3, k') \<Longrightarrow> \<exists>err. r3 = Inl err"
proof -
  from cur_registered [OF assms(2)] obtain c where c: "registry k (cur_task k) = Some c" ..
  with assms(3) have "cap_handles (capabilities c) = []" by (simp add: no_caps_def)
  note W = without_caps [OF this] and U = on_current_unlocked [OF assms(1,2) c]
  show "sys_cap_clone e h k = Done (r1, k') \<Longrightarrow> \<exists>err. r1 = Inl err"
    "sys_cap_restrict e h a b k = Done (r2, k') \<Longrightarrow> \<exists>err. r2 = Inl err"
    "sys_cap_drop e h k = Done (r3, k') \<Longrightarrow> \<exists>err. r3 = Inl err"
    by (auto simp: sys_cap_clone_def sys_cap_restrict_def sys_cap_drop_def on_caps_def U W)
qed

lemma guarded_refused:
  assumes "spin_ok (b_env B)" and "goblin_ok (b_elf B)" and "system_ok ts (w_kernel w)"
    and "code \<in> guarded_codes" and run: "handle_code B code regs w = Done (regs', w')"
  shows "sr_reg regs' Rax \<noteq> 0"
proof -
  note e = assms(1) and k = assms(3) [unfolded system_ok_def, THEN conjunct1]
    and n = assms(3) [unfolded system_ok_def, THEN conjunct2, THEN conjunct1]
  show ?thesis
  proof (cases "code = ProcessSpawn")
    case True
    with run show ?thesis
      by (auto simp: handle_code_def Let_def spawn_refused [OF e k n] on_frames_def
          reply_def syscall_error_discr_nonzero)
  next
    case False
    with assms(4) run show ?thesis
      by (auto simp: guarded_codes_def handle_code_def Let_def elim!: reply_Done on_kernel_Done on_frames_Done
          dest!: quiet_guarded [OF e k n] quiet_share [OF e k n] quiet_map [OF e k n] exec_call_fails [OF assms(2)])
  qed
qed

lemma world_step_ok:
  assumes "spin_ok (b_env B)" and "goblin_ok (b_elf B)" and "world_step B w w'" and "system_ok ts (w_kernel w)"
  shows "system_ok ts (w_kernel w')"
  using assms(3)
proof cases
  case (user c m)
  with assms(4) show ?thesis by (auto simp: system_ok_def no_caps_def core_irrelevant)
next
  case (call regs regs')
  show ?thesis
  proof (cases "code_try_from (b_env B) (sr_reg regs Rax)")
    case None
    with call assms(4) show ?thesis by (simp add: on_symcall_1_def)
  next
    case (Some code)
    with call have "handle_code B code regs w = Done (regs', w')" by (simp add: on_symcall_1_def)
    from handle_code_effect [OF assms(1,2,4) call(1) this] assms(4) show ?thesis
      using system_ok_switch [OF assms(1)] system_ok_quiet by blast
  qed
next
  case (executor b k')
  with system_ok_switch [OF assms(1) assms(4)] show ?thesis by simp
qed

lemma world_run_ok:
  assumes "spin_ok (b_env B)" and "goblin_ok (b_elf B)" and "(world_step B)\<^sup>*\<^sup>* w w'" and "system_ok ts (w_kernel w)"
  shows "system_ok ts (w_kernel w')"
  using assms(3,4) by (induction rule: rtranclp_induct) (auto intro: world_step_ok [OF assms(1,2)])

lemma boot_system_ok:
  assumes "spin_ok e" and "boot_state k" and "boot_tasks e ops P T dir start k s = Done (k', s')"
  shows "system_ok {1, 2} k'"
proof -
  from boot_tasks_Done [OF assms] obtain init :: "u64 task_context" and ctx where
    i: "fresh_context 1 None Sleepy init" and
    c: "fresh_context 2 (Some 1) User (ctx\<lparr>files := file_storage_new 2\<rparr>)" and
    k': "k' = k\<lparr>registry := [1 \<mapsto> init\<lparr>children := [2]\<rparr>, 2 \<mapsto> ctx], cur_task := 1, next_pid := 3,
      executable_tasks := [2]\<rparr>" by blast
  have "unlocked k'" using assms(2) by (auto simp: k' boot_state_def unlocked_def)
  then show ?thesis
    using i c by (auto simp: k' system_ok_def sched_ok_def ids_ok_def runnable_def fresh_context_def no_caps_def
        cap_storage_default_def split: if_splits)
qed

section \<open>Properties\<close>



text \<open>The machine without a state boots, and the loop gives the processor to the init task.\<close>

lemma sample_run:
  "\<exists>w w' s'. boot_tasks (b_env sample_build) (b_ops sample_build) (b_ptes sample_build) (b_tasks sample_build) []
       0x1234 start_kernel idle_frames = Done (w_kernel w, s') \<and>
     (world_step sample_build)\<^sup>*\<^sup>* w w' \<and> system_ok {1, 2} (w_kernel w') \<and> cur_task (w_kernel w') = 2"
proof -
  let ?e = "b_env sample_build"
  have B: "?e = documented_env True" "b_ops sample_build = idle_ops" "b_ptes sample_build = idle_ptes"
    "b_tasks sample_build = idle_tasks" by (simp_all add: sample_build_def)
  have e: "spin_ok ?e" by (simp add: B)
  obtain k :: table_kernel and s' where
    boot: "boot_tasks ?e (b_ops sample_build) (b_ptes sample_build) (b_tasks sample_build) [] 0x1234 start_kernel idle_frames = Done (k, s')"
    using idle_boot unfolding B by blast
  let ?w = "sample_world\<lparr>w_kernel := k\<rparr>"
  note ok = boot_system_ok [OF e start_kernel_boot boot]
  from boot_establishes [OF e start_kernel_boot boot] have k: "sched_ok k" "cur_task k = 1" "executable_tasks k = [2]"
    by blast+
  then have "ring k = [2]" using sched_ok_D(11) [OF k(1)] by (simp add: ring_def)
  with switch_ok [OF e k(1)] obtain b k' where sw: "switch_to_next_task ?e k = Done (b, k')" "cur_task k' = 2"
    by (metis list.simps(5))
  then have "world_step sample_build ?w (?w\<lparr>w_kernel := k'\<rparr>)"
    using k(2) by (intro executor) simp_all
  moreover have "system_ok {1, 2} k'" by (rule system_ok_switch [OF e ok sw(1)])
  ultimately show ?thesis
    using boot sw(2) by (intro exI [of _ ?w] exI [of _ "?w\<lparr>w_kernel := k'\<rparr>"] exI [of _ s']) auto
qed

lemma sample_build_ok: "spin_ok (b_env sample_build)" "goblin_ok (b_elf sample_build)" "num_enum_ok (b_env sample_build)"
  by (simp_all add: sample_build_def elf64_ok)



end
