(* ===== verification/User_Calls.thy ===== *)
theory User_Calls
  imports System_Runs
begin

text \<open>
  The user library of \<open>syscall/src/syscall.rs\<close> over the generated functions, and the program
  \<open>initproc\<close> that the kernel starts with. A string or a buffer is its address and its length in
  the memory of the caller.
\<close>

section \<open>The generated functions\<close>

text \<open>The function generated for a code; \<open>regs\<close> are the registers that are no arguments.\<close>

definition raw_descriptor :: "syscall_code \<Rightarrow> descriptor option" where
  "raw_descriptor code =
     Option.bind (List.find (\<lambda>p. fst p = code) raw_calls) (\<lambda>(c, argc, retc). create_syscall c argc retc)"

definition raw :: "'m build \<Rightarrow> saved_regs \<Rightarrow> syscall_code \<Rightarrow> u64 list \<Rightarrow> 'm world \<Rightarrow> ('m world, u64 list) op" where
  "raw B regs code args w =
     and_then (unwrap (raw_descriptor code)) (\<lambda>d. stub_call B d args regs w)"

section \<open>The library\<close>

definition user_exit :: "'m build \<Rightarrow> saved_regs \<Rightarrow> 'm world \<Rightarrow> 'm world outcome" where
  "user_exit B regs w = and_then (raw B regs Exit [] w) (\<lambda>(r, w1). case r of Inl _ \<Rightarrow> Panic | Inr _ \<Rightarrow> Hang)"

definition user_yield :: "'m build \<Rightarrow> saved_regs \<Rightarrow> 'm world \<Rightarrow> 'm world outcome" where
  "user_yield B regs w = and_then (raw B regs Yield [] w) (\<lambda>(r, w1). case r of Inl _ \<Rightarrow> Panic | Inr _ \<Rightarrow> Done w1)"

text \<open>A result of one register, which must not be 0.\<close>

definition non_zero :: "u64 list \<Rightarrow> u64 syscall_result" where
  "non_zero xs = (if hd xs = 0 then Inl UnknownError else Inr (hd xs))"

definition checked_result :: "('a \<Rightarrow> 'b syscall_result) \<Rightarrow> ('w, 'a) op \<Rightarrow> ('w, 'b) op" where
  "checked_result f m = and_then m (\<lambda>(r, w). Done (case r of Inl err \<Rightarrow> Inl err | Inr x \<Rightarrow> f x, w))"

definition user_file_new :: "'m build \<Rightarrow> saved_regs \<Rightarrow> u64 \<Rightarrow> u64 \<Rightarrow> u64 \<Rightarrow> 'm world \<Rightarrow> ('m world, u64) op" where
  "user_file_new B regs path_ptr path_len mode w =
     checked_result non_zero (raw B regs FsOpen [path_ptr, path_len, mode] w)"

definition user_file_seek :: "'m build \<Rightarrow> saved_regs \<Rightarrow> u64 \<Rightarrow> u64 \<Rightarrow> 'm world \<Rightarrow> ('m world, unit) op" where
  "user_file_seek B regs file at w = checked_result (\<lambda>_. Inr ()) (raw B regs FsHandleSeek [file, at] w)"

text \<open>\<open>read\<close> gives the part of the buffer that was read; taking it panics beyond the end.\<close>

definition user_file_read :: "'m build \<Rightarrow> saved_regs \<Rightarrow> u64 \<Rightarrow> u64 \<Rightarrow> u64 \<Rightarrow> 'm world \<Rightarrow> ('m world, u64 \<times> u64) op" where
  "user_file_read B regs file buf_ptr buf_len w =
     and_then (raw B regs FsHandleRead [file, buf_ptr, buf_len] w) (\<lambda>(r, w1). case r of
       Inl err \<Rightarrow> Done (Inl err, w1)
     | Inr xs \<Rightarrow> if buf_len < hd xs then Panic else Done (Inr (buf_ptr, hd xs), w1))"

definition user_file_drop :: "'m build \<Rightarrow> saved_regs \<Rightarrow> u64 \<Rightarrow> 'm world \<Rightarrow> 'm world outcome" where
  "user_file_drop B regs file w =
     and_then (raw B regs FsHandleClose [file] w) (\<lambda>(r, w1). case r of Inl _ \<Rightarrow> Panic | Inr _ \<Rightarrow> Done w1)"

definition user_my_pid :: "'m build \<Rightarrow> saved_regs \<Rightarrow> 'm world \<Rightarrow> ('m world, u64) op" where
  "user_my_pid B regs w = checked_result (\<lambda>xs. Inr (hd xs)) (raw B regs ProcessMyPid [] w)"

definition user_spawn :: "'m build \<Rightarrow> saved_regs \<Rightarrow> 'm world \<Rightarrow> ('m world, u64) op" where
  "user_spawn B regs w = checked_result non_zero (raw B regs ProcessSpawn [] w)"

definition user_share :: "'m build \<Rightarrow> saved_regs \<Rightarrow> u64 \<Rightarrow> u64 \<Rightarrow> 'm world \<Rightarrow> ('m world, unit) op" where
  "user_share B regs process cap w = checked_result (\<lambda>_. Inr ()) (raw B regs ProcessCapShare [process, cap] w)"

definition user_transfer :: "'m build \<Rightarrow> saved_regs \<Rightarrow> u64 \<Rightarrow> u64 \<Rightarrow> 'm world \<Rightarrow> ('m world, unit) op" where
  "user_transfer B regs process cap w = checked_result (\<lambda>_. Inr ()) (raw B regs ProcessCapTransfer [process, cap] w)"

definition user_exec :: "'m build \<Rightarrow> saved_regs \<Rightarrow> u64 \<Rightarrow> u64 \<Rightarrow> 'm world \<Rightarrow> ('m world, unit) op" where
  "user_exec B regs path_ptr path_len w = checked_result (\<lambda>_. Inr ()) (raw B regs ProcessExec [path_ptr, path_len] w)"

text \<open>The program \<open>initproc\<close>.\<close>

definition initproc :: "'m build \<Rightarrow> saved_regs \<Rightarrow> 'm world \<Rightarrow> 'm world outcome" where
  "initproc B regs w = and_then (user_yield B regs w) (user_exit B regs)"

section \<open>The library and the kernel\<close>

lemma raw_is_kernel_call:
  assumes "num_enum_ok (b_env B)"
    and "(code, length args) \<in> set (map (\<lambda>(c, argc, retc). (c, argc)) raw_calls)"
  shows "raw B regs code args w = kernel_call B code args w"
proof -
  from assms(2) obtain retc where m: "(code, length args, retc) \<in> set raw_calls" by auto
  then obtain d where "create_syscall code (length args) retc = Some d" "raw_descriptor code = Some d"
    by (auto simp: raw_calls_def raw_descriptor_def create_syscall_def REGISTRIES_def)
  then show ?thesis using stub_is_kernel_call [OF assms(1) m _ refl] by (simp add: raw_def)
qed

lemma raw_kernel_calls:
  assumes "num_enum_ok (b_env B)"
  shows "raw B regs Exit [] w = kernel_call B Exit [] w"
    "raw B regs Yield [] w = kernel_call B Yield [] w"
    "raw B regs FsHandleRead [x, y, z] w = kernel_call B FsHandleRead [x, y, z] w"
    "raw B regs ProcessExec [x, y] w = kernel_call B ProcessExec [x, y] w"
  using raw_is_kernel_call [OF assms] by (simp_all add: raw_calls_def)

lemma results_Done:
  assumes "results f m = Done (r, w)"
  obtains q where "m = Done (q, w)" "r = map_sum id f q"
  using assms by (auto simp: results_def and_then_eq_Done)

lemma read_call_bound:
  assumes "kernel_call B FsHandleRead [fd, at, n] w = Done (Inr xs, w')"
  shows "\<exists>c. xs = [c] \<and> c \<le> n"
proof -
  from assms obtain q where m: "on_memory (sys_file_read (b_env B) fd at n) w = Done (q, w')"
    and q: "Inr xs = map_sum id (\<lambda>x. [x]) q"
    by (auto simp: kernel_call_def elim: results_Done)
  from q obtain c where c: "q = Inr c" "xs = [c]" by (cases q) auto
  from m c(1) obtain m' k' where "sys_file_read (b_env B) fd at n (w_mem w) (w_kernel w) = Done ((Inr c, m'), k')"
    by (auto elim: on_memory_Done)
  then have "on_files (b_env B) (\<lambda>s. and_then (file_read_at fd at n (w_mem w) s)
      (\<lambda>(r, (m', s')). Done ((r, m'), s'))) (w_kernel w) = Done ((Inr c, m'), k')"
    by (auto simp: sys_file_read_def and_then_case_sum_eq_Done)
  then obtain s s' where rd: "file_read_at fd at n (w_mem w) s = Done (Inr c, (m', s'))"
    by (rule on_files_Done) (auto simp: and_then_eq_Done)
  then have "c \<le> n" by (rule file_read_at_bound)
  with c(2) show ?thesis by blast
qed

section \<open>Properties\<close>

text \<open>
  Reading into a buffer is safe on the user side. The slice that \<open>File::read\<close> takes out of
  its buffer is always inside it: the function panics only if the kernel does, and what it returns
  begins at the buffer and is not longer.
\<close>
theorem user_read_in_buffer:
  assumes "num_enum_ok (b_env B)"
  shows "(user_file_read B regs file ptr n w = Panic \<longrightarrow> kernel_call B FsHandleRead [file, ptr, n] w = Panic) \<and>
    (user_file_read B regs file ptr n w = Done (Inr (p, c), w') \<longrightarrow> p = ptr \<and> c \<le> n)"
proof (cases "kernel_call B FsHandleRead [file, ptr, n] w")
  case (Done x)
  obtain r w1 where x: "x = (r, w1)" by (cases x)
  have eq: "user_file_read B regs file ptr n w = (case r of
       Inl err \<Rightarrow> Done (Inl err, w1)
     | Inr xs \<Rightarrow> if n < hd xs then Panic else Done (Inr (ptr, hd xs), w1))"
    by (simp add: user_file_read_def raw_kernel_calls [OF assms] Done x)
  show ?thesis
  proof (cases r)
    case (Inl err)
    then show ?thesis by (simp add: eq)
  next
    case (Inr xs)
    with Done x have "kernel_call B FsHandleRead [file, ptr, n] w = Done (Inr xs, w1)" by simp
    from read_call_bound [OF this] show ?thesis by (auto simp: eq Inr)
  qed
qed (simp_all add: user_file_read_def raw_kernel_calls [OF assms])

text \<open>
  \<open>Process::exec\<close> cannot work. It passes the address and the length of a path where the kernel
  takes the number of a process and a descriptor: unless the address happens to be the number of a
  task, the call is refused with \<open>WrongProcess\<close> and nothing happens; and it never succeeds.
\<close>
theorem user_exec_refused:
  assumes "num_enum_ok (b_env B)" and "spin_ok (b_env B)" and "goblin_ok (b_elf B)" and "sched_ok (w_kernel w)"
  shows "(ptr \<noteq> 0 \<and> registry (w_kernel w) ptr = None \<longrightarrow> user_exec B regs ptr len w = Done (Inl WrongProcess, w)) \<and>
    (\<nexists>w'. user_exec B regs ptr len w = Done (Inr (), w'))"
proof -
  let ?k = "w_kernel w"
  note D = sched_ok_D [OF assms(4)]
  have "exec_call (b_env B) (b_elf B) (b_ops B) ptr len (w_frames w) ?k = Done ((Inl WrongProcess, w_frames w), ?k)"
    if "ptr \<noteq> 0" "registry ?k ptr = None"
    using that assms(2) D(1)
    by (simp add: exec_call_def reading_registry_def registry_get_def kernel_lock_eq [OF D(1)])
  moreover have "\<nexists>w'. user_exec B regs ptr len w = Done (Inr (), w')"
    by (auto simp: user_exec_def checked_result_def raw_kernel_calls [OF assms(1)] kernel_call_def and_then_eq_Done
        split: sum.splits elim!: results_Done on_frames_Done dest!: exec_call_fails [OF assms(3)])
  ultimately show ?thesis
    by (auto simp: user_exec_def checked_result_def raw_kernel_calls [OF assms(1)] kernel_call_def
        results_def on_frames_def)
qed

text \<open>
  The system ends with its first program. Whenever the init task runs in a state the system
  reaches from its start, the program \<open>initproc\<close> yields, is the only task to go on, and exits;
  and its exit never returns, so that the processor is lost to everybody.
\<close>
theorem initproc_hangs_system:
  assumes "num_enum_ok (b_env B)" and "spin_ok (b_env B)" and "goblin_ok (b_elf B)" and "boot_state k"
    and "boot_tasks (b_env B) (b_ops B) (b_ptes B) (b_tasks B) dir start k s = Done (w_kernel w, s')"
    and "(world_step B)\<^sup>*\<^sup>* w w'" and "cur_task (w_kernel w') \<noteq> 1"
  shows "initproc B regs w' = Hang"
proof -
  let ?e = "b_env B" and ?k = "w_kernel w'"
  from world_run_ok [OF assms(2,3,6) boot_system_ok [OF assms(2,4,5)]]
  have ok: "sched_ok ?k" "dom (registry ?k) = {1, 2}" by (simp_all add: system_ok_def)
  note D = sched_ok_D [OF ok(1)]
  have only: "t = 2" if "runnable ?k t" for t
    using that ok(2) D(11) unfolding runnable_def by (metis domI insertE singletonD)
  then have cur: "cur_task ?k = 2" "runnable ?k (cur_task ?k)" using D(9) assms(7) by auto
  have "executable_tasks ?k = []"
    using D(6,7) only cur(1) by (cases "executable_tasks ?k") auto
  then have ring: "ring ?k = [2]" using cur by (simp add: ring_def)
  from switch_ok [OF assms(2) ok(1)] obtain b k1 where
    sw: "switch_to_next_task ?e ?k = Done (b, k1)" "sched_ok k1" "cur_task k1 = 2"
    using ring by (metis list.simps(5))
  have "user_yield B regs w' = Done (w'\<lparr>w_kernel := k1\<rparr>)"
    by (simp add: user_yield_def raw_kernel_calls [OF assms(1)] kernel_call_def results_def on_kernel_def sys_yield_def sw(1))
  moreover have "sys_exit ?e k1 = Hang" using sys_exit_hangs [OF assms(2) sw(2)] sw(3) by simp
  then have "user_exit B regs (w'\<lparr>w_kernel := k1\<rparr>) = Hang"
    by (simp add: user_exit_def raw_kernel_calls [OF assms(1)] kernel_call_def results_def on_kernel_def)
  ultimately show ?thesis by (simp add: initproc_def)
qed

section \<open>Examples\<close>

text \<open>Task 2 with an open file, and a buffer of two bytes.\<close>

definition reading_world :: "unit world" where
  "reading_world = sample_world\<lparr>w_mem := example_memory,
     w_kernel := update_task 2 (\<lambda>c. c\<lparr>files := example_files\<rparr>) spawning\<rparr>"

lemma reading_world_ok: "sched_ok (w_kernel reading_world)"
proof -
  have "kept c (c\<lparr>files := example_files\<rparr>)" for c :: "u64 task_context" by (simp add: kept_def)
  then show ?thesis
    using sched_ok_quiet [OF quiet_update spawning_ok] by (simp add: reading_world_def)
qed

theorem user_read_in_buffer_witness:
  "\<exists>w'. user_file_read sample_build sample_regs 1 0x2000 2 reading_world = Done (Inr (0x2000, 2), w') \<and> (2 :: u64) \<le> 2"
proof -
  obtain m' s' where r: "file_read_at 1 0x2000 2 example_memory example_files = Done (Inr 2, (m', s'))"
    by (simp add: file_read_at_def example_files_def example_memory_def Let_def)
  obtain c where c: "registry (w_kernel reading_world) (cur_task (w_kernel reading_world)) = Some c" "files c = example_files"
    by (auto simp: reading_world_def update_task_def spawning_def)
  have mem: "w_mem reading_world = example_memory" by (simp add: reading_world_def)
  have e: "b_env sample_build = documented_env True" by (simp add: sample_build_def)
  have "\<exists>k'. sys_file_read (documented_env True) 1 0x2000 2 example_memory (w_kernel reading_world) = Done ((Inr 2, m'), k')"
  proof -
    have "check_user_range (documented_env True) 0x2000 2 = Done (Inr ())"
      by (simp add: check_user_range_def check_addr_userspace_simps add_chk_def)
    then show ?thesis
      using r c(2) by (simp add: sys_file_read_def on_files_def on_current_unlocked [OF documented_spin reading_world_ok c(1)])
  qed
  then have "\<exists>w'. user_file_read sample_build sample_regs 1 0x2000 2 reading_world = Done (Inr (0x2000, 2), w')"
    by (auto simp: user_file_read_def raw_kernel_calls [OF sample_build_ok(3)] kernel_call_def results_def
        on_memory_def mem e)
  with user_read_in_buffer [OF sample_build_ok(3)] show ?thesis by blast
qed

theorem user_exec_refused_witness:
  "user_exec sample_build sample_regs 0x5000 4 sample_world = Done (Inl WrongProcess, sample_world)"
proof -
  have "sched_ok (w_kernel sample_world)" by (simp add: sample_world_def spawning_ok)
  from user_exec_refused [OF sample_build_ok(3,1,2) this, of "0x5000"] show ?thesis
    by (simp add: sample_world_def spawning_def)
qed

theorem initproc_hangs_system_witness:
  "\<exists>w w'. (world_step sample_build)\<^sup>*\<^sup>* w w' \<and> initproc sample_build sample_regs w' = Hang"
proof -
  from sample_run obtain w w' s' where R: "boot_tasks (b_env sample_build) (b_ops sample_build) (b_ptes sample_build)
      (b_tasks sample_build) [] 0x1234 start_kernel idle_frames = Done (w_kernel w, s')"
    "(world_step sample_build)\<^sup>*\<^sup>* w w'" "cur_task (w_kernel w') = 2" by blast
  from R(3) have "cur_task (w_kernel w') \<noteq> 1" by simp
  from initproc_hangs_system [OF sample_build_ok(3,1,2) start_kernel_boot R(1,2) this] R(2) show ?thesis by blast
qed

end
