(* ===== verification/Thread_Data.thy ===== *)
theory Thread_Data
  imports Paging
begin

text \<open>
  The storage of the thread-local variables of a processor (\<open>setup_thread_data\<close> in
  \<open>arch/x86_64/paging/thread.rs\<close>): 64 KiB of fresh pages for every processor, the image of the
  section \<open>.tdata\<close> with zeros for \<open>.tbss\<close> behind it, and the pointer that the \<open>fs\<close> register
  is made to point to.
\<close>

section \<open>The model\<close>

text \<open>The symbols of the linker around the two sections.\<close>

record tls_symbols =
  tdata_start :: u64
  tdata_end :: u64
  tbss_start :: u64
  tbss_end :: u64

type_synonym bytes = "u64 \<Rightarrow> u8"

definition poke :: "u64 \<Rightarrow> u8 list \<Rightarrow> bytes \<Rightarrow> bytes" where
  "poke a bs m = (\<lambda>x. if unat (x - a) < length bs then bs ! unat (x - a) else m x)"

definition le_bytes :: "u64 \<Rightarrow> u8 list" where
  "le_bytes v = map (\<lambda>i. ucast (drop_bit (8 * i) v)) [0..<8]"

definition thread_flags :: u64 where
  "thread_flags = pt_present OR pt_writable OR pt_no_execute OR pt_global"

text \<open>The result is the value of the register \<open>FsBase\<close>.\<close>

definition setup_thread_data ::
    "env \<Rightarrow> 'm mem_ops \<Rightarrow> tls_symbols \<Rightarrow> u64 \<Rightarrow> u64 \<Rightarrow> 'm frames \<Rightarrow> bytes \<Rightarrow> (u64 \<times> 'm frames \<times> bytes) outcome" where
  "setup_thread_data e ops L cr3 cpu s m =
     (let oc = overflow_checks e in
      and_then (mul_chk oc cpu KERNEL_THREAD_STORAGE_SIZE) (\<lambda>off.
      and_then (add_chk oc KERNEL_THREAD_DATA_START off) (\<lambda>a.
      and_then (unwrap (virt_new e a)) (\<lambda>start.
      and_then (allocate_map_range e ops cr3 start KERNEL_THREAD_STORAGE_SIZE thread_flags s) (\<lambda>s1.
      and_then (sub_chk oc (tdata_end L) (tdata_start L)) (\<lambda>tdata_len.
      and_then (sub_chk oc (tbss_end L) (tbss_start L)) (\<lambda>tbss_len.
      and_then (unwrap (virt_add e start tdata_len)) (\<lambda>mid.
      and_then (unwrap (virt_add e mid tbss_len)) (\<lambda>end.
      and_then (add_chk oc tdata_len tbss_len) (\<lambda>len.
      if KERNEL_THREAD_STORAGE_SIZE < len then Panic
      else let m1 = poke start (map (\<lambda>i. m (tdata_start L + of_nat i)) [0..<unat tdata_len]) m;
               m2 = poke (start + tdata_len) (replicate (unat tbss_len) 0) m1
           in and_then (unwrap (virt_sub e end 8)) (\<lambda>data_offset.
                Done (data_offset, s1, poke data_offset (le_bytes end) m2))))))))))))"

section \<open>Bytes\<close>

definition holds_u64 :: "bytes \<Rightarrow> u64 \<Rightarrow> u64 \<Rightarrow> bool" where
  "holds_u64 m a v \<longleftrightarrow> (\<forall>i < 8. m (a + of_nat i) = ucast (drop_bit (8 * i) v))"

lemma poke_at: "i < length bs \<Longrightarrow> length bs < 2 ^ 64 \<Longrightarrow> poke a bs m (a + of_nat i) = bs ! i"
  by (simp add: poke_def unat_of_nat_u64)

lemma poke_other: "length bs \<le> unat (x - a) \<Longrightarrow> poke a bs m x = m x"
  by (simp add: poke_def)

lemma poke_u64: "holds_u64 (poke a (le_bytes v) m) a v"
  unfolding holds_u64_def by (auto simp: poke_at le_bytes_def)

section \<open>The pages\<close>

lemma map_range_loop_mapped:
  assumes "mapper_ok ops view" and "map_range_loop e ops cr3 t flags pages s = Done s'"
  shows "\<exists>frames. length frames = length pages \<and> mapped view t s s' (zip pages frames) flags"
  using assms(2)
proof (induction pages arbitrary: s)
  case Nil
  then show ?case by (simp add: mapped_Nil)
next
  case (Cons p pages)
  note keep = allocate_frame_view [OF assms(1), of t e cr3, unfolded keeps_view_def, rule_format]
  from Cons.prems obtain f s1 s2 where st: "allocate_frame e ops cr3 s = Done (Some f, s1)"
    "map_to ops (allocate_frame e ops cr3) t p f flags s1 = Done (None, s2)"
    "map_range_loop e ops cr3 t flags pages s2 = Done s'"
    by (auto simp: and_then_eq_Done unwrap_def split: if_splits option.splits)
  have "maps_leaf view t p f flags None s1 s2"
    by (rule mapper_leaf(2) [OF assms(1) allocate_frame_view [OF assms(1)] st(2)])
  then have leaf: "maps_leaf view t p f flags None s s2" using keep [OF st(1)] by (simp add: maps_leaf_def)
  from Cons.IH [OF st(3)] obtain frames where "length frames = length pages" "mapped view t s2 s' (zip pages frames) flags"
    by blast
  with mapped_Cons [OF leaf this(2)] show ?case by (intro exI [of _ "f # frames"]) simp
qed

text \<open>Where the storage of a processor is.\<close>

definition thread_start :: "u64 \<Rightarrow> u64" where
  "thread_start cpu = KERNEL_THREAD_DATA_START + cpu * KERNEL_THREAD_STORAGE_SIZE"

lemma thread_start_unat:
  assumes "cpu < 0x10000000"
  shows "unat (thread_start cpu) = 0xFFFFB00000000000 + 65536 * unat cpu"
proof -
  have "unat cpu < 0x10000000" using assms by (simp add: word_less_nat_alt)
  then have "unat (cpu * 0x10000) = unat cpu * 0x10000" by (simp add: unat_word_ariths)
  then show ?thesis using \<open>unat cpu < 0x10000000\<close>
    by (simp add: thread_start_def kernel_addresses unat_add_no_overflow)
qed

lemma thread_storages_apart:
  assumes "cpu < 0x10000000" and "cpu' < 0x10000000" and "cpu < cpu'"
  shows "unat (thread_start cpu) + 65536 \<le> unat (thread_start cpu')"
  using assms by (simp add: thread_start_unat word_less_nat_alt)

lemma thread_pages:
  assumes "virt_ok e" and "page_ok e" and "cpu < 0x10000000"
  shows "virt_new e (thread_start cpu) = Some (thread_start cpu)"
    and "allocate_map_range e ops cr3 (thread_start cpu) KERNEL_THREAD_STORAGE_SIZE flags s =
      and_then (get_page_table e cr3) (\<lambda>t. map_range_loop e ops cr3 t flags (page_starts (thread_start cpu) 16) s)"
proof -
  let ?a = "thread_start cpu"
  note u = thread_start_unat [OF assms(3)]
  have lt: "unat cpu < 0x10000000" using assms(3) by (simp add: word_less_nat_alt)
  have up: "upper_half \<le> ?a" and room: "unat ?a + 65536 < 2 ^ 64"
    using u lt by (simp_all add: word_le_nat_alt upper_half_def)
  have "unat ?a = 4096 * (0xFFFFB00000000 + 16 * unat cpu)" using u by simp
  then have m: "unat ?a mod 4096 = 0" by (metis mod_mult_self1_is_0)
  have "unat (containing_address e ?a) = unat ?a" using m by (simp add: page_of_address [OF assms(2)])
  then have c: "containing_address e ?a = ?a" by (rule unsigned_word_eqI)
  note R = pages_of_64_KiB [OF assms(1,2) up room]
  show "virt_new e ?a = Some ?a" by (rule R(1))
  show "allocate_map_range e ops cr3 ?a KERNEL_THREAD_STORAGE_SIZE flags s =
      and_then (get_page_table e cr3) (\<lambda>t. map_range_loop e ops cr3 t flags (page_starts ?a 16) s)"
    using R(2,3,4) m by (simp add: allocate_map_range_def c KERNEL_THREAD_STORAGE_SIZE_def)
qed

section \<open>The image\<close>

definition sections_ok :: "tls_symbols \<Rightarrow> bool" where
  "sections_ok L \<longleftrightarrow> tdata_start L \<le> tdata_end L \<and> tbss_start L \<le> tbss_end L \<and>
     unat (tdata_end L - tdata_start L) + unat (tbss_end L - tbss_start L) < 2 ^ 64"

definition tdata_size :: "tls_symbols \<Rightarrow> nat" where
  "tdata_size L = unat (tdata_end L - tdata_start L)"

definition tls_size :: "tls_symbols \<Rightarrow> nat" where
  "tls_size L = tdata_size L + unat (tbss_end L - tbss_start L)"

definition thread_image :: "tls_symbols \<Rightarrow> u64 \<Rightarrow> bytes \<Rightarrow> bytes" where
  "thread_image L start m =
     (let n = tdata_end L - tdata_start L;
          m1 = poke start (map (\<lambda>i. m (tdata_start L + of_nat i)) [0..<tdata_size L]) m;
          m2 = poke (start + n) (replicate (unat (tbss_end L - tbss_start L)) 0) m1
      in poke (start + of_nat (tls_size L) - 8) (le_bytes (start + of_nat (tls_size L))) m2)"

lemma setup_thread_data_Done:
  assumes "virt_ok e" and "page_ok e" and "cpu < 0x10000000" and "sections_ok L"
    and "get_page_table e cr3 = Done t" and "setup_thread_data e ops L cr3 cpu s m = Done (fs, s', m')"
  shows "tls_size L \<le> 65536" and "fs = thread_start cpu + of_nat (tls_size L) - 8"
    and "map_range_loop e ops cr3 t thread_flags (page_starts (thread_start cpu) 16) s = Done s'"
    and "m' = thread_image L (thread_start cpu) m"
proof -
  let ?a = "thread_start cpu" and ?n1 = "tdata_end L - tdata_start L" and ?n2 = "tbss_end L - tbss_start L"
  have lt: "unat cpu < 0x10000000" using assms(3) by (simp add: word_less_nat_alt)
  have m: "mul_chk (overflow_checks e) cpu KERNEL_THREAD_STORAGE_SIZE = Done (cpu * KERNEL_THREAD_STORAGE_SIZE)"
    using lt by (simp add: mul_chk_def KERNEL_THREAD_STORAGE_SIZE_def)
  have "unat (cpu * KERNEL_THREAD_STORAGE_SIZE) = unat cpu * 65536"
    using lt by (simp add: KERNEL_THREAD_STORAGE_SIZE_def unat_word_ariths)
  then have a: "add_chk (overflow_checks e) KERNEL_THREAD_DATA_START (cpu * KERNEL_THREAD_STORAGE_SIZE) = Done ?a"
    using lt by (simp add: add_chk_def thread_start_def kernel_addresses)
  have sub: "sub_chk (overflow_checks e) (tdata_end L) (tdata_start L) = Done ?n1"
    "sub_chk (overflow_checks e) (tbss_end L) (tbss_start L) = Done ?n2"
    using assms(4) by (simp_all add: sections_ok_def sub_chk_Done)
  have sum: "add_chk (overflow_checks e) ?n1 ?n2 = Done (?n1 + ?n2)" "unat (?n1 + ?n2) = tls_size L"
    using assms(4) by (simp_all add: sections_ok_def add_chk_Done unat_add_no_overflow tls_size_def tdata_size_def)
  from assms(6) obtain mid last where st:
    "map_range_loop e ops cr3 t thread_flags (page_starts ?a 16) s = Done s'"
    "virt_add e ?a ?n1 = Some mid" "virt_add e mid ?n2 = Some last" "?n1 + ?n2 \<le> KERNEL_THREAD_STORAGE_SIZE"
    "virt_sub e last 8 = Some fs"
    "m' = poke fs (le_bytes last) (poke (?a + ?n1) (replicate (unat ?n2) 0)
       (poke ?a (map (\<lambda>i. m (tdata_start L + of_nat i)) [0..<unat ?n1]) m))"
    by (auto simp: setup_thread_data_def Let_def m a sub sum(1) thread_pages [OF assms(1-3)] assms(5) and_then_eq_Done
        unwrap_def split: if_splits option.splits)
  show size: "tls_size L \<le> 65536"
    using st(4) sum(2) by (simp add: word_le_nat_alt KERNEL_THREAD_STORAGE_SIZE_def)
  show "map_range_loop e ops cr3 t thread_flags (page_starts ?a 16) s = Done s'" by (rule st(1))
  note u = thread_start_unat [OF assms(3)]
  have n1: "unat ?n1 \<le> 65536" using size by (simp add: tls_size_def tdata_size_def)
  have up: "upper_half \<le> ?a + ?n1" "upper_half \<le> ?a + (?n1 + ?n2)" "upper_half \<le> ?a + (?n1 + ?n2) - 8"
  proof -
    have 1: "unat (?a + ?n1) = unat ?a + unat ?n1" "unat (?a + (?n1 + ?n2)) = unat ?a + tls_size L"
      using u lt n1 size sum(2) by (subst unat_add_no_overflow; simp)+
    have "8 \<le> ?a + (?n1 + ?n2)" using 1(2) u by (simp add: word_le_nat_alt)
    then have 2: "unat (?a + (?n1 + ?n2) - 8) = unat ?a + tls_size L - 8" using 1(2) by (simp add: unat_sub)
    show "upper_half \<le> ?a + ?n1" "upper_half \<le> ?a + (?n1 + ?n2)" "upper_half \<le> ?a + (?n1 + ?n2) - 8"
      using 1 2 u by (simp_all add: word_le_nat_alt upper_half_def)
  qed
  have mid: "mid = ?a + ?n1"
    using st(2) upper_canonical [OF up(1)] by (simp add: virt_simps(2) [OF assms(1)] split: if_splits)
  have last: "last = ?a + (?n1 + ?n2)"
    using st(3) upper_canonical [OF up(2)] by (simp add: mid virt_simps(2) [OF assms(1)] add.assoc split: if_splits)
  have "fs = ?a + (?n1 + ?n2) - 8"
    using st(5) upper_canonical [OF up(3)] by (simp add: last virt_simps(3) [OF assms(1)] split: if_splits)
  moreover have w: "?n1 + ?n2 = of_nat (tls_size L)" unfolding sum(2) [symmetric] by simp
  ultimately show fs: "fs = ?a + of_nat (tls_size L) - 8" by simp
  show "m' = thread_image L ?a m"
    by (simp add: st(6) fs last w thread_image_def tdata_size_def Let_def)
qed

lemma unat_behind:
  assumes "i < j" and "j < 2 ^ 64"
  shows "unat (of_nat i - of_nat j :: u64) = 2 ^ 64 - (j - i)"
proof -
  have u: "unat (of_nat i :: u64) = i" "unat (of_nat j :: u64) = j" using assms by (simp_all add: unat_of_nat_u64)
  have "\<not> (of_nat j :: u64) \<le> of_nat i" using assms u by (simp add: word_le_nat_alt)
  then show ?thesis using assms u by (simp add: unat_sub_if')
qed

section \<open>Properties\<close>

text \<open>
  C40: The storage of the thread-local variables. For the first 2 ^ 28 processors, when the set up
  comes back: the sections fit into the 64 KiB, whose sixteen pages were not mapped before and are
  mapped writable and not executable now; the \<open>fs\<close> register is eight bytes before the end of the
  image and points to a pointer to that end; the bytes before it are those of \<open>.tdata\<close> followed by
  zeros; and no byte outside the image is written. The last eight bytes of the image hold the
  pointer, whatever variable of \<open>.tdata\<close> or \<open>.tbss\<close> lives there.
\<close>
theorem thread_data_layout:
  assumes "virt_ok e" and "page_ok e" and "mapper_ok ops view" and "get_page_table e cr3 = Done t"
    and "cpu < 0x10000000" and "sections_ok L" and "8 \<le> tls_size L"
    and "setup_thread_data e ops L cr3 cpu s m = Done (fs, s', m')"
  shows "tls_size L \<le> 65536 \<and>
    (\<exists>frames. length frames = 16 \<and> mapped view t s s' (zip (page_starts (thread_start cpu) 16) frames) thread_flags) \<and>
    fs = thread_start cpu + of_nat (tls_size L - 8) \<and> holds_u64 m' fs (thread_start cpu + of_nat (tls_size L)) \<and>
    (\<forall>i < tls_size L - 8. m' (thread_start cpu + of_nat i) =
       (if i < tdata_size L then m (tdata_start L + of_nat i) else 0)) \<and>
    (\<forall>x. tls_size L \<le> unat (x - thread_start cpu) \<longrightarrow> m' x = m x)"
proof -
  let ?a = "thread_start cpu" and ?n = "tls_size L"
  let ?n2 = "unat (tbss_end L - tbss_start L)"
  note S = setup_thread_data_Done [OF assms(1,2,5,6,4,8)]
  have fs: "fs = ?a + of_nat (?n - 8)" using assms(7) S(2) by (simp add: of_nat_diff)
  have n1: "tdata_end L - tdata_start L = of_nat (tdata_size L)" by (simp add: tdata_size_def)
  have sz: "?n = tdata_size L + ?n2" by (simp add: tls_size_def)
  define m1 where "m1 = poke ?a (map (\<lambda>i. m (tdata_start L + of_nat i)) [0..<tdata_size L]) m"
  define m2 where "m2 = poke (?a + of_nat (tdata_size L)) (replicate ?n2 0) m1"
  have m': "m' = poke (?a + of_nat ?n - 8) (le_bytes (?a + of_nat ?n)) m2"
    by (simp add: S(4) thread_image_def m1_def m2_def n1 Let_def)
  have len: "length (le_bytes v) = 8" for v by (simp add: le_bytes_def)
  have "m' (?a + of_nat i) = (if i < tdata_size L then m (tdata_start L + of_nat i) else 0)" if i: "i < ?n - 8" for i
  proof -
    have "?a + of_nat i - (?a + of_nat ?n - 8) = of_nat i - of_nat (?n - 8)"
      using assms(7) by (simp add: of_nat_diff)
    moreover have "8 \<le> unat (of_nat i - of_nat (?n - 8) :: u64)"
      using S(1) by (subst unat_behind [OF i]) simp_all
    ultimately have "8 \<le> unat (?a + of_nat i - (?a + of_nat ?n - 8))" by (simp only:)
    then have 1: "m' (?a + of_nat i) = m2 (?a + of_nat i)" unfolding m' by (simp add: poke_other len)
    show ?thesis
    proof (cases "i < tdata_size L")
      case True
      have "?a + of_nat i - (?a + of_nat (tdata_size L)) = of_nat i - of_nat (tdata_size L)" by simp
      moreover have "?n2 \<le> unat (of_nat i - of_nat (tdata_size L) :: u64)"
        using S(1) sz by (subst unat_behind [OF True]) simp_all
      ultimately have "?n2 \<le> unat (?a + of_nat i - (?a + of_nat (tdata_size L)))" by (simp only:)
      then have "m2 (?a + of_nat i) = m1 (?a + of_nat i)" unfolding m2_def by (simp add: poke_other)
      with 1 True S(1) sz show ?thesis by (simp add: m1_def poke_at)
    next
      case False
      then obtain j where j: "i = tdata_size L + j" by (metis le_add_diff_inverse not_less)
      with i sz have "j < ?n2" by simp
      then have "m2 (?a + of_nat (tdata_size L) + of_nat j) = 0"
        using S(1) sz unfolding m2_def by (subst poke_at) simp_all
      with 1 j False show ?thesis by (simp add: add.assoc)
    qed
  qed
  moreover have "m' x = m x" if x: "?n \<le> unat (x - ?a)" for x
  proof -
    have beyond: "unat (x - ?a - of_nat j) = unat (x - ?a) - j" if "j \<le> ?n" for j
    proof -
      have u: "unat (of_nat j :: u64) = j" using that S(1) by (simp add: unat_of_nat_u64)
      then have "(of_nat j :: u64) \<le> x - ?a" using that x by (simp add: word_le_nat_alt)
      then show ?thesis using u by (simp add: unat_sub)
    qed
    have "x - (?a + of_nat ?n - 8) = x - ?a - of_nat (?n - 8)" using assms(7) by (simp add: of_nat_diff)
    moreover have "8 \<le> unat (x - ?a - of_nat (?n - 8))"
      unfolding beyond [OF diff_le_self] using assms(7) x by linarith
    ultimately have 1: "8 \<le> unat (x - (?a + of_nat ?n - 8))" by (simp only:)
    have "x - (?a + of_nat (tdata_size L)) = x - ?a - of_nat (tdata_size L)" by simp
    moreover have "?n2 \<le> unat (x - ?a - of_nat (tdata_size L))"
      using sz x by (subst beyond) simp_all
    ultimately have 2: "?n2 \<le> unat (x - (?a + of_nat (tdata_size L)))" by (simp only:)
    have 3: "tdata_size L \<le> unat (x - ?a)" using sz x by simp
    show ?thesis
      using 1 2 3 by (simp add: m' m2_def m1_def poke_other len)
  qed
  moreover have "holds_u64 m' fs (?a + of_nat ?n)"
    unfolding m' S(2) [symmetric] by (rule poke_u64)
  moreover obtain frames where "length frames = 16" "mapped view t s s' (zip (page_starts ?a 16) frames) thread_flags"
    using map_range_loop_mapped [OF assms(3) S(3)] by (auto simp: page_starts_def)
  ultimately show ?thesis using S(1) fs by blast
qed

text \<open>Four bytes of data and twelve of zeros for processor 0.\<close>

definition example_sections :: tls_symbols where
  "example_sections = \<lparr> tdata_start = 0x1000, tdata_end = 0x1004, tbss_start = 0x1004, tbss_end = 0x1010 \<rparr>"

definition thread_pool :: "leaf_machine frames" where
  "thread_pool = \<lparr> hw = (\<lambda>_ _. None, page_starts 0xFFFFC00000000000 16),
     frame_entries = [\<lparr> region_start = 0x100000, region_end = 0x200000, virt_start = Some 0xFFFFC00000000000 \<rparr>] \<rparr>"

lemma thread_boxes:
  "page_starts 0xFFFFC00000000000 16 = [0xFFFFC00000000000, 0xFFFFC00000001000, 0xFFFFC00000002000,
     0xFFFFC00000003000, 0xFFFFC00000004000, 0xFFFFC00000005000, 0xFFFFC00000006000, 0xFFFFC00000007000,
     0xFFFFC00000008000, 0xFFFFC00000009000, 0xFFFFC0000000A000, 0xFFFFC0000000B000, 0xFFFFC0000000C000,
     0xFFFFC0000000D000, 0xFFFFC0000000E000, 0xFFFFC0000000F000]"
  by (simp add: page_starts_def upt_conv_Cons)

lemma thread_box:
  assumes "b \<in> set (page_starts 0xFFFFC00000000000 16)"
  shows "canonical b" "KERNEL_HEAP_START \<le> b" "(b - KERNEL_HEAP_START + 0x100000) AND 0xFFF = 0"
    "in_region (b - KERNEL_HEAP_START + 0x100000) \<lparr> region_start = 0x100000, region_end = 0x200000, virt_start = v \<rparr>"
  using assms unfolding thread_boxes
  by (auto simp: canonical_def kernel_addresses in_region_def)

lemma leaf_allocate:
  assumes "hw s = (l, b # bs)" and "frame_entries s = frame_entries thread_pool"
    and "b \<in> set (page_starts 0xFFFFC00000000000 16)"
  shows "allocate_frame (documented_env True) leaf_ops 0x5000 s =
    Done (Some (b - KERNEL_HEAP_START + 0x100000), s\<lparr>hw := (l, bs)\<rparr>)"
proof -
  note B = thread_box [OF assms(3)]
  have "virt_new (documented_env True) b = Some b"
    "from_start_address (documented_env True) (b - KERNEL_HEAP_START + 0x100000) = Some (b - KERNEL_HEAP_START + 0x100000)"
    using B by (simp_all add: documented_env_def sign_extend_47_def)
  then show ?thesis
    using assms(1,2) B by (cases s) (simp add: allocate_frame_def leaf_ops_def example_page_table thread_pool_def)
qed

lemma leaf_map_range:
  assumes "frame_entries s = frame_entries thread_pool" and "hw s = (l, bs)" and "length pages \<le> length bs"
    and "distinct pages" and "\<forall>p \<in> set pages. l t p = None"
    and "set bs \<subseteq> set (page_starts 0xFFFFC00000000000 16)"
  shows "\<exists>s'. map_range_loop (documented_env True) leaf_ops 0x5000 t flags pages s = Done s'"
  using assms
proof (induction pages arbitrary: s l bs)
  case Nil
  then show ?case by simp
next
  case (Cons p pages)
  from Cons.prems(3) obtain b cs where b: "bs = b # cs" by (cases bs) auto
  let ?s1 = "s\<lparr>hw := (l, cs)\<rparr>"
  let ?l = "l(t := (l t)(p \<mapsto> (b - KERNEL_HEAP_START + 0x100000, flags)))"
  let ?s2 = "s\<lparr>hw := (?l, cs)\<rparr>"
  have "allocate_frame (documented_env True) leaf_ops 0x5000 s = Done (Some (b - KERNEL_HEAP_START + 0x100000), ?s1)"
    using Cons.prems(1,2,6) by (intro leaf_allocate) (simp_all add: b)
  moreover have "\<exists>s'. map_range_loop (documented_env True) leaf_ops 0x5000 t flags pages ?s2 = Done s'"
    by (rule Cons.IH [of _ ?l cs]) (use Cons.prems b in auto)
  ultimately show ?case
    using Cons.prems(5) by (auto simp: leaf_ops_def leaf_map_def)
qed

theorem thread_data_layout_witness:
  "\<exists>s' m'. setup_thread_data (documented_env True) leaf_ops example_sections 0x5000 0 thread_pool (\<lambda>_. 7) =
       Done (0xFFFFB00000000008, s', m') \<and>
     m' 0xFFFFB00000000003 = 7 \<and> m' 0xFFFFB00000000004 = 0 \<and> holds_u64 m' 0xFFFFB00000000008 0xFFFFB00000000010"
proof -
  let ?e = "documented_env True" and ?a = "thread_start 0"
  have a: "?a = 0xFFFFB00000000000" by (simp add: thread_start_def kernel_addresses)
  have L: "sections_ok example_sections" "tls_size example_sections = 16" "tdata_size example_sections = 4"
    by (simp_all add: sections_ok_def tls_size_def tdata_size_def example_sections_def)
  have zero: "(0 :: u64) < 0x10000000" by simp
  have "\<exists>s'. map_range_loop ?e leaf_ops 0x5000 0xFFFFA00000005000 thread_flags (page_starts ?a 16) thread_pool = Done s'"
    by (rule leaf_map_range [OF refl, where l = "\<lambda>_ _. None" and bs = "page_starts 0xFFFFC00000000000 16"])
       (simp_all add: thread_pool_def a page_starts_def upt_conv_Cons)
  then obtain s1 where "map_range_loop ?e leaf_ops 0x5000 0xFFFFA00000005000 thread_flags
      (page_starts 0xFFFFB00000000000 16) thread_pool = Done s1" unfolding a by blast
  then have pages: "allocate_map_range ?e leaf_ops 0x5000 0xFFFFB00000000000 0x10000 thread_flags thread_pool = Done s1"
    by (simp add: thread_pages(2) [OF documented_virt documented_page zero, unfolded a KERNEL_THREAD_STORAGE_SIZE_def, simplified]
        example_page_table)
  have virt: "virt_new ?e 0xFFFFB00000000000 = Some 0xFFFFB00000000000"
    "virt_add ?e 0xFFFFB00000000000 4 = Some 0xFFFFB00000000004" "virt_add ?e 0xFFFFB00000000004 12 = Some 0xFFFFB00000000010"
    "virt_sub ?e 0xFFFFB00000000010 8 = Some 0xFFFFB00000000008"
    by (simp_all add: documented_env_def sign_extend_47_def canonical_def)
  obtain s' m' where run:
    "setup_thread_data ?e leaf_ops example_sections 0x5000 0 thread_pool (\<lambda>_. 7) = Done (0xFFFFB00000000008, s', m')"
    using pages virt
    by (simp add: setup_thread_data_def Let_def mul_chk_def add_chk_def sub_chk_def example_sections_def kernel_addresses)
  note T = thread_data_layout [OF documented_virt documented_page leaf_ops_ok example_page_table zero L(1) _ run,
      unfolded a L(2,3), simplified]
  from T have "\<forall>i<8. m' (0xFFFFB00000000000 + of_nat i) = (if i < 4 then 7 else 0)" by blast
  from this [rule_format, of 3] this [rule_format, of 4] run T show ?thesis by auto
qed

end
