(* ===== verification/Heap_Init.thy ===== *)
theory Heap_Init
  imports Fixed_Block_Heap Paging "HOL-Library.Sublist"
begin

text \<open>
  The heap of the kernel is made (\<open>init_heap\<close> in \<open>allocator/mod.rs\<close>): page after page from
  \<open>KERNEL_HEAP_START\<close> on is mapped to a frame of the boot allocator, until the allocator has no frame
  left or a page cannot be mapped; the pages become the heap of the global allocator, and
  the frame allocator over the heap starts with the usable regions of the memory map.
\<close>

section \<open>The model\<close>

text \<open>
  \<open>map_to\<close> of the crate \<open>x86_64\<close> with the boot allocator, whose state is the list of the frames left;
  it takes frames for new tables.
\<close>

type_synonym 'm boot_map = "(u64 list \<Rightarrow> (u64 option \<times> u64 list) outcome) \<Rightarrow> u64 \<Rightarrow> u64 \<Rightarrow> u64 \<Rightarrow> u64 \<Rightarrow>
   u64 list \<times> 'm \<Rightarrow> (map_error option \<times> u64 list \<times> 'm) outcome"

definition heap_flags :: u64 where
  "heap_flags = pt_present OR pt_writable OR pt_no_execute OR pt_global"

text \<open>The closure \<open>allocate_one\<close> with the page it keeps; its error ends the loop.\<close>

definition allocate_one ::
    "env \<Rightarrow> 'm boot_map \<Rightarrow> u64 \<Rightarrow> u64 \<Rightarrow> u64 list \<times> 'm \<Rightarrow> ((map_error + u64) \<times> u64 list \<times> 'm) outcome" where
  "allocate_one e mp table page s =
     and_then (boot_allocate_frame e (fst s)) (\<lambda>(f, it). case f of
       None \<Rightarrow> Done (Inl FrameAllocationFailed, it, snd s)
     | Some frame \<Rightarrow>
         and_then (mp (boot_allocate_frame e) table page frame heap_flags (it, snd s)) (\<lambda>(err, s1).
           case err of
             Some x \<Rightarrow> Done (Inl x, s1)
           | None \<Rightarrow> and_then (unwrap (virt_add e page 4096)) (\<lambda>page'. Done (Inr page', s1))))"

text \<open>The loop, which stops when \<open>allocate_one\<close> fails; None stands for a loop that does not stop.\<close>

partial_function (option) heap_pages ::
    "env \<Rightarrow> 'm boot_map \<Rightarrow> u64 \<Rightarrow> u64 \<Rightarrow> u64 \<Rightarrow> u64 list \<times> 'm \<Rightarrow> (u64 \<times> u64 list \<times> 'm) outcome option" where
  "heap_pages e mp table page allocated s =
     (case allocate_one e mp table page s of
        Panic \<Rightarrow> Some Panic
      | Hang \<Rightarrow> Some Hang
      | Done (r, s1) \<Rightarrow> (case r of
          Inl err \<Rightarrow> Some (Done (allocated, s1))
        | Inr page' \<Rightarrow> (case add_chk (overflow_checks e) allocated 1 of
            Done n \<Rightarrow> heap_pages e mp table page' n s1
          | Panic \<Rightarrow> Some Panic
          | Hang \<Rightarrow> Some Hang)))"

definition init_heap ::
    "env \<Rightarrow> 'h fallback \<Rightarrow> 'm boot_map \<Rightarrow> memory_region list \<Rightarrow> u64 \<Rightarrow> u64 list \<times> 'm \<Rightarrow> 'h fixed_heap \<Rightarrow>
     ('h fixed_heap \<times> 'm frames \<times> u64 list) outcome option" where
  "init_heap e fb mp regions cr3 s heap =
     (case get_page_table e cr3 of
        Done table \<Rightarrow>
          (case unwrap (virt_new e KERNEL_HEAP_START) of
             Done start \<Rightarrow> map_option (\<lambda>res. and_then res (\<lambda>(n, it, m).
                and_then (mul_chk (overflow_checks e) n 4096) (\<lambda>size.
                and_then (heap_frames_new (overflow_checks e) regions) (\<lambda>entries.
                  Done (fixed_init fb KERNEL_HEAP_START size heap, \<lparr> hw = m, frame_entries = entries \<rparr>, it)))))
              (heap_pages e mp table (containing_address e start) 0 s)
           | Panic \<Rightarrow> Some Panic
           | Hang \<Rightarrow> Some Hang)
      | Panic \<Rightarrow> Some Panic
      | Hang \<Rightarrow> Some Hang)"

section \<open>Documented behaviour\<close>

text \<open>
  As for the mapper on the heap frames: a success maps that page, a failure nothing. The frames that
  the call takes are the next ones of the allocator.
\<close>

definition bare :: "'m \<Rightarrow> 'm frames" where
  "bare m = \<lparr> hw = m, frame_entries = [] \<rparr>"

definition boot_mapper_ok :: "'m boot_map \<Rightarrow> 'm view \<Rightarrow> env \<Rightarrow> bool" where
  "boot_mapper_ok mp view e \<longleftrightarrow>
     (\<forall>t p f fl it m r it' m'. mp (boot_allocate_frame e) t p f fl (it, m) = Done (r, it', m') \<longrightarrow>
        suffix it' it \<and> maps_leaf view t p f fl r (bare m) (bare m'))"

lemma boot_mapper_Done:
  assumes "boot_mapper_ok mp view e" and "mp (boot_allocate_frame e) t p f fl (it, m) = Done (r, s1)"
  shows "suffix (fst s1) it" and "maps_leaf view t p f fl r (bare m) (bare (snd s1))"
proof -
  obtain it' m' where s1: "s1 = (it', m')" by fastforce
  with assms have "suffix it' it \<and> maps_leaf view t p f fl r (bare m) (bare m')"
    unfolding boot_mapper_ok_def by blast
  then show "suffix (fst s1) it" "maps_leaf view t p f fl r (bare m) (bare (snd s1))" by (simp_all add: s1)
qed

section \<open>The loop ends\<close>

lemma allocate_one_shorter:
  assumes "boot_mapper_ok mp view e" and "allocate_one e mp table page s = Done (Inr page', s1)"
  shows "length (fst s1) < length (fst s)"
proof -
  from assms(2) obtain frame it where b: "boot_allocate_frame e (fst s) = Done (Some frame, it)"
    and m: "mp (boot_allocate_frame e) table page frame heap_flags (it, snd s) = Done (None, s1)"
    by (auto simp: allocate_one_def and_then_eq_Done split: option.splits)
  from b have "length (fst s) = Suc (length it)"
    by (auto simp: boot_allocate_frame_def and_then_eq_Done split: list.splits)
  moreover have "suffix (fst s1) it" by (rule boot_mapper_Done(1) [OF assms(1) m])
  ultimately show ?thesis by (simp add: suffix_length_le less_Suc_eq_le)
qed

lemma heap_pages_returns:
  assumes "boot_mapper_ok mp view e"
  shows "\<exists>res. heap_pages e mp table page n s = Some res"
proof (induction "length (fst s)" arbitrary: page n s rule: less_induct)
  case less
  show ?case
  proof (cases "allocate_one e mp table page s")
    case (Done x)
    obtain r s1 where x: "x = (r, s1)" by (cases x)
    show ?thesis
    proof (cases r)
      case (Inl err)
      then show ?thesis by (simp add: heap_pages.simps [of e mp table page n] Done x)
    next
      case (Inr page')
      from allocate_one_shorter [OF assms Done [unfolded x Inr]] less
      have "\<exists>res. heap_pages e mp table page' n' s1 = Some res" for n' by simp
      then show ?thesis
        by (cases "add_chk (overflow_checks e) n 1") (simp_all add: heap_pages.simps [of e mp table page n] Done x Inr)
    qed
  qed (simp_all add: heap_pages.simps [of e mp table page n])
qed

section \<open>What the loop maps\<close>

lemma allocate_one_cases:
  assumes "boot_mapper_ok mp view e" and "allocate_one e mp t page s = Done (r, s1)" and "phys_ok e"
  obtains (stop) err where "r = Inl err" "view t (snd s1) = view t (snd s)" "suffix (fst s1) (fst s)"
    | (page) a page' where "r = Inr page'" "virt_add e page 4096 = Some page'"
        "maps_leaf view t page (containing_address e a) heap_flags None (bare (snd s)) (bare (snd s1))"
        "\<exists>it. fst s = a # it \<and> suffix (fst s1) it"
proof -
  from assms(2) obtain f it where b: "boot_allocate_frame e (fst s) = Done (f, it)"
    and rest: "(case f of None \<Rightarrow> Done (Inl FrameAllocationFailed, it, snd s)
     | Some frame \<Rightarrow> and_then (mp (boot_allocate_frame e) t page frame heap_flags (it, snd s)) (\<lambda>(err, s1).
           case err of Some x \<Rightarrow> Done (Inl x, s1)
           | None \<Rightarrow> and_then (unwrap (virt_add e page 4096)) (\<lambda>page'. Done (Inr page', s1)))) = Done (r, s1)"
    by (auto simp: allocate_one_def and_then_eq_Done)
  show thesis
  proof (cases f)
    case None
    with rest b show thesis
      by (intro stop) (auto simp: boot_allocate_frame_def and_then_eq_Done split: list.splits)
  next
    case (Some frame)
    from b Some assms(3) obtain a where a: "fst s = a # it" "frame = containing_address e a"
      by (auto simp: boot_allocate_frame_def and_then_eq_Done unwrap_def phys_ok_def split: list.splits option.splits if_splits)
    from rest Some obtain err s2 where m: "mp (boot_allocate_frame e) t page frame heap_flags (it, snd s) = Done (err, s2)"
      and r: "(case err of Some x \<Rightarrow> Done (Inl x, s2)
           | None \<Rightarrow> and_then (unwrap (virt_add e page 4096)) (\<lambda>page'. Done (Inr page', s2))) = Done (r, s1)"
      by (auto simp: and_then_eq_Done)
    note ok = boot_mapper_Done [OF assms(1) m]
    show thesis
    proof (cases err)
      case None
      with r obtain page' where "virt_add e page 4096 = Some page'" "r = Inr page'" "s1 = s2"
        by (auto simp: and_then_eq_Done unwrap_def split: option.splits)
      with None ok a show thesis by (intro page) auto
    next
      case (Some x)
      with r ok a show thesis by (intro stop) (auto simp: maps_leaf_def bare_def suffix_ConsI)
    qed
  qed
qed

lemma heap_pages_mapped:
  assumes "boot_mapper_ok mp view e" and "virt_ok e" and "phys_ok e"
    and "heap_pages e mp t page n s = Some (Done (n', s'))"
    and "upper_half \<le> page" and "unat page + 4096 * length (fst s) < 2 ^ 64" and "unat n + length (fst s) < 2 ^ 64"
  shows "\<exists>frames. unat n' = unat n + length frames \<and> length frames \<le> length (fst s) \<and>
    subseq frames (map (containing_address e) (fst s)) \<and>
    mapped view t (bare (snd s)) (bare (snd s')) (zip (page_starts page (length frames)) frames) heap_flags"
  using assms(4-7)
proof (induction "length (fst s)" arbitrary: page n s rule: less_induct)
  case less
  from less.prems(1) obtain r s1 where one: "allocate_one e mp t page s = Done (r, s1)"
    by (cases "allocate_one e mp t page s") (auto simp: heap_pages.simps [of e mp t page n])
  from assms(1) one assms(3) show ?case
  proof (cases rule: allocate_one_cases)
    case (stop err)
    then have "n' = n" "s' = s1"
      using less.prems(1) one by (simp_all add: heap_pages.simps [of e mp t page n])
    with stop show ?thesis by (intro exI [of _ "[]"]) (simp add: mapped_Nil bare_def page_starts_def)
  next
    case (page a page')
    from page(4) obtain it where it: "fst s = a # it" "suffix (fst s1) it" by blast
    then have len: "length (fst s1) < length (fst s)" by (simp add: suffix_length_le less_Suc_eq_le)
    have u: "unat (page + 4096) = unat page + 4096" "unat (n + 1) = unat n + 1"
      using less.prems(3,4) it(1) by (simp_all add: unat_add_no_overflow)
    then have "upper_half \<le> page + 4096" using less.prems(2) by (simp add: word_le_nat_alt)
    then have page': "page' = page + 4096"
      using page(2) upper_canonical [of "page + 4096"] by (simp add: virt_simps(2) [OF assms(2)] split: if_splits)
    have "add_chk (overflow_checks e) n 1 = Done (n + 1)"
      using less.prems(4) it(1) by (simp add: add_chk_Done)
    then have rest: "heap_pages e mp t (page + 4096) (n + 1) s1 = Some (Done (n', s'))"
      using less.prems(1) one page(1) by (simp add: heap_pages.simps [of e mp t page n] page')
    have "unat (page + 4096) + 4096 * length (fst s1) < 2 ^ 64" "unat (n + 1) + length (fst s1) < 2 ^ 64"
      using u less.prems(3,4) len by simp_all
    from less.hyps [OF len rest \<open>upper_half \<le> page + 4096\<close> this] obtain frames where
      fr: "unat n' = unat (n + 1) + length frames" "length frames \<le> length (fst s1)"
      "subseq frames (map (containing_address e) (fst s1))"
      "mapped view t (bare (snd s1)) (bare (snd s')) (zip (page_starts (page + 4096) (length frames)) frames) heap_flags"
      by blast
    have ps: "page_starts page (Suc k) = page # page_starts (page + 4096) k" for k
      by (simp add: page_starts_def upt_conv_Cons map_Suc_upt [symmetric] algebra_simps del: upt_Suc)
    have "subseq frames (map (containing_address e) it)"
      using fr(3) it(2) by (meson map_mono_suffix subseq_order.trans suffix_imp_subseq)
    then have "subseq (containing_address e a # frames) (map (containing_address e) (fst s))"
      by (simp add: it(1))
    with mapped_Cons [OF page(3) fr(4)] fr(1,2) u(2) len ps show ?thesis
      by (intro exI [of _ "containing_address e a # frames"]) simp
  qed
qed

section \<open>Properties\<close>

lemma init_heap_unfold:
  assumes "virt_ok e" and "page_ok e" and "get_page_table e cr3 = Done t"
  shows "init_heap e fb mp regions cr3 s heap = map_option (\<lambda>res. and_then res (\<lambda>(n, it, m).
      and_then (mul_chk (overflow_checks e) n 4096) (\<lambda>size.
      and_then (heap_frames_new (overflow_checks e) regions) (\<lambda>entries.
        Done (fixed_init fb KERNEL_HEAP_START size heap, \<lparr> hw = m, frame_entries = entries \<rparr>, it)))))
    (heap_pages e mp t KERNEL_HEAP_START 0 s)"
proof -
  have "virt_new e KERNEL_HEAP_START = Some KERNEL_HEAP_START"
    using upper_canonical [of KERNEL_HEAP_START] by (simp add: virt_simps(1) [OF assms(1)] upper_half_def kernel_addresses)
  moreover have "containing_address e KERNEL_HEAP_START = KERNEL_HEAP_START"
    using assms(2) by (simp add: page_ok_def kernel_addresses)
  ultimately show ?thesis using assms(3) by (simp add: init_heap_def)
qed


text \<open>Two frames of memory, on the machine of leaves.\<close>

definition leaf_boot :: "(u64 \<Rightarrow> u64 \<Rightarrow> (u64 \<times> u64) option) boot_map" where
  "leaf_boot alloc t p f fl = (\<lambda>(it, l).
     if l t p = None then Done (None, it, l(t := (l t)(p \<mapsto> (f, fl)))) else Done (Some PageAlreadyMapped, it, l))"

definition null_fallback :: "(usize \<times> usize) fallback" where
  "null_fallback = \<lparr> fb_init = (\<lambda>a n. (a, n)), fb_alloc = (\<lambda>l h. (None, h)), fb_dealloc = (\<lambda>p l h. h),
     fb_size = snd, fb_used = (\<lambda>h. 0), fb_free = snd \<rparr>"

lemma leaf_boot_ok: "boot_mapper_ok leaf_boot (\<lambda>t l. l t) e"
  by (auto simp: boot_mapper_ok_def leaf_boot_def maps_leaf_def bare_def split: if_splits)


end
