(* ===== verification/Framebuffer.thy ===== *)
theory Framebuffer
  imports Kernel_Prelude
begin

text \<open>
  The text console on the frame buffer (\<open>vga_framebuffer.rs\<close>). The buffer of the crate
  \<open>bootloader_api\<close> is a list of bytes with its \<open>info\<close>; indexing it outside panics. The font of the crate
  \<open>font8x8\<close> is a parameter: the glyphs, each a list of eight rows of eight bits.
\<close>

section \<open>Machine arithmetic on sizes\<close>

definition usz :: "bool \<Rightarrow> nat \<Rightarrow> nat outcome" where
  "usz oc n = (if n < 2 ^ 64 then Done n else if oc then Panic else Done (n mod 2 ^ 64))"

definition usz_minus :: "bool \<Rightarrow> nat \<Rightarrow> nat \<Rightarrow> nat outcome" where
  "usz_minus oc a b = (if b \<le> a then Done (a - b) else if oc then Panic else Done (a + 2 ^ 64 - b))"

lemma usz_small [simp]: "n < 2 ^ 64 \<Longrightarrow> usz oc n = Done n" "b \<le> a \<Longrightarrow> usz_minus oc a b = Done (a - b)"
  by (simp_all add: usz_def usz_minus_def)

section \<open>The model\<close>

datatype pixel_format = Rgb | Bgr | U8 | Unknown_Format

record frame_info =
  width :: nat
  height :: nat
  stride :: nat
  bytes_per_pixel :: nat
  pixel_format :: pixel_format

record vga_writer =
  curr_x :: nat
  curr_y :: nat
  max_x :: nat
  max_y :: nat
  pixels :: "u8 list"
  info :: frame_info
  background :: "u8 list"
  foreground :: "u8 list"

definition vga_new :: "frame_info \<Rightarrow> u8 list \<Rightarrow> vga_writer" where
  "vga_new fi buf = \<lparr> curr_x = 0, curr_y = 0, max_x = width fi div 8, max_y = height fi div 8, pixels = buf,
     info = fi, background = [0, 0, 0], foreground = [255, 255, 255] \<rparr>"

definition color_bytes :: "pixel_format \<Rightarrow> nat outcome" where
  "color_bytes f = (case f of Rgb \<Rightarrow> Done 3 | Bgr \<Rightarrow> Done 3 | U8 \<Rightarrow> Done 1 | Unknown_Format \<Rightarrow> Panic)"

text \<open>The loop over the bytes of one pixel, from byte \<open>z\<close> on.\<close>

fun put_pixel :: "bool \<Rightarrow> nat \<Rightarrow> u8 list \<Rightarrow> nat \<Rightarrow> u8 list \<Rightarrow> u8 list outcome" where
  "put_pixel oc i [] z buf = Done buf"
| "put_pixel oc i (c # cs) z buf =
     and_then (usz oc (i + z)) (\<lambda>j.
       if j < length buf then put_pixel oc i cs (Suc z) (buf[j := c]) else Panic)"

text \<open>The loop over the pixels of a row, given by their colours; \<open>i\<close> ends behind the row.\<close>

fun put_row :: "bool \<Rightarrow> nat \<Rightarrow> u8 list list \<Rightarrow> nat \<Rightarrow> u8 list \<Rightarrow> (nat \<times> u8 list) outcome" where
  "put_row oc bpp [] i buf = Done (i, buf)"
| "put_row oc bpp (c # cs) i buf =
     and_then (put_pixel oc i c 0 buf) (\<lambda>buf1.
     and_then (usz oc (i + bpp)) (\<lambda>j. put_row oc bpp cs j buf1))"

text \<open>The loop over the rows, with the rest of the line to skip after each.\<close>

fun put_rows :: "bool \<Rightarrow> nat \<Rightarrow> nat outcome \<Rightarrow> u8 list list list \<Rightarrow> nat \<Rightarrow> u8 list \<Rightarrow> u8 list outcome" where
  "put_rows oc bpp skip [] i buf = Done buf"
| "put_rows oc bpp skip (r # rs) i buf =
     and_then (put_row oc bpp r i buf) (\<lambda>(j, buf1).
     and_then skip (\<lambda>d.
     and_then (usz oc (j + d)) (\<lambda>k. put_rows oc bpp skip rs k buf1)))"

definition line_rest :: "bool \<Rightarrow> frame_info \<Rightarrow> nat \<Rightarrow> nat outcome" where
  "line_rest oc fi n = and_then (usz_minus oc (stride fi) n) (\<lambda>d. usz oc (d * bytes_per_pixel fi))"

definition fill_rect :: "bool \<Rightarrow> nat \<Rightarrow> nat \<Rightarrow> nat \<Rightarrow> nat \<Rightarrow> u8 list \<Rightarrow> vga_writer \<Rightarrow> vga_writer outcome" where
  "fill_rect oc x y w h color v =
     (let fi = info v; bpp = bytes_per_pixel fi in
      and_then (usz oc (y * stride fi)) (\<lambda>a.
      and_then (usz oc (a + x)) (\<lambda>b.
      and_then (usz oc (b * 8)) (\<lambda>c.
      and_then (usz oc (c * bpp)) (\<lambda>index.
      and_then (color_bytes (pixel_format fi)) (\<lambda>n.
      and_then (usz oc (h * 8)) (\<lambda>rows.
      and_then (usz oc (w * 8)) (\<lambda>cols.
      and_then (put_rows oc bpp (line_rest oc fi cols) (replicate rows (replicate cols (take n color))) index (pixels v))
        (\<lambda>buf. Done (v\<lparr>pixels := buf\<rparr>))))))))))"

text \<open>The colours of a row of a glyph, the lowest bit first.\<close>

definition glyph_row :: "u8 list \<Rightarrow> u8 list \<Rightarrow> u8 \<Rightarrow> u8 list list" where
  "glyph_row fg bg row = map (\<lambda>x. if drop_bit x row AND 1 \<noteq> 0 then fg else bg) [0..<8]"

definition splat_char :: "bool \<Rightarrow> u8 list list \<Rightarrow> u8 \<Rightarrow> nat \<Rightarrow> nat \<Rightarrow> vga_writer \<Rightarrow> vga_writer outcome" where
  "splat_char oc font c x y v =
     (let fi = info v; bpp = bytes_per_pixel fi in
      and_then (usz oc (y * stride fi)) (\<lambda>a.
      and_then (usz oc (a + x)) (\<lambda>b.
      and_then (usz oc (b * bpp)) (\<lambda>begin_pixel.
      if length font \<le> unat c then Panic
      else and_then (color_bytes (pixel_format fi)) (\<lambda>n.
        and_then (put_rows oc bpp (line_rest oc fi 8)
            (map (glyph_row (take n (foreground v)) (take n (background v))) (font ! unat c)) begin_pixel (pixels v))
          (\<lambda>buf. Done (v\<lparr>pixels := buf\<rparr>)))))))"

definition clean_row :: "bool \<Rightarrow> vga_writer \<Rightarrow> vga_writer outcome" where
  "clean_row oc v = fill_rect oc 0 (curr_y v) (max_x v) 1 (background v) v"

definition new_line :: "bool \<Rightarrow> vga_writer \<Rightarrow> vga_writer outcome" where
  "new_line oc v =
     and_then (usz oc (curr_y v + 1)) (\<lambda>y.
       clean_row oc (v\<lparr>curr_y := if max_y v \<le> y then 0 else y, curr_x := 0\<rparr>))"

definition advance_char :: "bool \<Rightarrow> vga_writer \<Rightarrow> vga_writer outcome" where
  "advance_char oc v =
     and_then (usz oc (curr_x v + 1)) (\<lambda>x.
       let v1 = v\<lparr>curr_x := x\<rparr> in if max_x v \<le> x then new_line oc v1 else Done v1)"

definition write_byte :: "bool \<Rightarrow> u8 list list \<Rightarrow> u8 \<Rightarrow> vga_writer \<Rightarrow> vga_writer outcome" where
  "write_byte oc font b v =
     (if b = 10 then new_line oc v
      else and_then (usz oc (curr_x v * 8)) (\<lambda>x.
           and_then (usz oc (curr_y v * 8)) (\<lambda>y.
           and_then (splat_char oc font b x y v) (advance_char oc))))"

fun write_string :: "bool \<Rightarrow> u8 list list \<Rightarrow> u8 list \<Rightarrow> vga_writer \<Rightarrow> vga_writer outcome" where
  "write_string oc font [] v = Done v"
| "write_string oc font (b # bs) v =
     and_then (write_byte oc font (if 0x20 \<le> b \<and> b \<le> 0x7E \<or> b = 10 then b else 0x3F) v) (write_string oc font bs)"

definition clean_screen :: "bool \<Rightarrow> vga_writer \<Rightarrow> vga_writer outcome" where
  "clean_screen oc v =
     and_then (fill_rect oc 0 0 (max_x v) (max_y v) (background v) v) (\<lambda>v1. Done (v1\<lparr>curr_x := 0, curr_y := 0\<rparr>))"

definition banner :: "u8 list" where
  "banner = [0x56, 0x47, 0x41, 0x20, 0x74, 0x65, 0x78, 0x74, 0x20, 0x69, 0x6E, 0x69, 0x74, 0x69, 0x61, 0x6C,
     0x69, 0x7A, 0x61, 0x74, 0x65, 0x64, 10]"

definition init_vga_framebuffer :: "bool \<Rightarrow> u8 list list \<Rightarrow> frame_info \<Rightarrow> u8 list \<Rightarrow> vga_writer outcome" where
  "init_vga_framebuffer oc font fi buf =
     and_then (clean_screen oc (vga_new fi buf)) (write_string oc font banner)"

section \<open>Rows inside the buffer\<close>

lemma put_pixel_Done:
  assumes "i + z + length cs \<le> length buf" and "length buf < 2 ^ 63"
  shows "\<exists>buf'. put_pixel oc i cs z buf = Done buf' \<and> length buf' = length buf \<and>
    (\<forall>j. j < i + z \<or> i + z + length cs \<le> j \<longrightarrow> buf' ! j = buf ! j)"
  using assms
proof (induction cs arbitrary: z buf)
  case Nil
  then show ?case by simp
next
  case (Cons c cs)
  have "\<exists>buf'. put_pixel oc i cs (Suc z) (buf[i + z := c]) = Done buf' \<and> length buf' = length (buf[i + z := c]) \<and>
    (\<forall>j. j < i + Suc z \<or> i + Suc z + length cs \<le> j \<longrightarrow> buf' ! j = buf[i + z := c] ! j)"
    using Cons.prems by (intro Cons.IH) simp_all
  then obtain buf' where "put_pixel oc i cs (Suc z) (buf[i + z := c]) = Done buf'" "length buf' = length buf"
    "\<forall>j. j < i + Suc z \<or> i + Suc z + length cs \<le> j \<longrightarrow> buf' ! j = buf[i + z := c] ! j" by auto
  moreover have "buf' ! j = buf ! j" if "j < i + z \<or> i + z + length (c # cs) \<le> j" for j
  proof -
    from that have "buf' ! j = buf[i + z := c] ! j" using calculation(3) by auto
    also have "\<dots> = buf ! j" using that by auto
    finally show ?thesis .
  qed
  ultimately show ?case using Cons.prems by simp
qed

lemma put_row_Done:
  assumes "i + length cs * bpp \<le> length buf" and "length buf < 2 ^ 63" and "\<forall>c \<in> set cs. length c \<le> bpp"
  shows "\<exists>buf'. put_row oc bpp cs i buf = Done (i + length cs * bpp, buf') \<and> length buf' = length buf \<and>
    (\<forall>j. j < i \<or> i + length cs * bpp \<le> j \<longrightarrow> buf' ! j = buf ! j)"
  using assms
proof (induction cs arbitrary: i buf)
  case Nil
  then show ?case by simp
next
  case (Cons c cs)
  have "i + 0 + length c \<le> length buf" using Cons.prems(1,3) by simp
  from put_pixel_Done [OF this Cons.prems(2), of oc] obtain buf1 where
    b1: "put_pixel oc i c 0 buf = Done buf1" "length buf1 = length buf"
    "\<forall>j. j < i \<or> i + length c \<le> j \<longrightarrow> buf1 ! j = buf ! j" by auto
  have "\<exists>buf'. put_row oc bpp cs (i + bpp) buf1 = Done (i + bpp + length cs * bpp, buf') \<and> length buf' = length buf1 \<and>
    (\<forall>j. j < i + bpp \<or> i + bpp + length cs * bpp \<le> j \<longrightarrow> buf' ! j = buf1 ! j)"
    using Cons.prems b1(2) by (intro Cons.IH) simp_all
  then obtain buf' where b2: "put_row oc bpp cs (i + bpp) buf1 = Done (i + bpp + length cs * bpp, buf')"
    "length buf' = length buf1" "\<forall>j. j < i + bpp \<or> i + bpp + length cs * bpp \<le> j \<longrightarrow> buf' ! j = buf1 ! j" by blast
  have "length c \<le> bpp" using Cons.prems(3) by simp
  then have "buf' ! j = buf ! j" if "j < i \<or> i + length (c # cs) * bpp \<le> j" for j
    using that b1(3) b2(3) by auto
  then show ?case using b1 b2 Cons.prems(1,2) by simp
qed

definition row_bytes :: "nat \<Rightarrow> nat \<Rightarrow> nat \<Rightarrow> nat \<Rightarrow> nat set" where
  "row_bytes i line n rows = (\<Union>r \<in> {..<rows}. {i + r * line..<i + r * line + n})"

lemma row_bytes_Suc:
  "row_bytes i line n (Suc rows) = {i..<i + n} \<union> row_bytes (i + line) line n rows"
proof -
  have "{..<Suc rows} = insert 0 (Suc ` {..<rows})" by (auto simp: lessThan_Suc_eq_insert_0)
  then show ?thesis by (simp add: row_bytes_def algebra_simps)
qed

lemma put_rows_Done:
  assumes "\<forall>r \<in> set rs. length r = n \<and> (\<forall>c \<in> set r. length c \<le> bpp)" and "n \<le> line"
    and "i + length rs * (line * bpp) \<le> length buf + (line - n) * bpp" and "length buf + line * bpp < 2 ^ 63"
  shows "\<exists>buf'. put_rows oc bpp (Done ((line - n) * bpp)) rs i buf = Done buf' \<and> length buf' = length buf \<and>
    (\<forall>j. j \<notin> row_bytes i (line * bpp) (n * bpp) (length rs) \<longrightarrow> buf' ! j = buf ! j)"
  using assms
proof (induction rs arbitrary: i buf)
  case Nil
  then show ?case by simp
next
  case (Cons r rs)
  let ?L = "line * bpp"
  have n: "length r = n" "\<forall>c \<in> set r. length c \<le> bpp" using Cons.prems(1) by simp_all
  have L: "n * bpp + (line - n) * bpp = ?L"
    using Cons.prems(2) by (metis add_mult_distrib le_add_diff_inverse)
  have "i + n * bpp + (line - n) * bpp + length rs * ?L \<le> length buf + (line - n) * bpp"
    using Cons.prems(3) L by simp
  then have fits: "i + n * bpp \<le> length buf" by simp
  with n Cons.prems(4) have "i + length r * bpp \<le> length buf" "length buf < 2 ^ 63" by simp_all
  from put_row_Done [OF this n(2), of oc] n(1) obtain buf1 where
    b1: "put_row oc bpp r i buf = Done (i + n * bpp, buf1)" "length buf1 = length buf"
    "\<forall>j. j < i \<or> i + n * bpp \<le> j \<longrightarrow> buf1 ! j = buf ! j" by auto
  have next_i: "i + n * bpp + (line - n) * bpp = i + ?L" using L by simp
  then have small: "usz oc (i + n * bpp + (line - n) * bpp) = Done (i + ?L)"
    using fits Cons.prems(4) L by (subst next_i) (simp add: usz_def)
  have "\<exists>buf'. put_rows oc bpp (Done ((line - n) * bpp)) rs (i + ?L) buf1 = Done buf' \<and> length buf' = length buf1 \<and>
    (\<forall>j. j \<notin> row_bytes (i + ?L) ?L (n * bpp) (length rs) \<longrightarrow> buf' ! j = buf1 ! j)"
    using Cons.prems b1(2) by (intro Cons.IH) simp_all
  then obtain buf' where b2: "put_rows oc bpp (Done ((line - n) * bpp)) rs (i + ?L) buf1 = Done buf'"
    "length buf' = length buf1" "\<forall>j. j \<notin> row_bytes (i + ?L) ?L (n * bpp) (length rs) \<longrightarrow> buf' ! j = buf1 ! j" by blast
  have "buf' ! j = buf ! j" if "j \<notin> row_bytes i ?L (n * bpp) (Suc (length rs))" for j
    using that b1(3) b2(3) by (cases "j < i") (auto simp: row_bytes_Suc not_less)
  with b1 b2 small show ?case by simp
qed

section \<open>The invariant of the writer\<close>

text \<open>
  What the boot loader gives: lines of at least the width, and room for all of them. The cells of the
  screen are 8 by 8 pixels, and there is at least one.
\<close>

definition frame_ok :: "frame_info \<Rightarrow> u8 list \<Rightarrow> bool" where
  "frame_ok fi buf \<longleftrightarrow> pixel_format fi \<noteq> Unknown_Format \<and> width fi \<le> stride fi \<and> 8 \<le> width fi \<and> 8 \<le> height fi \<and>
     (if pixel_format fi = U8 then 1 else 3) \<le> bytes_per_pixel fi \<and>
     height fi * stride fi * bytes_per_pixel fi \<le> length buf \<and> length buf < 2 ^ 62"

definition vga_ok :: "vga_writer \<Rightarrow> bool" where
  "vga_ok v \<longleftrightarrow> frame_ok (info v) (pixels v) \<and> max_x v = width (info v) div 8 \<and> max_y v = height (info v) div 8 \<and>
     curr_x v < max_x v \<and> curr_y v < max_y v \<and> length (background v) = 3 \<and> length (foreground v) = 3"

text \<open>The first byte of a cell, and the bytes of a rectangle of cells.\<close>

definition cell_start :: "frame_info \<Rightarrow> nat \<Rightarrow> nat \<Rightarrow> nat" where
  "cell_start fi x y = (y * stride fi + x) * 8 * bytes_per_pixel fi"

definition cell_bytes :: "frame_info \<Rightarrow> nat \<Rightarrow> nat \<Rightarrow> nat \<Rightarrow> nat \<Rightarrow> nat set" where
  "cell_bytes fi x y w h =
     row_bytes (cell_start fi x y) (stride fi * bytes_per_pixel fi) (w * 8 * bytes_per_pixel fi) (h * 8)"

lemma frame_bounds:
  assumes "frame_ok fi buf" and "x + w \<le> width fi div 8" and "y + h \<le> height fi div 8" and "1 \<le> h"
  shows "w * 8 \<le> stride fi" "y * stride fi < 2 ^ 62" "y * stride fi + x < 2 ^ 62" "(y * stride fi + x) * 8 < 2 ^ 62"
    "h * 8 < 2 ^ 62" "cell_start fi x y < 2 ^ 62" "stride fi < 2 ^ 62"
    "length buf + stride fi * bytes_per_pixel fi < 2 ^ 63" "stride fi * bytes_per_pixel fi < 2 ^ 62"
    "cell_start fi x y + h * 8 * (stride fi * bytes_per_pixel fi) \<le> length buf + (stride fi - w * 8) * bytes_per_pixel fi"
proof -
  let ?s = "stride fi" and ?b = "bytes_per_pixel fi" and ?H = "height fi"
  have ok: "width fi \<le> ?s" "8 \<le> width fi" "8 \<le> ?H" "1 \<le> ?b" "?H * ?s * ?b \<le> length buf" "length buf < 2 ^ 62"
    using assms(1) by (auto simp: frame_ok_def split: if_splits)
  have "8 * (x + w) \<le> 8 * (width fi div 8)" using assms(2) by (rule mult_le_mono2)
  also have "\<dots> \<le> width fi" by simp
  finally have w: "8 * (x + w) \<le> ?s" using ok(1) by (rule le_trans)
  have "8 * (y + h) \<le> 8 * (?H div 8)" using assms(3) by (rule mult_le_mono2)
  also have "\<dots> \<le> ?H" by simp
  finally have h: "8 * (y + h) \<le> ?H" .
  show "w * 8 \<le> ?s" using w by simp
  have line: "(y * 8 + h * 8) * (?s * ?b) \<le> length buf"
  proof -
    have "(y * 8 + h * 8) * (?s * ?b) \<le> ?H * (?s * ?b)" using h by (intro mult_le_mono1) simp
    also have "\<dots> \<le> length buf" using ok(5) by (simp add: mult.assoc)
    finally show ?thesis .
  qed
  have one: "?s * ?b \<le> (y * 8 + h * 8) * (?s * ?b)" using assms(4) by simp
  from one line have "?s * ?b \<le> length buf" by (rule le_trans)
  then show sb: "?s * ?b < 2 ^ 62" "length buf + ?s * ?b < 2 ^ 63" using ok(6) by simp_all
  show "?s < 2 ^ 62" using sb(1) ok(4) by (metis le_less_trans mult.right_neutral mult_le_mono2)
  have start: "cell_start fi x y = y * 8 * (?s * ?b) + x * 8 * ?b" by (simp add: cell_start_def algebra_simps)
  have rest: "x * 8 * ?b \<le> (?s - w * 8) * ?b" using w by (intro mult_le_mono1) arith
  show fits: "cell_start fi x y + h * 8 * (?s * ?b) \<le> length buf + (?s - w * 8) * ?b"
    using line rest unfolding start add_mult_distrib by linarith
  have "x * 8 * ?b \<le> ?s * ?b" using w by (intro mult_le_mono1) arith
  also have "\<dots> \<le> h * 8 * (?s * ?b)" using assms(4) by (cases h) simp_all
  finally have cs: "cell_start fi x y \<le> length buf" using line unfolding start add_mult_distrib by linarith
  then show "cell_start fi x y < 2 ^ 62" using ok(6) by simp
  have "(y * ?s + x) * 8 \<le> cell_start fi x y" using ok(4) by (simp add: cell_start_def)
  then show "(y * ?s + x) * 8 < 2 ^ 62" "y * ?s < 2 ^ 62" "y * ?s + x < 2 ^ 62" using cs ok(6) by simp_all
  have "0 < ?s * ?b" using ok(1,2,4) by simp
  then have "(y * 8 + h * 8) * 1 \<le> (y * 8 + h * 8) * (?s * ?b)" by (intro mult_le_mono2) simp
  from this line have "y * 8 + h * 8 \<le> length buf" unfolding mult_1_right by (rule le_trans)
  then show "h * 8 < 2 ^ 62" using ok(6) by simp
qed

section \<open>Cells\<close>

lemma usz_62: "n < 2 ^ 62 \<Longrightarrow> usz oc n = Done n"
  by (simp add: usz_def)

lemma color_bytes_ok:
  assumes "frame_ok fi buf"
  obtains n where "color_bytes (pixel_format fi) = Done n" "n \<le> bytes_per_pixel fi" "n \<le> 3" "1 \<le> n"
  using assms by (cases "pixel_format fi") (auto simp: frame_ok_def color_bytes_def split: if_splits)

lemma line_rest_ok:
  assumes "frame_ok fi buf" and "8 \<le> n" and "n \<le> stride fi" and "stride fi * bytes_per_pixel fi < 2 ^ 62"
  shows "line_rest oc fi n = Done ((stride fi - n) * bytes_per_pixel fi)"
proof -
  have "(stride fi - n) * bytes_per_pixel fi \<le> stride fi * bytes_per_pixel fi" by (intro mult_le_mono1) simp
  from this assms(4) have "(stride fi - n) * bytes_per_pixel fi < 2 ^ 62" by (rule le_less_trans)
  from usz_62 [OF this] assms(3) show ?thesis by (simp add: line_rest_def)
qed

text \<open>Filling a rectangle of cells of the screen writes these cells and nothing else.\<close>

lemma fill_rect_Done:
  assumes "frame_ok (info v) (pixels v)" and "x + w \<le> width (info v) div 8" and "y + h \<le> height (info v) div 8"
    and "1 \<le> h" and "1 \<le> w" and "length color = 3"
  shows "\<exists>buf. fill_rect oc x y w h color v = Done (v\<lparr>pixels := buf\<rparr>) \<and> length buf = length (pixels v) \<and>
    (\<forall>j. j \<notin> cell_bytes (info v) x y w h \<longrightarrow> buf ! j = pixels v ! j)"
proof -
  let ?fi = "info v" and ?buf = "pixels v"
  note B = frame_bounds [OF assms(1-4)]
  from assms(1) obtain n where n: "color_bytes (pixel_format ?fi) = Done n" "n \<le> bytes_per_pixel ?fi"
    by (rule color_bytes_ok)
  have rows: "\<forall>r \<in> set (replicate (h * 8) (replicate (w * 8) (take n color))).
      length r = w * 8 \<and> (\<forall>c \<in> set r. length c \<le> bytes_per_pixel ?fi)"
    using n(2) by auto
  have w8: "8 \<le> w * 8" "w * 8 < 2 ^ 64" using assms(5) B(1,7) by simp_all
  have idx: "(y * stride ?fi + x) * 8 * bytes_per_pixel ?fi = cell_start ?fi x y" by (simp add: cell_start_def)
  from put_rows_Done [OF rows B(1), of "cell_start ?fi x y" ?buf oc] B(8,10) obtain buf where
    "put_rows oc (bytes_per_pixel ?fi) (Done ((stride ?fi - w * 8) * bytes_per_pixel ?fi))
       (replicate (h * 8) (replicate (w * 8) (take n color))) (cell_start ?fi x y) ?buf = Done buf"
    "length buf = length ?buf" "\<forall>j. j \<notin> cell_bytes ?fi x y w h \<longrightarrow> buf ! j = ?buf ! j"
    by (auto simp: cell_bytes_def mult.assoc)
  moreover have "w * 8 < 2 ^ 62" using B(1,7) by (rule le_less_trans)
  note U = usz_62 [OF B(2), of oc] usz_62 [OF B(3), of oc] usz_62 [OF B(4), of oc] usz_62 [OF B(6), of oc]
    usz_62 [OF B(5), of oc] usz_62 [OF this, of oc] line_rest_ok [OF assms(1) w8(1) B(1,9), of oc]
  ultimately show ?thesis
    by (auto simp only: fill_rect_def Let_def idx and_then.simps n(1) U)
qed

lemma splat_char_Done:
  assumes "frame_ok (info v) (pixels v)" and "x < width (info v) div 8" and "y < height (info v) div 8"
    and "length (background v) = 3" and "length (foreground v) = 3"
    and "length font = 128" and "\<forall>g \<in> set font. length g = 8" and "c < 128"
  shows "\<exists>buf. splat_char oc font c (x * 8) (y * 8) v = Done (v\<lparr>pixels := buf\<rparr>) \<and> length buf = length (pixels v) \<and>
    (\<forall>j. j \<notin> cell_bytes (info v) x y 1 1 \<longrightarrow> buf ! j = pixels v ! j)"
proof -
  let ?fi = "info v" and ?buf = "pixels v"
  have b: "x + 1 \<le> width ?fi div 8" "y + 1 \<le> height ?fi div 8" "(1 :: nat) \<le> 1" using assms(2,3) by simp_all
  note B = frame_bounds [OF assms(1) b, unfolded mult_1]
  from assms(1) obtain n where n: "color_bytes (pixel_format ?fi) = Done n" "n \<le> bytes_per_pixel ?fi"
    by (rule color_bytes_ok)
  have c: "unat c < 128" using assms(8) by (simp add: word_less_nat_alt)
  let ?rows = "map (glyph_row (take n (foreground v)) (take n (background v))) (font ! unat c)"
  have len: "length (font ! unat c) = 8" using assms(6,7) c by simp
  have rows: "\<forall>r \<in> set ?rows. length r = 8 \<and> (\<forall>c \<in> set r. length c \<le> bytes_per_pixel ?fi)"
    using n(2) by (auto simp: glyph_row_def)
  have idx: "(y * 8 * stride ?fi + x * 8) * bytes_per_pixel ?fi = cell_start ?fi x y"
    by (simp add: cell_start_def algebra_simps)
  from put_rows_Done [OF rows B(1), of "cell_start ?fi x y" ?buf oc] B(8,10) len obtain buf where
    "put_rows oc (bytes_per_pixel ?fi) (Done ((stride ?fi - 8) * bytes_per_pixel ?fi)) ?rows (cell_start ?fi x y) ?buf = Done buf"
    "length buf = length ?buf" "\<forall>j. j \<notin> cell_bytes ?fi x y 1 1 \<longrightarrow> buf ! j = ?buf ! j"
    by (auto simp: cell_bytes_def)
  moreover have sum: "y * 8 * stride ?fi + x * 8 < 2 ^ 62" using B(4) by (simp add: algebra_simps)
  then have "y * 8 * stride ?fi < 2 ^ 62" by simp
  note U = usz_62 [OF this, of oc] usz_62 [OF sum, of oc] usz_62 [OF B(6), of oc]
    line_rest_ok [OF assms(1) order_refl B(1,9), of oc]
  have "\<not> length font \<le> unat c" using c assms(6) by simp
  ultimately show ?thesis
    by (auto simp only: splat_char_def Let_def idx and_then.simps n(1) U if_False)
qed

section \<open>The writer\<close>

lemma frame_ok_length: "frame_ok fi buf \<Longrightarrow> length buf' = length buf \<Longrightarrow> frame_ok fi buf'"
  by (simp add: frame_ok_def)

lemma vga_small:
  assumes "vga_ok v"
  shows "curr_x v < 2 ^ 62" "curr_y v < 2 ^ 62" "max_x v < 2 ^ 62" "max_y v < 2 ^ 62"
    "curr_x v * 8 < 2 ^ 62" "curr_y v * 8 < 2 ^ 62" "1 \<le> max_x v"
proof -
  let ?fi = "info v"
  have ok: "frame_ok ?fi (pixels v)" "curr_x v < width ?fi div 8" "curr_y v < height ?fi div 8"
    "max_x v = width ?fi div 8" "max_y v = height ?fi div 8"
    using assms by (simp_all add: vga_ok_def)
  have "curr_x v + (max_x v - curr_x v) \<le> width ?fi div 8" "0 + max_y v \<le> height ?fi div 8" "1 \<le> max_y v"
    using ok by simp_all
  note B = frame_bounds [OF ok(1) this]
  have "max_x v * 8 \<le> width ?fi" "max_y v * 8 < 2 ^ 62" using ok(4) B(5) by simp_all
  moreover have "width ?fi \<le> stride ?fi" using ok(1) by (simp add: frame_ok_def)
  ultimately have m: "max_x v * 8 < 2 ^ 62" "max_y v * 8 < 2 ^ 62" using B(7) by linarith+
  have c: "curr_x v < max_x v" "curr_y v < max_y v" using ok by simp_all
  show "curr_x v < 2 ^ 62" "curr_y v < 2 ^ 62" "max_x v < 2 ^ 62" "max_y v < 2 ^ 62"
    "curr_x v * 8 < 2 ^ 62" "curr_y v * 8 < 2 ^ 62" "1 \<le> max_x v"
    using m c by linarith+
qed

text \<open>What one operation of the writer leaves: a writer in order, over the same frame buffer.\<close>

definition vga_next :: "vga_writer \<Rightarrow> vga_writer \<Rightarrow> bool" where
  "vga_next v v' \<longleftrightarrow> vga_ok v' \<and> info v' = info v \<and> length (pixels v') = length (pixels v)"

lemma vga_next_trans: "vga_next a b \<Longrightarrow> vga_next b c \<Longrightarrow> vga_next a c"
  by (simp add: vga_next_def)

lemma new_line_ok:
  assumes "vga_ok v"
  shows "\<exists>v'. new_line oc (v\<lparr>curr_x := x\<rparr>) = Done v' \<and> vga_next v v'"
proof -
  note S = vga_small [OF assms]
  define y where "y = (if max_y v \<le> curr_y v + 1 then 0 else curr_y v + 1)"
  let ?v = "v\<lparr>curr_y := y, curr_x := 0\<rparr>"
  have ok: "frame_ok (info v) (pixels v)" "max_x v = width (info v) div 8" "max_y v = height (info v) div 8"
    "curr_y v < max_y v" "length (background v) = 3" "length (foreground v) = 3"
    using assms by (simp_all add: vga_ok_def)
  have y: "y < max_y v" using ok(4) by (simp add: y_def)
  then obtain buf where "fill_rect oc 0 y (max_x v) 1 (background v) ?v = Done (?v\<lparr>pixels := buf\<rparr>)"
    "length buf = length (pixels v)"
    using fill_rect_Done [of ?v 0 "max_x v" y 1 "background v" oc] ok S(7) by auto
  moreover have "vga_next v (?v\<lparr>pixels := buf\<rparr>)" if "length buf = length (pixels v)" for buf
    using frame_ok_length [OF ok(1) that] that ok y S(7) by (simp add: vga_next_def vga_ok_def)
  ultimately show ?thesis
    using S(2) by (auto simp: new_line_def clean_row_def y_def)
qed

lemma advance_char_ok:
  assumes "vga_ok v"
  shows "\<exists>v'. advance_char oc v = Done v' \<and> vga_next v v'"
proof (cases "max_x v \<le> curr_x v + 1")
  case True
  with new_line_ok [OF assms, of oc "curr_x v + 1"] vga_small(1) [OF assms] show ?thesis
    by (simp add: advance_char_def Let_def)
next
  case False
  with assms have "vga_next v (v\<lparr>curr_x := curr_x v + 1\<rparr>)" by (simp add: vga_next_def vga_ok_def)
  with False vga_small(1) [OF assms] show ?thesis by (simp add: advance_char_def Let_def)
qed

definition font_ok :: "u8 list list \<Rightarrow> bool" where
  "font_ok font \<longleftrightarrow> length font = 128 \<and> (\<forall>g \<in> set font. length g = 8)"

lemma write_byte_ok:
  assumes "vga_ok v" and "font_ok font" and "b < 128"
  shows "\<exists>v'. write_byte oc font b v = Done v' \<and> vga_next v v'"
proof (cases "b = 10")
  case True
  have "v\<lparr>curr_x := curr_x v\<rparr> = v" by simp
  with new_line_ok [OF assms(1), of oc "curr_x v"] True show ?thesis by (simp add: write_byte_def)
next
  case False
  have ok: "frame_ok (info v) (pixels v)" "curr_x v < width (info v) div 8" "curr_y v < height (info v) div 8"
    "length (background v) = 3" "length (foreground v) = 3"
    using assms(1) by (simp_all add: vga_ok_def)
  from splat_char_Done [OF ok _ _ assms(3), of font oc] assms(2) obtain buf where
    sp: "splat_char oc font b (curr_x v * 8) (curr_y v * 8) v = Done (v\<lparr>pixels := buf\<rparr>)" "length buf = length (pixels v)"
    by (auto simp: font_ok_def)
  have next1: "vga_next v (v\<lparr>pixels := buf\<rparr>)"
    using assms(1) sp(2) frame_ok_length [OF ok(1) sp(2)] by (simp add: vga_next_def vga_ok_def)
  then have "vga_ok (v\<lparr>pixels := buf\<rparr>)" by (simp add: vga_next_def)
  from advance_char_ok [OF this, of oc] obtain v' where
    "advance_char oc (v\<lparr>pixels := buf\<rparr>) = Done v'" "vga_next (v\<lparr>pixels := buf\<rparr>) v'" by blast
  with vga_next_trans [OF next1] False sp(1) usz_62 [OF vga_small(5) [OF assms(1)], of oc]
    usz_62 [OF vga_small(6) [OF assms(1)], of oc]
  show ?thesis by (simp add: write_byte_def)
qed

lemma write_string_ok:
  assumes "vga_ok v" and "font_ok font"
  shows "\<exists>v'. write_string oc font bs v = Done v' \<and> vga_next v v'"
  using assms(1)
proof (induction bs arbitrary: v)
  case Nil
  then show ?case by (simp add: vga_next_def)
next
  case (Cons b bs)
  let ?b = "if 0x20 \<le> b \<and> b \<le> 0x7E \<or> b = 10 then b else 0x3F"
  have "?b < 128" by (auto intro: le_less_trans)
  from write_byte_ok [OF Cons.prems assms(2) this, of oc] obtain v1 where
    v1: "write_byte oc font ?b v = Done v1" "vga_next v v1" by blast
  then have "vga_ok v1" by (simp add: vga_next_def)
  from Cons.IH [OF this] vga_next_trans [OF v1(2)] v1(1) show ?case by auto
qed

lemma init_console_ok:
  assumes "frame_ok fi buf" and "font_ok font"
  shows "\<exists>v. init_vga_framebuffer oc font fi buf = Done v \<and> vga_ok v \<and> length (pixels v) = length buf"
proof -
  let ?v = "vga_new fi buf"
  have m: "8 \<le> width fi" "8 \<le> height fi" using assms(1) by (simp_all add: frame_ok_def)
  then have pos: "1 \<le> width fi div 8" "1 \<le> height fi div 8" by (simp_all add: less_eq_div_iff_mult_less_eq)
  have "\<exists>buf1. fill_rect oc 0 0 (max_x ?v) (max_y ?v) (background ?v) ?v = Done (?v\<lparr>pixels := buf1\<rparr>) \<and>
    length buf1 = length (pixels ?v) \<and> (\<forall>j. j \<notin> cell_bytes (info ?v) 0 0 (max_x ?v) (max_y ?v) \<longrightarrow> buf1 ! j = pixels ?v ! j)"
    by (rule fill_rect_Done) (use assms(1) pos in \<open>simp_all add: vga_new_def\<close>)
  then obtain buf1 where
    "fill_rect oc 0 0 (max_x ?v) (max_y ?v) (background ?v) ?v = Done (?v\<lparr>pixels := buf1\<rparr>)" "length buf1 = length buf"
    by (auto simp: vga_new_def)
  then have cs: "clean_screen oc ?v = Done (?v\<lparr>pixels := buf1\<rparr>)" "vga_ok (?v\<lparr>pixels := buf1\<rparr>)"
    using frame_ok_length [OF assms(1)] pos by (simp_all add: clean_screen_def vga_new_def vga_ok_def)
  from write_string_ok [OF cs(2) assms(2), of oc banner] obtain v where
    v: "init_vga_framebuffer oc font fi buf = Done v" "vga_next (?v\<lparr>pixels := buf1\<rparr>) v"
    by (auto simp: init_vga_framebuffer_def cs(1))
  then show ?thesis using \<open>length buf1 = length buf\<close> by (auto simp: vga_next_def)
qed

section \<open>Properties\<close>

text \<open>
  C39: Printing never fails. For every frame buffer with a known pixel format, lines of at least
  its width and room for its lines, setting up the console comes back, and so does printing any
  string of bytes afterwards: no index leaves the buffer or the font and no sum wraps around,
  whatever is printed, and the cursor stays on the screen.
\<close>
theorem console_never_panics:
  assumes "frame_ok fi buf" and "font_ok font"
  shows "\<exists>v. init_vga_framebuffer oc font fi buf = Done v \<and> vga_ok v \<and> length (pixels v) = length buf \<and>
    (\<exists>v'. write_string oc font bs v = Done v' \<and> vga_ok v' \<and> length (pixels v') = length buf)"
proof -
  from init_console_ok [OF assms, of oc] obtain v where
    v: "init_vga_framebuffer oc font fi buf = Done v" "vga_ok v" "length (pixels v) = length buf" by blast
  from write_string_ok [OF v(2) assms(2), of oc bs] v show ?thesis by (auto simp: vga_next_def)
qed

text \<open>A screen of two characters.\<close>

definition example_frame :: frame_info where
  "example_frame = \<lparr> width = 16, height = 8, stride = 20, bytes_per_pixel = 4, pixel_format = Bgr \<rparr>"

theorem console_never_panics_witness:
  "\<exists>v. init_vga_framebuffer True (replicate 128 (replicate 8 0x18)) example_frame (replicate 640 7) = Done v \<and>
     curr_x v < max_x v \<and> length (pixels v) = 640"
proof -
  have "frame_ok example_frame (replicate 640 7)" "font_ok (replicate 128 (replicate 8 0x18))"
    by (simp_all add: frame_ok_def example_frame_def font_ok_def)
  from console_never_panics [OF this, of True "[]"] obtain v where
    v: "init_vga_framebuffer True (replicate 128 (replicate 8 0x18)) example_frame (replicate 640 7) = Done v"
    "vga_ok v" "length (pixels v) = length (replicate 640 (7 :: u8))" by blast
  then show ?thesis by (auto simp: vga_ok_def)
qed

end
