(* ===== verification/Interrupts.thy ===== *)
theory Interrupts
  imports Externals Framebuffer
begin

text \<open>
  The descriptor tables of a processor (\<open>gdt.rs\<close>), the interrupt table with its handlers
  (\<open>interrupts.rs\<close>), the part of \<open>lib.rs\<close> that loads them, and printing with the interrupts off
  (\<open>_print\<close> of \<open>vga_framebuffer.rs\<close>). The tables of the crate \<open>x86_64\<close> and its check of the
  register \<open>STAR\<close> are parameters with what the crate documents.
\<close>

section \<open>Segments\<close>

type_synonym u16 = "16 word"

datatype segment = Kernel_code | Kernel_data | Tss_segment u64 | User_data | User_code

record 'g gdt_ops =
  gdt_new :: 'g
  add_entry :: "segment \<Rightarrow> 'g \<Rightarrow> (u16 \<times> 'g) option"
  entry_at :: "'g \<Rightarrow> nat \<Rightarrow> segment option"
  star_write :: "u16 \<Rightarrow> u16 \<Rightarrow> u16 \<Rightarrow> u16 \<Rightarrow> (u16 \<times> u16) option"

text \<open>
  What the crate documents. A table has eight places, the first one taken; a task state segment
  takes two. \<open>add_entry\<close> panics when the table is full, and answers the selector of the place with
  the privilege level of the segment. \<open>Star::write\<close> takes the selectors only in the order and with
  the privilege levels the instructions \<open>syscall\<close> and \<open>sysret\<close> derive, and stores two of them.
\<close>

definition seg_size :: "segment \<Rightarrow> nat" where
  "seg_size d = (case d of Tss_segment a \<Rightarrow> 2 | _ \<Rightarrow> 1)"

definition seg_ring :: "segment \<Rightarrow> nat" where
  "seg_ring d = (if d = User_data \<or> d = User_code then 3 else 0)"

definition selector :: "nat \<Rightarrow> nat \<Rightarrow> u16" where
  "selector i ring = of_nat (8 * i + ring)"

definition gdt_ok :: "'g gdt_ops \<Rightarrow> ('g \<Rightarrow> nat) \<Rightarrow> bool" where
  "gdt_ok G used \<longleftrightarrow> used (gdt_new G) = 1 \<and>
     (\<forall>d g. used g + seg_size d \<le> 8 \<longrightarrow>
        (\<exists>g'. add_entry G d g = Some (selector (used g) (seg_ring d), g') \<and> used g' = used g + seg_size d \<and>
           (\<forall>i. entry_at G g' i = (if i = used g then Some d else entry_at G g i)))) \<and>
     (\<forall>a b c d. star_write G a b c d =
        (if uint a - 16 = uint b - 8 \<and> uint c = uint d - 8 \<and> b AND 3 = 3 \<and> d AND 3 = 0
         then Some (b - 8, c) else None))"

section \<open>The descriptor tables\<close>

record tss =
  ist0 :: u64
  rsp0 :: u64

record 'g processor_tables =
  gdt :: 'g
  tss_at :: "u64 \<Rightarrow> tss"
  loaded_gdt :: "'g option"
  seg_cs :: u16
  seg_ss :: u16
  seg_ds :: u16
  seg_es :: u16
  seg_tr :: u16
  star :: "(u16 \<times> u16) option"
  idt_loaded :: bool
  interrupts_enabled :: bool

record selectors =
  code_selector :: u16
  data_selector :: u16
  tss_selector :: u16
  user_code_selector :: u16
  user_data_selector :: u16

text \<open>Where the statics are: the two task state segments and the two stacks.\<close>

record table_statics =
  early_tss :: u64
  tss_addr :: u64
  double_fault_stack :: u64
  r3_to_r0_stack :: u64

definition DOUBLE_FAULT_STACK_SIZE :: u64 where "DOUBLE_FAULT_STACK_SIZE = 2 * 4096"
definition R3_TO_R0_INT_SIZE :: u64 where "R3_TO_R0_INT_SIZE = 2 * 4096"

definition stack_top :: "env \<Rightarrow> u64 \<Rightarrow> u64 \<Rightarrow> u64 outcome" where
  "stack_top e start n = and_then (unwrap (virt_new e start)) (\<lambda>a. unwrap (virt_add e a n))"

definition init_tss :: "env \<Rightarrow> table_statics \<Rightarrow> 'g processor_tables \<Rightarrow> 'g processor_tables outcome" where
  "init_tss e S t =
     and_then (stack_top e (double_fault_stack S) DOUBLE_FAULT_STACK_SIZE) (\<lambda>a.
     and_then (stack_top e (r3_to_r0_stack S) R3_TO_R0_INT_SIZE) (\<lambda>b.
       Done (t\<lparr>tss_at := (tss_at t)(tss_addr S := \<lparr> ist0 = a, rsp0 = b \<rparr>)\<rparr>)))"

definition init_gdt :: "env \<Rightarrow> 'g gdt_ops \<Rightarrow> table_statics \<Rightarrow> 'g processor_tables \<Rightarrow> (selectors \<times> 'g processor_tables) outcome" where
  "init_gdt e G S t =
     and_then (init_tss e S t) (\<lambda>t1.
     and_then (unwrap (add_entry G Kernel_code (gdt t1))) (\<lambda>(code, g1).
     and_then (unwrap (add_entry G Kernel_data g1)) (\<lambda>(data, g2).
     and_then (unwrap (add_entry G (Tss_segment (tss_addr S)) g2)) (\<lambda>(tss, g3).
     and_then (unwrap (add_entry G User_data g3)) (\<lambda>(udata, g4).
     and_then (unwrap (add_entry G User_code g4)) (\<lambda>(ucode, g5).
       Done (\<lparr> code_selector = code, data_selector = data, tss_selector = tss,
               user_code_selector = ucode, user_data_selector = udata \<rparr>, t1\<lparr>gdt := g5\<rparr>)))))))"

text \<open>Loading a table and the selectors of the kernel.\<close>

definition load_segments :: "'g \<Rightarrow> u16 \<Rightarrow> u16 \<Rightarrow> u16 \<Rightarrow> 'g processor_tables \<Rightarrow> 'g processor_tables" where
  "load_segments g code data tss t =
     t\<lparr>loaded_gdt := Some g, seg_cs := code, seg_ss := data, seg_ds := 0, seg_es := 0, seg_tr := tss\<rparr>"

definition gdt_init :: "env \<Rightarrow> 'g gdt_ops \<Rightarrow> table_statics \<Rightarrow> 'g processor_tables \<Rightarrow> 'g processor_tables outcome" where
  "gdt_init e G S t =
     and_then (init_gdt e G S t) (\<lambda>(s, t1).
       let t2 = load_segments (gdt t1) (code_selector s) (data_selector s) (tss_selector s) t1 in
       and_then (unwrap (star_write G (user_code_selector s) (user_data_selector s) (code_selector s) (data_selector s)))
         (\<lambda>v. Done (t2\<lparr>star := Some v\<rparr>)))"

text \<open>The tables used before the thread data is there: their task state segment has no stacks.\<close>

definition global_gdt :: "'g gdt_ops \<Rightarrow> table_statics \<Rightarrow> ('g \<times> selectors) outcome" where
  "global_gdt G S =
     and_then (unwrap (add_entry G Kernel_code (gdt_new G))) (\<lambda>(code, g1).
     and_then (unwrap (add_entry G Kernel_data g1)) (\<lambda>(data, g2).
     and_then (unwrap (add_entry G (Tss_segment (early_tss S)) g2)) (\<lambda>(tss, g3).
       Done (g3, \<lparr> code_selector = code, data_selector = data, tss_selector = tss,
               user_code_selector = code, user_data_selector = data \<rparr>))))"

definition init_prepaging :: "'g gdt_ops \<Rightarrow> table_statics \<Rightarrow> 'g processor_tables \<Rightarrow> 'g processor_tables outcome" where
  "init_prepaging G S t =
     and_then (global_gdt G S) (\<lambda>(g, s).
       Done (load_segments g (code_selector s) (data_selector s) (tss_selector s)
         (t\<lparr>tss_at := (tss_at t)(early_tss S := \<lparr> ist0 = 0, rsp0 = 0 \<rparr>)\<rparr>)))"

text \<open>\<open>init\<close> of the library: the controllers are set up before the interrupts are let in.\<close>

definition kernel_init :: "'g gdt_ops \<Rightarrow> table_statics \<Rightarrow> 'g processor_tables \<Rightarrow> 'g processor_tables outcome" where
  "kernel_init G S t =
     and_then (init_prepaging G S t) (\<lambda>t1. Done (t1\<lparr>idt_loaded := True, interrupts_enabled := True\<rparr>))"

section \<open>What the processor makes of the tables\<close>

definition segment_of :: "'g gdt_ops \<Rightarrow> 'g processor_tables \<Rightarrow> u16 \<Rightarrow> segment option" where
  "segment_of G t s = (case loaded_gdt t of None \<Rightarrow> None | Some g \<Rightarrow> entry_at G g (unat s div 8))"

text \<open>The stacks of the task state segment the task register selects.\<close>

definition current_tss :: "'g gdt_ops \<Rightarrow> 'g processor_tables \<Rightarrow> tss option" where
  "current_tss G t = (case segment_of G t (seg_tr t) of Some (Tss_segment a) \<Rightarrow> Some (tss_at t a) | _ \<Rightarrow> None)"

lemma gdt_ok_add:
  assumes "gdt_ok G used" and "used g + seg_size d \<le> 8"
  obtains g' where "add_entry G d g = Some (selector (used g) (seg_ring d), g')" "used g' = used g + seg_size d"
    "\<And>i. entry_at G g' i = (if i = used g then Some d else entry_at G g i)"
  using assms unfolding gdt_ok_def by blast

lemma gdt_ok_star:
  assumes "gdt_ok G used"
  shows "star_write G a b c d = (if uint a - 16 = uint b - 8 \<and> uint c = uint d - 8 \<and> b AND 3 = 3 \<and> d AND 3 = 0
    then Some (b - 8, c) else None)"
  using assms unfolding gdt_ok_def by blast

lemmas seg_eval = seg_size_def seg_ring_def selector_def

text \<open>The five entries of \<open>init_gdt\<close> fit and take the places 1, 2, 3, 5 and 6.\<close>

lemma five_entries:
  assumes "gdt_ok G used" and "used g = 1"
  obtains g1 g2 g3 g4 g5 where
    "add_entry G Kernel_code g = Some (0x08, g1)" "add_entry G Kernel_data g1 = Some (0x10, g2)"
    "add_entry G (Tss_segment a) g2 = Some (0x18, g3)" "add_entry G User_data g3 = Some (0x2B, g4)"
    "add_entry G User_code g4 = Some (0x33, g5)"
    "entry_at G g3 1 = Some Kernel_code" "entry_at G g3 2 = Some Kernel_data" "entry_at G g3 3 = Some (Tss_segment a)"
    "entry_at G g5 1 = Some Kernel_code" "entry_at G g5 2 = Some Kernel_data" "entry_at G g5 3 = Some (Tss_segment a)"
    "entry_at G g5 5 = Some User_data" "entry_at G g5 6 = Some User_code"
proof -
  obtain g1 where 1: "add_entry G Kernel_code g = Some (0x08, g1)" "used g1 = 2"
    "\<And>i. entry_at G g1 i = (if i = 1 then Some Kernel_code else entry_at G g i)"
    by (rule gdt_ok_add [OF assms(1), of g Kernel_code]) (use assms(2) in \<open>auto simp: seg_eval\<close>)
  obtain g2 where 2: "add_entry G Kernel_data g1 = Some (0x10, g2)" "used g2 = 3"
    "\<And>i. entry_at G g2 i = (if i = 2 then Some Kernel_data else entry_at G g1 i)"
    by (rule gdt_ok_add [OF assms(1), of g1 Kernel_data]) (use 1(2) in \<open>auto simp: seg_eval\<close>)
  obtain g3 where 3: "add_entry G (Tss_segment a) g2 = Some (0x18, g3)" "used g3 = 5"
    "\<And>i. entry_at G g3 i = (if i = 3 then Some (Tss_segment a) else entry_at G g2 i)"
    by (rule gdt_ok_add [OF assms(1), of g2 "Tss_segment a"]) (use 2(2) in \<open>auto simp: seg_eval\<close>)
  obtain g4 where 4: "add_entry G User_data g3 = Some (0x2B, g4)" "used g4 = 6"
    "\<And>i. entry_at G g4 i = (if i = 5 then Some User_data else entry_at G g3 i)"
    by (rule gdt_ok_add [OF assms(1), of g3 User_data]) (use 3(2) in \<open>auto simp: seg_eval\<close>)
  obtain g5 where 5: "add_entry G User_code g4 = Some (0x33, g5)"
    "\<And>i. entry_at G g5 i = (if i = 6 then Some User_code else entry_at G g4 i)"
    by (rule gdt_ok_add [OF assms(1), of g4 User_code]) (use 4(2) in \<open>auto simp: seg_eval\<close>)
  show thesis
    by (rule that [OF 1(1) 2(1) 3(1) 4(1) 5(1)]) (simp_all add: 1(3) 2(3) 3(3) 4(3) 5(2))
qed

text \<open>\<open>gdt::init\<close> on a fresh table.\<close>

lemma gdt_init_Done:
  assumes "gdt_ok G used" and "used (gdt t) = 1"
    and "stack_top e (double_fault_stack S) DOUBLE_FAULT_STACK_SIZE = Done a"
    and "stack_top e (r3_to_r0_stack S) R3_TO_R0_INT_SIZE = Done b"
  obtains t' g where "gdt_init e G S t = Done t'" "loaded_gdt t' = Some g" "seg_cs t' = 0x08" "seg_ss t' = 0x10"
    "current_tss G t' = Some \<lparr> ist0 = a, rsp0 = b \<rparr>" "star t' = Some (0x23, 0x08)"
    "entry_at G g 1 = Some Kernel_code" "entry_at G g 2 = Some Kernel_data"
    "entry_at G g 5 = Some User_data" "entry_at G g 6 = Some User_code"
proof -
  from five_entries [OF assms(1,2), of "tss_addr S"] obtain g1 g2 g3 g4 g5 where own:
    "add_entry G Kernel_code (gdt t) = Some (0x08, g1)" "add_entry G Kernel_data g1 = Some (0x10, g2)"
    "add_entry G (Tss_segment (tss_addr S)) g2 = Some (0x18, g3)" "add_entry G User_data g3 = Some (0x2B, g4)"
    "add_entry G User_code g4 = Some (0x33, g5)" "entry_at G g5 1 = Some Kernel_code" "entry_at G g5 2 = Some Kernel_data"
    "entry_at G g5 3 = Some (Tss_segment (tss_addr S))" "entry_at G g5 5 = Some User_data" "entry_at G g5 6 = Some User_code"
    by metis
  have st: "star_write G 0x33 0x2B 0x08 0x10 = Some (0x23, 0x08)" by (simp add: gdt_ok_star [OF assms(1)])
  obtain t2 where t2: "gdt_init e G S t = Done t2" "loaded_gdt t2 = Some g5" "seg_cs t2 = 0x08" "seg_ss t2 = 0x10"
    "seg_tr t2 = 0x18" "tss_at t2 (tss_addr S) = \<lparr> ist0 = a, rsp0 = b \<rparr>" "star t2 = Some (0x23, 0x08)"
    by (simp add: gdt_init_def init_gdt_def init_tss_def assms(3,4) load_segments_def unwrap_def own st)
  show thesis
    by (rule that [OF t2(1-4)]) (use t2 own(6-10) in \<open>simp_all add: segment_of_def current_tss_def\<close>)
qed

text \<open>
  C6: The descriptor tables. After \<open>init\<close> of the library the selectors name the segments of the
  kernel, but a fault is handled on a stack at address 0: the task state segment of that time has no
  stacks. After \<open>gdt::init\<close> of the thread the selectors name the kernel segments of its own table,
  faults and interrupts from user code run on the tops of their two stacks, and the register
  \<open>STAR\<close> is accepted: \<open>syscall\<close> enters with the code and data segment of the kernel and \<open>sysret\<close>
  leaves with those of the user, on privilege level 3.
\<close>

theorem descriptor_tables_correct:
  assumes "gdt_ok G used" and "used (gdt t) = 1"
    and "stack_top e (double_fault_stack S) DOUBLE_FAULT_STACK_SIZE = Done a"
    and "stack_top e (r3_to_r0_stack S) R3_TO_R0_INT_SIZE = Done b"
  shows "\<exists>t1 t2 hi lo. kernel_init G S t = Done t1 \<and> gdt_init e G S t1 = Done t2 \<and>
    segment_of G t1 (seg_cs t1) = Some Kernel_code \<and> segment_of G t1 (seg_ss t1) = Some Kernel_data \<and>
    current_tss G t1 = Some \<lparr> ist0 = 0, rsp0 = 0 \<rparr> \<and> interrupts_enabled t1 \<and>
    segment_of G t2 (seg_cs t2) = Some Kernel_code \<and> segment_of G t2 (seg_ss t2) = Some Kernel_data \<and>
    current_tss G t2 = Some \<lparr> ist0 = a, rsp0 = b \<rparr> \<and> star t2 = Some (hi, lo) \<and>
    segment_of G t2 lo = Some Kernel_code \<and> segment_of G t2 (lo + 8) = Some Kernel_data \<and>
    segment_of G t2 (hi + 16) = Some User_code \<and> segment_of G t2 (hi + 8) = Some User_data \<and>
    (hi + 16) AND 3 = 3 \<and> (hi + 8) AND 3 = 3"
proof -
  have "used (gdt_new G) = 1" using assms(1) by (simp add: gdt_ok_def)
  from five_entries [OF assms(1) this, of "early_tss S"] obtain p1 p2 p3 where early:
    "add_entry G Kernel_code (gdt_new G) = Some (0x08, p1)" "add_entry G Kernel_data p1 = Some (0x10, p2)"
    "add_entry G (Tss_segment (early_tss S)) p2 = Some (0x18, p3)" "entry_at G p3 1 = Some Kernel_code"
    "entry_at G p3 2 = Some Kernel_data" "entry_at G p3 3 = Some (Tss_segment (early_tss S))" by metis
  obtain t1 where t1: "kernel_init G S t = Done t1" "gdt t1 = gdt t" "loaded_gdt t1 = Some p3" "seg_cs t1 = 0x08"
    "seg_ss t1 = 0x10" "seg_tr t1 = 0x18" "tss_at t1 (early_tss S) = \<lparr> ist0 = 0, rsp0 = 0 \<rparr>" "interrupts_enabled t1"
    by (simp add: kernel_init_def init_prepaging_def global_gdt_def load_segments_def unwrap_def early)
  from gdt_init_Done [OF assms(1) _ assms(3,4), of t1] t1(2) assms(2) obtain t2 g where t2:
    "gdt_init e G S t1 = Done t2" "loaded_gdt t2 = Some g" "seg_cs t2 = 0x08" "seg_ss t2 = 0x10"
    "current_tss G t2 = Some \<lparr> ist0 = a, rsp0 = b \<rparr>" "star t2 = Some (0x23, 0x08)" "entry_at G g 1 = Some Kernel_code"
    "entry_at G g 2 = Some Kernel_data" "entry_at G g 5 = Some User_data" "entry_at G g 6 = Some User_code" by metis
  show ?thesis
    using t1 t2 early(4-6) by (simp add: segment_of_def current_tss_def)
qed

text \<open>A table as a list of its places.\<close>

definition list_gdt :: "segment option list gdt_ops" where
  "list_gdt = \<lparr> gdt_new = [None],
     add_entry = (\<lambda>d g. if length g + seg_size d \<le> 8
       then Some (selector (length g) (seg_ring d), g @ [Some d] @ replicate (seg_size d - 1) None) else None),
     entry_at = (\<lambda>g i. if i < length g then g ! i else None),
     star_write = (\<lambda>a b c d. if uint a - 16 = uint b - 8 \<and> uint c = uint d - 8 \<and> b AND 3 = 3 \<and> d AND 3 = 0
       then Some (b - 8, c) else None) \<rparr>"

lemma list_gdt_ok: "gdt_ok list_gdt length"
proof -
  have "\<exists>g'. add_entry list_gdt d g = Some (selector (length g) (seg_ring d), g') \<and> length g' = length g + seg_size d \<and>
      (\<forall>i. entry_at list_gdt g' i = (if i = length g then Some d else entry_at list_gdt g i))"
    if "length g + seg_size d \<le> 8" for d g
  proof -
    have "seg_size d = 1 \<or> seg_size d = 2" by (simp add: seg_size_def split: segment.split)
    with that show ?thesis
      by (elim disjE) (auto simp: list_gdt_def nth_append nth_Cons')
  qed
  moreover have "length (gdt_new list_gdt) = 1" by (simp add: list_gdt_def)
  moreover have "star_write list_gdt a b c d = (if uint a - 16 = uint b - 8 \<and> uint c = uint d - 8 \<and> b AND 3 = 3 \<and> d AND 3 = 0
       then Some (b - 8, c) else None)" for a b c d by (simp add: list_gdt_def)
  ultimately show ?thesis unfolding gdt_ok_def by blast
qed

definition fresh_tables :: "segment option list processor_tables" where
  "fresh_tables = \<lparr> gdt = [None], tss_at = (\<lambda>_. \<lparr> ist0 = 7, rsp0 = 7 \<rparr>), loaded_gdt = None, seg_cs = 0, seg_ss = 0,
     seg_ds = 0, seg_es = 0, seg_tr = 0, star = None, idt_loaded = False, interrupts_enabled = False \<rparr>"

theorem descriptor_tables_correct_witness:
  "\<exists>t1 t2. kernel_init list_gdt \<lparr> early_tss = 0x100, tss_addr = 0x200, double_fault_stack = 0x10000, r3_to_r0_stack = 0x20000 \<rparr>
      fresh_tables = Done t1 \<and>
    gdt_init (documented_env True) list_gdt
      \<lparr> early_tss = 0x100, tss_addr = 0x200, double_fault_stack = 0x10000, r3_to_r0_stack = 0x20000 \<rparr> t1 = Done t2 \<and>
    current_tss list_gdt t1 = Some \<lparr> ist0 = 0, rsp0 = 0 \<rparr> \<and> current_tss list_gdt t2 = Some \<lparr> ist0 = 0x12000, rsp0 = 0x22000 \<rparr>"
proof -
  let ?S = "\<lparr> early_tss = 0x100, tss_addr = 0x200, double_fault_stack = 0x10000, r3_to_r0_stack = 0x20000 \<rparr>"
  have s: "stack_top (documented_env True) (double_fault_stack ?S) DOUBLE_FAULT_STACK_SIZE = Done 0x12000"
    "stack_top (documented_env True) (r3_to_r0_stack ?S) R3_TO_R0_INT_SIZE = Done 0x22000"
    by (simp_all add: stack_top_def DOUBLE_FAULT_STACK_SIZE_def R3_TO_R0_INT_SIZE_def unwrap_def documented_env_def
        sign_extend_47_def canonical_def)
  have "length (gdt fresh_tables) = 1" by (simp add: fresh_tables_def)
  from descriptor_tables_correct [OF list_gdt_ok this s] show ?thesis by auto
qed

section \<open>The console and the interrupt controllers\<close>

text \<open>
  What printing and the handlers touch: the writer, if it is initialised, behind its lock, the lock
  of the interrupt controllers, the interrupt flag, and the interrupts that were acknowledged. A
  lock that is taken is not released while the processor spins for it.
\<close>

datatype printer = Idle | Masked "u8 list" | Printing "u8 list" | Leaving

record io =
  vga :: "vga_writer option"
  vga_locked :: bool
  pics_locked :: bool
  int_flag :: bool
  eoi :: "nat list"
  pc :: printer
  saved_flag :: bool

definition PIC_1_OFFSET :: nat where "PIC_1_OFFSET = 32"
definition timer_vector :: nat where "timer_vector = PIC_1_OFFSET"
definition keyboard_vector :: nat where "keyboard_vector = PIC_1_OFFSET + 1"

text \<open>\<open>_print\<close> from end to end: the interrupts are off until the lock is given back.\<close>

definition print :: "bool \<Rightarrow> u8 list list \<Rightarrow> u8 list \<Rightarrow> io \<Rightarrow> io outcome" where
  "print oc font bs s =
     and_then (unwrap (vga s)) (\<lambda>v.
       if vga_locked s then Hang
       else and_then (write_string oc font bs v) (\<lambda>v'. Done (s\<lparr>vga := Some v'\<rparr>)))"

definition notify_end_of_interrupt :: "nat \<Rightarrow> io \<Rightarrow> io outcome" where
  "notify_end_of_interrupt vec s = (if pics_locked s then Hang else Done (s\<lparr>eoi := eoi s @ [vec]\<rparr>))"

section \<open>The interrupt table\<close>

datatype handler = Breakpoint | General_protection | Segment_not_present | Page_fault | Double_fault | Timer | Keyboard

record gate =
  gate_handler :: handler
  gate_ist :: "nat option"

definition idt :: "nat \<Rightarrow> gate option" where
  "idt = [3 \<mapsto> \<lparr> gate_handler = Breakpoint, gate_ist = None \<rparr>,
     13 \<mapsto> \<lparr> gate_handler = General_protection, gate_ist = None \<rparr>,
     11 \<mapsto> \<lparr> gate_handler = Segment_not_present, gate_ist = None \<rparr>,
     14 \<mapsto> \<lparr> gate_handler = Page_fault, gate_ist = Some 0 \<rparr>,
     8 \<mapsto> \<lparr> gate_handler = Double_fault, gate_ist = Some 0 \<rparr>,
     timer_vector \<mapsto> \<lparr> gate_handler = Timer, gate_ist = None \<rparr>,
     keyboard_vector \<mapsto> \<lparr> gate_handler = Keyboard, gate_ist = None \<rparr>]"

text \<open>
  The handlers; the argument \<open>msg\<close> stands for the formatted text. \<open>hlt_loop\<close> is \<open>Hang\<close>. A vector without a
  gate is the exception \<open>segment not present\<close> of the processor.
\<close>

definition run_handler :: "bool \<Rightarrow> u8 list list \<Rightarrow> u8 list \<Rightarrow> handler \<Rightarrow> io \<Rightarrow> io outcome" where
  "run_handler oc font msg h s =
     (case h of
        Breakpoint \<Rightarrow> print oc font msg s
      | Double_fault \<Rightarrow> Panic
      | Page_fault \<Rightarrow> and_then (print oc font msg s) (\<lambda>_. Hang)
      | General_protection \<Rightarrow> and_then (print oc font msg s) (\<lambda>_. Hang)
      | Segment_not_present \<Rightarrow> and_then (print oc font msg s) (\<lambda>_. Hang)
      | Timer \<Rightarrow> and_then (print oc font [0x2E] s) (notify_end_of_interrupt timer_vector)
      | Keyboard \<Rightarrow> notify_end_of_interrupt keyboard_vector s)"

definition handler_of :: "nat \<Rightarrow> handler" where
  "handler_of vec = (case idt vec of None \<Rightarrow> Segment_not_present | Some g \<Rightarrow> gate_handler g)"

text \<open>The gates turn the interrupts off, the return puts the flag back.\<close>

definition interrupt :: "bool \<Rightarrow> u8 list list \<Rightarrow> u8 list \<Rightarrow> nat \<Rightarrow> io \<Rightarrow> io outcome" where
  "interrupt oc font msg vec s =
     and_then (run_handler oc font msg (handler_of vec) (s\<lparr>int_flag := False\<rparr>)) (\<lambda>s'. Done (s'\<lparr>int_flag := int_flag s\<rparr>))"

lemma handler_of_simps:
  "handler_of timer_vector = Timer" "handler_of keyboard_vector = Keyboard" "handler_of 3 = Breakpoint"
  by (simp_all add: handler_of_def idt_def timer_vector_def keyboard_vector_def PIC_1_OFFSET_def)

text \<open>The exceptions of the processor have the vectors below 32.\<close>

lemma handler_of_exception:
  "vec < 32 \<Longrightarrow> vec \<noteq> 3 \<Longrightarrow> handler_of vec \<in> {General_protection, Segment_not_present, Page_fault, Double_fault}"
  by (auto simp: handler_of_def idt_def timer_vector_def keyboard_vector_def PIC_1_OFFSET_def)

section \<open>Printing while interrupts come\<close>

text \<open>
  One processor prints, byte by byte, and an interrupt of the timer or the keyboard may come
  whenever the flag is set.
\<close>

inductive io_step :: "bool \<Rightarrow> u8 list list \<Rightarrow> io \<Rightarrow> io \<Rightarrow> bool" for oc font where
  enter: "pc s = Idle \<Longrightarrow> io_step oc font s (s\<lparr>saved_flag := int_flag s, int_flag := False, pc := Masked bs\<rparr>)"
| lock: "pc s = Masked bs \<Longrightarrow> \<not> vga_locked s \<Longrightarrow> io_step oc font s (s\<lparr>vga_locked := True, pc := Printing bs\<rparr>)"
| put: "pc s = Printing (b # bs) \<Longrightarrow> vga s = Some v \<Longrightarrow> write_string oc font [b] v = Done v' \<Longrightarrow>
    io_step oc font s (s\<lparr>vga := Some v', pc := Printing bs\<rparr>)"
| unlock: "pc s = Printing [] \<Longrightarrow> io_step oc font s (s\<lparr>vga_locked := False, pc := Leaving\<rparr>)"
| leave: "pc s = Leaving \<Longrightarrow> io_step oc font s (s\<lparr>int_flag := saved_flag s, pc := Idle\<rparr>)"
| irq: "int_flag s \<Longrightarrow> vec \<in> {timer_vector, keyboard_vector} \<Longrightarrow> interrupt oc font msg vec s = Done s' \<Longrightarrow>
    io_step oc font s s'"

definition io_ok :: "io \<Rightarrow> bool" where
  "io_ok s \<longleftrightarrow> (\<exists>v. vga s = Some v \<and> vga_ok v) \<and> \<not> pics_locked s \<and>
     (vga_locked s \<longleftrightarrow> (\<exists>bs. pc s = Printing bs)) \<and> (int_flag s \<longrightarrow> pc s = Idle)"

lemma io_ok_unlocked: "io_ok s \<Longrightarrow> int_flag s \<Longrightarrow> \<not> vga_locked s"
  by (auto simp: io_ok_def)

lemma print_ok:
  assumes "vga s = Some v" and "vga_ok v" and "\<not> vga_locked s" and "font_ok font"
  shows "\<exists>v'. print oc font bs s = Done (s\<lparr>vga := Some v'\<rparr>) \<and> vga_ok v'"
  using write_string_ok [OF assms(2,4), of oc bs] assms(1,3) by (auto simp: print_def unwrap_def vga_next_def)

text \<open>A hardware interrupt that finds the lock free comes back with its acknowledgement.\<close>

lemma irq_returns:
  assumes "io_ok s" and "int_flag s" and "font_ok font" and "vec \<in> {timer_vector, keyboard_vector}"
  shows "\<exists>v. interrupt oc font msg vec s = Done (s\<lparr>vga := Some v, eoi := eoi s @ [vec]\<rparr>) \<and> vga_ok v"
proof -
  obtain v where v: "vga s = Some v" "vga_ok v" "\<not> pics_locked s" using assms(1) by (auto simp: io_ok_def)
  note free = io_ok_unlocked [OF assms(1,2)]
  from print_ok [of "s\<lparr>int_flag := False\<rparr>" v font oc "[0x2E]"] v free assms(3) obtain v' where
    p: "print oc font [0x2E] (s\<lparr>int_flag := False\<rparr>) = Done (s\<lparr>int_flag := False, vga := Some v'\<rparr>)" "vga_ok v'" by auto
  have same: "s\<lparr>int_flag := True\<rparr> = s" "s\<lparr>vga := Some v\<rparr> = s" using assms(2) v(1) by simp_all
  from assms(4) show ?thesis
  proof
    assume "vec = timer_vector"
    then show ?thesis using p v(3) assms(2)
      by (intro exI [of _ v']) (simp add: interrupt_def handler_of_simps run_handler_def notify_end_of_interrupt_def)
  next
    assume "vec \<in> {keyboard_vector}"
    then show ?thesis using v assms(2)
      by (intro exI [of _ v]) (simp add: interrupt_def handler_of_simps run_handler_def notify_end_of_interrupt_def)
  qed
qed

lemma io_ok_step:
  assumes "io_step oc font s s'" and "io_ok s" and "font_ok font"
  shows "io_ok s'"
  using assms(1)
proof cases
  case (put b bs v v')
  then have "vga_ok v'" using write_string_ok [of v font oc "[b]"] assms(2,3) by (auto simp: io_ok_def vga_next_def)
  then show ?thesis using put assms(2) by (auto simp: io_ok_def)
next
  case (irq vec msg)
  then show ?thesis using irq_returns [OF assms(2) irq(1) assms(3) irq(2), of oc msg] assms(2) by (auto simp: io_ok_def)
qed (use assms(2) in \<open>auto simp: io_ok_def\<close>)

lemma io_ok_steps:
  assumes "(io_step oc font)\<^sup>*\<^sup>* s s'" and "io_ok s" and "font_ok font"
  shows "io_ok s'"
  using assms(1) by induction (auto intro: io_ok_step [OF _ _ assms(3)] assms(2))

lemma printer_progress:
  assumes "io_ok s" and "font_ok font"
  shows "pc s \<noteq> Idle \<Longrightarrow> \<exists>s'. io_step oc font s s' \<and> pc s' \<noteq> pc s"
proof (cases "pc s")
  case (Masked bs)
  then have "\<not> vga_locked s" using assms(1) by (simp add: io_ok_def)
  from lock [OF Masked this] show ?thesis using Masked by fastforce
next
  case (Printing bs)
  show ?thesis
  proof (cases bs)
    case Nil
    with unlock [of s] Printing show ?thesis by fastforce
  next
    case (Cons b cs)
    obtain v where v: "vga s = Some v" "vga_ok v" using assms(1) by (auto simp: io_ok_def)
    from write_string_ok [OF v(2) assms(2), of oc "[b]"] obtain v' where "write_string oc font [b] v = Done v'" by blast
    from put [OF _ v(1) this] Printing Cons show ?thesis by fastforce
  qed
next
  case Leaving
  from leave [OF Leaving] show ?thesis using Leaving by fastforce
qed simp

text \<open>
  C5: Interrupts and the console never block each other. In every state that printing and the
  interrupts of the timer and the keyboard can reach, under every interleaving, an interrupt that
  comes is handled to its end: it finds the lock of the console free, is acknowledged once, and the
  interrupted code goes on where it was; and the code that prints can always take its next step.
\<close>

theorem interrupts_never_deadlock:
  assumes "(io_step oc font)\<^sup>*\<^sup>* s0 s" and "io_ok s0" and "font_ok font"
  shows "(int_flag s \<and> vec \<in> {timer_vector, keyboard_vector} \<longrightarrow>
      (\<exists>v. interrupt oc font msg vec s = Done (s\<lparr>vga := Some v, eoi := eoi s @ [vec]\<rparr>))) \<and>
    (pc s \<noteq> Idle \<longrightarrow> (\<exists>s'. io_step oc font s s' \<and> pc s' \<noteq> pc s))"
  using irq_returns [OF io_ok_steps [OF assms] _ assms(3)] printer_progress [OF io_ok_steps [OF assms] assms(3)] by blast

definition example_writer :: vga_writer where
  "example_writer = vga_new example_frame (replicate 640 0)"

definition example_io :: io where
  "example_io = \<lparr> vga = Some example_writer, vga_locked = False, pics_locked = False, int_flag = True, eoi = [],
     pc = Idle, saved_flag = False \<rparr>"

lemma example_io_ok: "io_ok example_io" "font_ok (replicate 128 (replicate 8 0x18))"
  by (simp_all add: io_ok_def example_io_def example_writer_def vga_new_def vga_ok_def frame_ok_def example_frame_def font_ok_def)

theorem interrupts_never_deadlock_witness:
  "\<exists>v. interrupt True (replicate 128 (replicate 8 0x18)) [] timer_vector example_io =
     Done (example_io\<lparr>vga := Some v, eoi := [timer_vector]\<rparr>)"
proof -
  from interrupts_never_deadlock [OF rtranclp.rtrancl_refl example_io_ok, where oc = True and vec = timer_vector and msg = "[]"]
  have "\<exists>v. interrupt True (replicate 128 (replicate 8 0x18)) [] timer_vector example_io =
     Done (example_io\<lparr>vga := Some v, eoi := eoi example_io @ [timer_vector]\<rparr>)"
    by (simp add: example_io_def)
  then show ?thesis by (simp add: example_io_def)
qed

text \<open>
  An exception other than the breakpoint stops the processor for good, whichever program caused
  it: its handler prints and halts, or panics, and never returns to the tasks.
\<close>

theorem exceptions_stop_processor:
  assumes "vec < 32" and "vec \<noteq> 3"
  shows "interrupt oc font msg vec s \<in> {Hang, Panic}"
proof -
  have "run_handler oc font msg (handler_of vec) t \<in> {Hang, Panic}" for t
    using handler_of_exception [OF assms] by (cases "print oc font msg t") (auto simp: run_handler_def)
  from this [of "s\<lparr>int_flag := False\<rparr>"] show ?thesis by (auto simp: interrupt_def)
qed

theorem exceptions_stop_processor_witness:
  "interrupt True [] [] 6 example_io \<in> {Hang, Panic}"
  using exceptions_stop_processor [of 6] by simp

end
