(* ===== verification/Multi_Core.thy ===== *)
theory Multi_Core
  imports Paging
begin

text \<open>
  Starting the other processors (\<open>arch/x86_64/multi_core.rs\<close> with the local APIC of
  \<open>arch/x86_64/apic.rs\<close>): the boot processor fills the mailbox in the trampoline page, sends the
  two interrupts and waits twice; the started processor reads the mailbox, enters \<open>kstart_ap\<close> and
  waits for the boot processor. The processors run side by side: the model is a step relation over
  the shared memory, one access to it at a time.
\<close>

section \<open>The local APIC\<close>

text \<open>
  The device is a parameter: reading and writing its registers in memory and the model specific
  registers; a read may change it.
\<close>

type_synonym u32 = "32 word"

record lapic =
  base_address :: u64
  is_ver2 :: bool

record 'd apic_ops =
  mmio_read :: "u64 \<Rightarrow> 'd \<Rightarrow> u32 \<times> 'd"
  mmio_write :: "u64 \<Rightarrow> u32 \<Rightarrow> 'd \<Rightarrow> 'd"
  rdmsr :: "u32 \<Rightarrow> 'd \<Rightarrow> u64"
  wrmsr :: "u32 \<Rightarrow> u64 \<Rightarrow> 'd \<Rightarrow> 'd"

definition apic_read :: "env \<Rightarrow> 'd apic_ops \<Rightarrow> lapic \<Rightarrow> u64 \<Rightarrow> 'd \<Rightarrow> (u32 \<times> 'd) outcome" where
  "apic_read e ops la reg d = and_then (unwrap (virt_add e (base_address la) reg)) (\<lambda>a. Done (mmio_read ops a d))"

definition apic_write :: "env \<Rightarrow> 'd apic_ops \<Rightarrow> lapic \<Rightarrow> u64 \<Rightarrow> u32 \<Rightarrow> 'd \<Rightarrow> 'd outcome" where
  "apic_write e ops la reg v d = and_then (unwrap (virt_add e (base_address la) reg)) (\<lambda>a. Done (mmio_write ops a v d))"

definition apic_init_ap :: "env \<Rightarrow> 'd apic_ops \<Rightarrow> lapic \<Rightarrow> 'd \<Rightarrow> 'd outcome" where
  "apic_init_ap e ops la d =
     (if is_ver2 la
      then let d1 = wrmsr ops 0x1B (rdmsr ops 0x1B d OR push_bit 10 1) d in Done (wrmsr ops 0x80F 0x100 d1)
      else apic_write e ops la 0xF0 0x100 d)"

definition apic_id :: "env \<Rightarrow> 'd apic_ops \<Rightarrow> lapic \<Rightarrow> 'd \<Rightarrow> (u32 \<times> 'd) outcome" where
  "apic_id e ops la d = (if is_ver2 la then Done (ucast (rdmsr ops 0x802 d), d) else apic_read e ops la 0x20 d)"

definition apic_version :: "env \<Rightarrow> 'd apic_ops \<Rightarrow> lapic \<Rightarrow> 'd \<Rightarrow> (u32 \<times> 'd) outcome" where
  "apic_version e ops la d = (if is_ver2 la then Done (ucast (rdmsr ops 0x803 d), d) else apic_read e ops la 0x30 d)"

text \<open>The features \<open>cpuid\<close> reports, if it does: a local APIC and the second access mode.\<close>

definition apic_init :: "env \<Rightarrow> 'd apic_ops \<Rightarrow> (bool \<times> bool) option \<Rightarrow> u64 \<Rightarrow> 'd \<Rightarrow> (lapic option \<times> 'd) outcome" where
  "apic_init e ops features base d =
     and_then (unwrap features) (\<lambda>(has_apic, has_x2apic).
       if \<not> has_apic then Done (None, d)
       else let la = \<lparr> base_address = base, is_ver2 = has_x2apic \<rparr> in
         and_then (apic_init_ap e ops la d) (\<lambda>d1.
         and_then (apic_id e ops la d1) (\<lambda>(i, d2).
         and_then (apic_version e ops la d2) (\<lambda>(v, d3). Done (Some la, d3)))))"

definition apic_icr :: "env \<Rightarrow> 'd apic_ops \<Rightarrow> lapic \<Rightarrow> 'd \<Rightarrow> (u64 \<times> 'd) outcome" where
  "apic_icr e ops la d =
     (if is_ver2 la then Done (rdmsr ops 0x830 d, d)
      else and_then (apic_read e ops la 0x310 d) (\<lambda>(hi, d1).
           and_then (apic_read e ops la 0x300 d1) (\<lambda>(lo, d2).
             Done (push_bit 32 (ucast hi) OR ucast lo, d2))))"

text \<open>The loop that waits for the delivery bit to clear; it may never return.\<close>

partial_function (option) apic_wait :: "env \<Rightarrow> 'd apic_ops \<Rightarrow> lapic \<Rightarrow> 'd \<Rightarrow> 'd outcome option" where
  "apic_wait e ops la d =
     (case apic_read e ops la 0x300 d of
        Panic \<Rightarrow> Some Panic
      | Hang \<Rightarrow> Some Hang
      | Done x \<Rightarrow> (case x of (v, d1) \<Rightarrow>
          if v AND push_bit 12 1 \<noteq> 0 then apic_wait e ops la d1 else Some (Done d1)))"

definition after_wait :: "'d outcome option \<Rightarrow> ('d \<Rightarrow> 'e outcome) \<Rightarrow> 'e outcome" where
  "after_wait m f = (case m of None \<Rightarrow> Hang | Some r \<Rightarrow> and_then r f)"

definition apic_set_icr :: "env \<Rightarrow> 'd apic_ops \<Rightarrow> lapic \<Rightarrow> u64 \<Rightarrow> 'd \<Rightarrow> 'd outcome" where
  "apic_set_icr e ops la v d =
     (if is_ver2 la then Done (wrmsr ops 0x830 v d)
      else after_wait (apic_wait e ops la d) (\<lambda>d1.
           and_then (apic_write e ops la 0x310 (ucast (drop_bit 32 v)) d1) (\<lambda>d2.
           and_then (apic_write e ops la 0x300 (ucast v) d2) (\<lambda>d3.
             after_wait (apic_wait e ops la d3) Done))))"

section \<open>The interrupts of the start\<close>

definition TRAMPOLINE_ADDR :: u64 where "TRAMPOLINE_ADDR = 0x8000"
definition STACK_SIZE :: u64 where "STACK_SIZE = 128 * 1024"

definition icr_target :: "bool \<Rightarrow> u64 \<Rightarrow> u64" where
  "icr_target ver2 cpu = (if ver2 then push_bit 32 cpu else push_bit 56 cpu)"

definition init_icr :: "bool \<Rightarrow> u64 \<Rightarrow> u64" where
  "init_icr ver2 cpu = 0x4500 OR icr_target ver2 cpu"

definition start_icr :: "bool \<Rightarrow> u64 \<Rightarrow> u64" where
  "start_icr ver2 cpu = (0x4600 OR (drop_bit 12 TRAMPOLINE_ADDR AND 0xFF)) OR icr_target ver2 cpu"

text \<open>What the hardware makes of the command: the delivery mode, the vector and the destination.\<close>

definition icr_mode :: "u64 \<Rightarrow> u64" where "icr_mode v = drop_bit 8 v AND 7"
definition icr_vector :: "u64 \<Rightarrow> u64" where "icr_vector v = v AND 0xFF"
definition icr_dest :: "bool \<Rightarrow> u64 \<Rightarrow> u64" where
  "icr_dest ver2 v = (if ver2 then drop_bit 32 v else drop_bit 56 v)"

definition apic_id_ok :: "bool \<Rightarrow> u64 \<Rightarrow> bool" where
  "apic_id_ok ver2 cpu \<longleftrightarrow> cpu < (if ver2 then 0x100000000 else 0x100)"

lemma bit_below:
  fixes cpu :: u64
  assumes "cpu < 2 ^ n" and "bit cpu i" and "n < 64"
  shows "i < n"
proof (rule ccontr)
  assume "\<not> i < n"
  then have le: "(2 :: nat) ^ n \<le> 2 ^ i" by simp
  have "(2 :: nat) ^ n < 2 ^ 64" using assms(3) by (intro power_strict_increasing) simp_all
  then have "unat (2 ^ n :: u64) = 2 ^ n" using unat_of_nat_u64 [of "2 ^ n"] by simp
  then have "unat cpu < 2 ^ n" using assms(1) by (simp add: word_less_nat_alt)
  then have "unat cpu < 2 ^ i" using le by (rule less_le_trans)
  then have "unat cpu div 2 ^ i = 0" by (rule div_less)
  moreover have "bit (unat cpu) i" using assms(2) by (simp add: bit_unsigned_iff)
  ultimately show False by (simp add: bit_iff_odd)
qed

lemma icr_target_dest:
  assumes "apic_id_ok ver2 cpu" and "low < 0x10000"
  shows "icr_dest ver2 (low OR icr_target ver2 cpu) = cpu" "icr_mode (low OR icr_target ver2 cpu) = icr_mode low"
    "icr_vector (low OR icr_target ver2 cpu) = icr_vector low"
proof -
  let ?n = "if ver2 then 32 else 56 :: nat" and ?m = "if ver2 then 32 else 8 :: nat"
  have t: "icr_target ver2 cpu = push_bit ?n cpu" "icr_dest ver2 = drop_bit ?n" by (auto simp: icr_target_def icr_dest_def fun_eq_iff)
  have mask3: "(7 :: u64) = mask 3" and mask8: "(0xFF :: u64) = mask 8" by (simp_all add: mask_eq_exp_minus_1)
  have c: "i < ?m" if "bit cpu i" for i
    using bit_below [of cpu ?m i] that assms(1) by (simp add: apic_id_ok_def split: if_splits)
  have l: "i < 16" if "bit low i" for i using bit_below [of low 16 i] that assms(2) by simp
  show "icr_dest ver2 (low OR icr_target ver2 cpu) = cpu"
    unfolding t by (rule bit_word_eqI) (auto simp: bit_simps dest: c l)
  show "icr_mode (low OR icr_target ver2 cpu) = icr_mode low"
    unfolding t icr_mode_def mask3 by (rule bit_word_eqI) (auto simp: bit_simps dest: l)
  show "icr_vector (low OR icr_target ver2 cpu) = icr_vector low"
    unfolding t icr_vector_def mask8 by (rule bit_word_eqI) (auto simp: bit_simps dest: l)
qed

lemma icr_decoded:
  assumes "apic_id_ok ver2 cpu"
  shows "icr_dest ver2 (init_icr ver2 cpu) = cpu" "icr_mode (init_icr ver2 cpu) = 5"
    "icr_dest ver2 (start_icr ver2 cpu) = cpu" "icr_mode (start_icr ver2 cpu) = 6"
    "push_bit 12 (icr_vector (start_icr ver2 cpu)) = TRAMPOLINE_ADDR"
  using icr_target_dest [OF assms, of "0x4500"] icr_target_dest [OF assms, of "0x4608"]
  by (simp_all add: init_icr_def start_icr_def icr_mode_def icr_vector_def TRAMPOLINE_ADDR_def)

text \<open>A device whose registers keep what is written to them.\<close>

definition latching :: "'d apic_ops \<Rightarrow> (u64 \<Rightarrow> 'd \<Rightarrow> u32) \<Rightarrow> bool" where
  "latching ops m \<longleftrightarrow> (\<forall>a d. mmio_read ops a d = (m a d, d)) \<and>
     (\<forall>a b v d. m b (mmio_write ops a v d) = (if b = a then v else m b d)) \<and>
     (\<forall>r v d. rdmsr ops r (wrmsr ops r v d) = v)"

lemma apic_wait_idle:
  assumes "latching ops m" and "virt_add e (base_address la) 0x300 = Some a" and "m a d AND push_bit 12 1 = 0"
  shows "apic_wait e ops la d = Some (Done d)"
  using assms by (simp add: apic_wait.simps apic_read_def unwrap_def latching_def)

lemma halves_joined: "push_bit 32 (ucast (ucast (drop_bit 32 v :: u64) :: u32)) OR ucast (ucast v :: u32) = (v :: u64)"
  by (rule bit_word_eqI) (auto simp: bit_simps)

text \<open>
  The interrupt command register: on a local APIC that is idle, in either of its two access
  modes, writing a command without the status bit ends, and reading the register gives the command
  back; in the memory mode the upper half, with the destination, is written first, since writing the
  lower half sends the interrupt.
\<close>

theorem icr_round_trip:
  assumes "latching ops m" and "virt_add e (base_address la) 0x300 = Some a" and "virt_add e (base_address la) 0x310 = Some b"
    and "a \<noteq> b" and "m a d AND push_bit 12 1 = 0" and "(ucast v :: u32) AND push_bit 12 1 = 0"
  shows "\<exists>d'. apic_set_icr e ops la v d = Done d' \<and> apic_icr e ops la d' = Done (v, d') \<and>
    (\<not> is_ver2 la \<longrightarrow> d' = mmio_write ops a (ucast v) (mmio_write ops b (ucast (drop_bit 32 v)) d))"
proof (cases "is_ver2 la")
  case True
  then show ?thesis using assms(1) by (simp add: apic_set_icr_def apic_icr_def latching_def)
next
  case False
  let ?d = "mmio_write ops a (ucast v) (mmio_write ops b (ucast (drop_bit 32 v)) d)"
  have w: "m a ?d = ucast v" "m b ?d = ucast (drop_bit 32 v)" using assms(1,4) by (simp_all add: latching_def)
  have "apic_set_icr e ops la v d = Done ?d"
    using False apic_wait_idle [OF assms(1,2,5)] apic_wait_idle [OF assms(1,2), of ?d] w assms(2,3,6)
    by (simp add: apic_set_icr_def after_wait_def apic_write_def unwrap_def)
  moreover have "apic_icr e ops la ?d = Done (v, ?d)"
    using False assms(1-3) w by (simp add: apic_icr_def apic_read_def unwrap_def latching_def halves_joined)
  ultimately show ?thesis by blast
qed

definition plain_apic :: "((u64 \<Rightarrow> u32) \<times> (u32 \<Rightarrow> u64)) apic_ops" where
  "plain_apic = \<lparr> mmio_read = (\<lambda>a d. (fst d a, d)), mmio_write = (\<lambda>a v d. ((fst d)(a := v), snd d)),
     rdmsr = (\<lambda>r d. snd d r), wrmsr = (\<lambda>r v d. (fst d, (snd d)(r := v))) \<rparr>"

theorem icr_round_trip_witness:
  "\<exists>d'. apic_set_icr (documented_env True) plain_apic \<lparr> base_address = 0xFEE00000, is_ver2 = False \<rparr> (init_icr False 3)
      (\<lambda>_. 0, \<lambda>_. 0) = Done d' \<and>
    apic_icr (documented_env True) plain_apic \<lparr> base_address = 0xFEE00000, is_ver2 = False \<rparr> d' = Done (0x0300000000004500, d')"
proof -
  have a: "virt_add (documented_env True) 0xFEE00000 n = Some (0xFEE00000 + n)" if "n \<in> {0x300, 0x310}" for n
    using that by (auto simp: documented_env_def sign_extend_47_def canonical_def)
  have "latching plain_apic (\<lambda>a d. fst d a)" by (auto simp: latching_def plain_apic_def)
  moreover have "(0 :: u32) AND push_bit 12 1 = 0" "(ucast (init_icr False 3) :: u32) AND push_bit 12 1 = 0"
    "init_icr False 3 = 0x0300000000004500"
    by (simp_all add: init_icr_def icr_target_def)
  ultimately show ?thesis
    using icr_round_trip [where ops = plain_apic and m = "\<lambda>a d. fst d a" and e = "documented_env True" and v = "init_icr False 3"
      and la = "\<lparr> base_address = 0xFEE00000, is_ver2 = False \<rparr>" and d = "(\<lambda>_. 0, \<lambda>_. 0)" and a = "0xFEE00300" and b = "0xFEE00310"] a
    by auto
qed

section \<open>The processors\<close>

text \<open>
  The words of the mailbox: 0 \<open>ready\<close>, 1 \<open>cpu_id\<close>, 2 \<open>page_table\<close>, 3 \<open>stack_start\<close>, 4 \<open>stack_end\<close> and 5
  \<open>code\<close>. The program counters name the next access.
\<close>

datatype bsp_pc =
    Setup nat nat
  | Clear_ready nat
  | Send_init nat
  | Send_start nat
  | Wait_trampoline nat
  | Wait_ap nat
  | Unwrite
  | Finished

datatype ap_pc =
    Off
  | In_reset
  | Real_mode
  | Paging_on u64
  | Stack_set u64 u64
  | Code_loaded u64 u64 u64
  | In_kernel u64 u64 u64
  | Thread_set u64 u64
  | Waiting u64
  | Released u64

record smp =
  mailbox :: "nat \<Rightarrow> u64"
  ap_ready_flag :: bool
  bsp_ready_flag :: bool
  trampoline_mapped :: bool
  bsp :: bsp_pc
  aps :: "u64 \<Rightarrow> ap_pc"

text \<open>What the boot processor was given: the level 4 table, the address of \<open>kstart_ap\<close>, the stacks.\<close>

record smp_args =
  smp_ver2 :: bool
  smp_root :: u64
  smp_kstart :: u64
  smp_stack :: "u64 \<Rightarrow> u64"

definition setup_word :: "smp_args \<Rightarrow> u64 \<Rightarrow> nat \<Rightarrow> u64" where
  "setup_word A cpu j =
     [0, cpu, smp_root A, smp_stack A cpu, smp_stack A cpu + STACK_SIZE, smp_kstart A] ! j"

definition next_ap :: "u64 list \<Rightarrow> nat \<Rightarrow> bsp_pc" where
  "next_ap ps i = (if i < length ps then Setup i 0 else Unwrite)"

definition smp_start :: "u64 list \<Rightarrow> smp" where
  "smp_start ps = \<lparr> mailbox = (\<lambda>_. 0), ap_ready_flag = False, bsp_ready_flag = False, trampoline_mapped = True,
     bsp = next_ap ps 0, aps = (\<lambda>_. Off) \<rparr>"

text \<open>The processors of the ACPI tables that are started, in their order.\<close>

record processor =
  local_apic_id :: u32
  processor_disabled :: bool

definition multi_core_init :: "processor list \<Rightarrow> smp" where
  "multi_core_init procs = smp_start (map (ucast \<circ> local_apic_id) (filter (Not \<circ> processor_disabled) procs))"

text \<open>The two interrupts, as the destination receives them.\<close>

definition deliver :: "bool \<Rightarrow> u64 \<Rightarrow> smp \<Rightarrow> smp" where
  "deliver ver2 icr s =
     (let x = icr_dest ver2 icr in
      if icr_mode icr = 5 then s\<lparr>aps := (aps s)(x := In_reset)\<rparr>
      else if icr_mode icr = 6 \<and> aps s x = In_reset \<and> push_bit 12 (icr_vector icr) = TRAMPOLINE_ADDR
      then s\<lparr>aps := (aps s)(x := Real_mode)\<rparr>
      else s)"

definition ap_goes :: "u64 \<Rightarrow> ap_pc \<Rightarrow> smp \<Rightarrow> smp" where
  "ap_goes x pc s = s\<lparr>aps := (aps s)(x := pc)\<rparr>"

inductive smp_step :: "smp_args \<Rightarrow> u64 list \<Rightarrow> smp \<Rightarrow> smp \<Rightarrow> bool" for A ps where
  fill: "bsp s = Setup i j \<Longrightarrow>
    smp_step A ps s (s\<lparr>mailbox := (mailbox s)(j := setup_word A (ps ! i) j),
      bsp := if j = 5 then Clear_ready i else Setup i (Suc j)\<rparr>)"
| clear: "bsp s = Clear_ready i \<Longrightarrow> smp_step A ps s (s\<lparr>ap_ready_flag := False, bsp := Send_init i\<rparr>)"
| send_init: "bsp s = Send_init i \<Longrightarrow>
    smp_step A ps s ((deliver (smp_ver2 A) (init_icr (smp_ver2 A) (ps ! i)) s)\<lparr>bsp := Send_start i\<rparr>)"
| send_start: "bsp s = Send_start i \<Longrightarrow>
    smp_step A ps s ((deliver (smp_ver2 A) (start_icr (smp_ver2 A) (ps ! i)) s)\<lparr>bsp := Wait_trampoline i\<rparr>)"
| trampoline_seen: "bsp s = Wait_trampoline i \<Longrightarrow> mailbox s 0 \<noteq> 0 \<Longrightarrow> smp_step A ps s (s\<lparr>bsp := Wait_ap i\<rparr>)"
| ap_seen: "bsp s = Wait_ap i \<Longrightarrow> ap_ready_flag s \<Longrightarrow> smp_step A ps s (s\<lparr>bsp := next_ap ps (Suc i)\<rparr>)"
| unwrite: "bsp s = Unwrite \<Longrightarrow> smp_step A ps s (s\<lparr>trampoline_mapped := False, bsp := Finished\<rparr>)"
| paging: "aps s x = Real_mode \<Longrightarrow> smp_step A ps s (ap_goes x (Paging_on (mailbox s 2)) s)"
| stack: "aps s x = Paging_on t \<Longrightarrow> trampoline_mapped s \<Longrightarrow>
    smp_step A ps s (ap_goes x (Stack_set t (mailbox s 4 - 256)) s)"
| code: "aps s x = Stack_set t sp \<Longrightarrow> trampoline_mapped s \<Longrightarrow>
    smp_step A ps s (ap_goes x (Code_loaded t sp (mailbox s 5)) s)"
| ready: "aps s x = Code_loaded t sp c \<Longrightarrow> trampoline_mapped s \<Longrightarrow>
    smp_step A ps s (ap_goes x (In_kernel t sp c) (s\<lparr>mailbox := (mailbox s)(0 := 1)\<rparr>))"
| thread: "aps s x = In_kernel t sp c \<Longrightarrow> trampoline_mapped s \<Longrightarrow>
    smp_step A ps s (ap_goes x (Thread_set sp (mailbox s 1)) s)"
| announce: "aps s x = Thread_set sp cpu \<Longrightarrow> smp_step A ps s (ap_goes x (Waiting cpu) (s\<lparr>ap_ready_flag := True\<rparr>))"
| release: "aps s x = Waiting cpu \<Longrightarrow> bsp_ready_flag s \<Longrightarrow> smp_step A ps s (ap_goes x (Released cpu) s)"

section \<open>The invariant\<close>

definition current :: "u64 list \<Rightarrow> bsp_pc \<Rightarrow> nat" where
  "current ps b = (case b of Setup i j \<Rightarrow> i | Clear_ready i \<Rightarrow> i | Send_init i \<Rightarrow> i | Send_start i \<Rightarrow> i
     | Wait_trampoline i \<Rightarrow> i | Wait_ap i \<Rightarrow> i | Unwrite \<Rightarrow> length ps | Finished \<Rightarrow> length ps)"

text \<open>How far the mailbox is filled for the processor that is being started.\<close>

definition filled :: "smp_args \<Rightarrow> u64 \<Rightarrow> nat \<Rightarrow> smp \<Rightarrow> bool" where
  "filled A cpu n s \<longleftrightarrow> (\<forall>j < n. mailbox s j = setup_word A cpu j)"

text \<open>The processor that is being started has read what was written for it.\<close>

definition starting :: "smp_args \<Rightarrow> u64 \<Rightarrow> smp \<Rightarrow> bool" where
  "starting A cpu s \<longleftrightarrow> (\<forall>j \<in> {1..<6}. mailbox s j = setup_word A cpu j) \<and>
     (let sp = smp_stack A cpu + STACK_SIZE - 256 in
      case aps s cpu of
        Real_mode \<Rightarrow> mailbox s 0 = 0 \<and> \<not> ap_ready_flag s
      | Paging_on t \<Rightarrow> t = smp_root A \<and> mailbox s 0 = 0 \<and> \<not> ap_ready_flag s
      | Stack_set t p \<Rightarrow> t = smp_root A \<and> p = sp \<and> mailbox s 0 = 0 \<and> \<not> ap_ready_flag s
      | Code_loaded t p c \<Rightarrow> t = smp_root A \<and> p = sp \<and> c = smp_kstart A \<and> mailbox s 0 = 0 \<and> \<not> ap_ready_flag s
      | In_kernel t p c \<Rightarrow> t = smp_root A \<and> p = sp \<and> c = smp_kstart A \<and> mailbox s 0 = 1 \<and> \<not> ap_ready_flag s
      | Thread_set p x \<Rightarrow> p = sp \<and> x = cpu \<and> mailbox s 0 = 1 \<and> \<not> ap_ready_flag s
      | Waiting x \<Rightarrow> x = cpu \<and> mailbox s 0 = 1 \<and> ap_ready_flag s
      | _ \<Rightarrow> False)"

definition smp_ok :: "smp_args \<Rightarrow> u64 list \<Rightarrow> smp \<Rightarrow> bool" where
  "smp_ok A ps s \<longleftrightarrow> \<not> bsp_ready_flag s \<and> trampoline_mapped s = (bsp s \<noteq> Finished) \<and>
     current ps (bsp s) \<le> length ps \<and>
     (\<forall>k < current ps (bsp s). aps s (ps ! k) = Waiting (ps ! k)) \<and>
     (\<forall>x. x \<notin> set (take (Suc (current ps (bsp s))) ps) \<longrightarrow> aps s x = Off) \<and>
     (case bsp s of
        Setup i j \<Rightarrow> i < length ps \<and> j < 6 \<and> aps s (ps ! i) = Off \<and> filled A (ps ! i) j s
      | Clear_ready i \<Rightarrow> i < length ps \<and> aps s (ps ! i) = Off \<and> filled A (ps ! i) 6 s
      | Send_init i \<Rightarrow> i < length ps \<and> aps s (ps ! i) = Off \<and> filled A (ps ! i) 6 s \<and> \<not> ap_ready_flag s
      | Send_start i \<Rightarrow> i < length ps \<and> aps s (ps ! i) = In_reset \<and> filled A (ps ! i) 6 s \<and> \<not> ap_ready_flag s
      | Wait_trampoline i \<Rightarrow> i < length ps \<and> starting A (ps ! i) s
      | Wait_ap i \<Rightarrow> i < length ps \<and> starting A (ps ! i) s \<and> mailbox s 0 = 1
      | Unwrite \<Rightarrow> True
      | Finished \<Rightarrow> True)"

lemma take_Suc_set: "i < length ps \<Longrightarrow> set (take (Suc i) ps) = insert (ps ! i) (set (take i ps))"
  by (simp add: take_Suc_conv_app_nth)

lemma nth_in_take: "k < i \<Longrightarrow> i \<le> length ps \<Longrightarrow> ps ! k \<in> set (take i ps)"
  by (auto simp: in_set_conv_nth)

lemma nth_notin_take: "distinct ps \<Longrightarrow> i < length ps \<Longrightarrow> ps ! i \<notin> set (take i ps)"
  by (auto simp: in_set_conv_nth nth_eq_iff_index_eq)

text \<open>Which processor can take a step: the one that is being started, or none.\<close>

lemma smp_ok_ap:
  assumes "smp_ok A ps s" and "aps s x \<noteq> Off" and "\<And>y. aps s x \<noteq> Waiting y" and "aps s x \<noteq> In_reset"
  obtains i where "i < length ps" "x = ps ! i" "bsp s = Wait_trampoline i \<or> bsp s = Wait_ap i"
    "starting A (ps ! i) s"
proof -
  let ?c = "current ps (bsp s)"
  have "x \<in> set (take (Suc ?c) ps)" using assms(1,2) by (auto simp: smp_ok_def)
  then obtain k where k: "x = ps ! k" "k < length ps" "k \<le> ?c" by (auto simp: in_set_conv_nth)
  then have "k = ?c" using assms(1,3) by (metis le_neq_implies_less smp_ok_def)
  with k(1,2) assms that show thesis
    by (cases "bsp s") (auto simp: smp_ok_def current_def)
qed

lemma starting_cong:
  assumes "mailbox s' = mailbox s" and "ap_ready_flag s' = ap_ready_flag s" and "aps s' cpu = aps s cpu"
  shows "starting A cpu s' = starting A cpu s"
  unfolding starting_def assms ..

lemma smp_ok_start: "smp_ok A ps (smp_start ps)"
  by (auto simp: smp_ok_def smp_start_def next_ap_def current_def filled_def)

lemma setup_word_0: "setup_word A cpu 0 = 0"
  by (simp add: setup_word_def)

text \<open>The steps of the boot processor.\<close>

lemma smp_ok_next:
  assumes "smp_ok A ps s" and "distinct ps" and "bsp s = Wait_ap i" and "ap_ready_flag s"
  shows "smp_ok A ps (s\<lparr>bsp := next_ap ps (Suc i)\<rparr>)"
proof -
  have i: "i < length ps" "starting A (ps ! i) s" using assms(1,3) by (simp_all add: smp_ok_def)
  have w: "aps s (ps ! i) = Waiting (ps ! i)"
    using i(2) assms(4) by (auto simp: starting_def Let_def split: ap_pc.splits)
  have c: "current ps (next_ap ps (Suc i)) = Suc i" using i(1) by (auto simp: next_ap_def current_def)
  have off: "aps s x = Off" if "x \<notin> set (take (Suc i) ps)" for x
    using assms(1,3) that by (simp add: smp_ok_def current_def)
  have off2: "aps s x = Off" if "x \<notin> set (take (Suc (Suc i)) ps)" for x
    using off that by (metis subsetD set_take_subset_set_take le_SucI order_refl)
  have waiting: "aps s (ps ! k) = Waiting (ps ! k)" if "k < Suc i" for k
    using assms(1,3) w that by (cases "k = i") (simp_all add: smp_ok_def current_def)
  have "aps s (ps ! Suc i) = Off" if "Suc i < length ps"
    using off nth_notin_take [OF assms(2) that] by simp
  then show ?thesis
    using assms(1,3) c i(1) off2 waiting by (auto simp: smp_ok_def next_ap_def filled_def)
qed

lemma smp_ok_bsp:
  assumes "smp_ok A ps s" and "distinct ps" and "\<forall>x \<in> set ps. apic_id_ok (smp_ver2 A) x"
  shows "bsp s = Setup i j \<Longrightarrow> smp_ok A ps (s\<lparr>mailbox := (mailbox s)(j := setup_word A (ps ! i) j),
      bsp := if j = 5 then Clear_ready i else Setup i (Suc j)\<rparr>)"
    and "bsp s = Clear_ready i \<Longrightarrow> smp_ok A ps (s\<lparr>ap_ready_flag := False, bsp := Send_init i\<rparr>)"
    and "bsp s = Send_init i \<Longrightarrow>
      smp_ok A ps ((deliver (smp_ver2 A) (init_icr (smp_ver2 A) (ps ! i)) s)\<lparr>bsp := Send_start i\<rparr>)"
    and "bsp s = Send_start i \<Longrightarrow>
      smp_ok A ps ((deliver (smp_ver2 A) (start_icr (smp_ver2 A) (ps ! i)) s)\<lparr>bsp := Wait_trampoline i\<rparr>)"
    and "bsp s = Wait_trampoline i \<Longrightarrow> mailbox s 0 \<noteq> 0 \<Longrightarrow> smp_ok A ps (s\<lparr>bsp := Wait_ap i\<rparr>)"
    and "bsp s = Unwrite \<Longrightarrow> smp_ok A ps (s\<lparr>trampoline_mapped := False, bsp := Finished\<rparr>)"
proof -
  note D = icr_decoded
  show "smp_ok A ps (s\<lparr>mailbox := (mailbox s)(j := setup_word A (ps ! i) j),
      bsp := if j = 5 then Clear_ready i else Setup i (Suc j)\<rparr>)" if b: "bsp s = Setup i j"
    using assms(1) b by (auto simp: smp_ok_def current_def filled_def less_Suc_eq eval_nat_numeral)
  show "smp_ok A ps (s\<lparr>ap_ready_flag := False, bsp := Send_init i\<rparr>)" if b: "bsp s = Clear_ready i"
    using assms(1) b by (auto simp: smp_ok_def current_def filled_def)
  show "smp_ok A ps ((deliver (smp_ver2 A) (init_icr (smp_ver2 A) (ps ! i)) s)\<lparr>bsp := Send_start i\<rparr>)"
    if b: "bsp s = Send_init i"
  proof -
    have i: "i < length ps" "apic_id_ok (smp_ver2 A) (ps ! i)" using assms(1,3) b by (simp_all add: smp_ok_def)
    have "ps ! k \<noteq> ps ! i" if "k < i" for k using that i(1) assms(2) by (simp add: nth_eq_iff_index_eq)
    then show ?thesis using assms(1) b i(1)
      by (auto simp: smp_ok_def current_def filled_def deliver_def D [OF i(2)] take_Suc_set)
  qed
  show "smp_ok A ps ((deliver (smp_ver2 A) (start_icr (smp_ver2 A) (ps ! i)) s)\<lparr>bsp := Wait_trampoline i\<rparr>)"
    if b: "bsp s = Send_start i"
  proof -
    have i: "i < length ps" "apic_id_ok (smp_ver2 A) (ps ! i)" using assms(1,3) b by (simp_all add: smp_ok_def)
    have "ps ! k \<noteq> ps ! i" if "k < i" for k using that i(1) assms(2) by (simp add: nth_eq_iff_index_eq)
    then show ?thesis using assms(1) b i(1)
      by (auto simp: smp_ok_def current_def filled_def deliver_def D [OF i(2)] take_Suc_set starting_def setup_word_0)
  qed
  show "smp_ok A ps (s\<lparr>bsp := Wait_ap i\<rparr>)" if b: "bsp s = Wait_trampoline i" "mailbox s 0 \<noteq> 0"
  proof -
    have "mailbox s 0 = 1"
      using assms(1) b by (auto simp: smp_ok_def starting_def Let_def split: ap_pc.splits)
    then show ?thesis using assms(1) b
      by (auto simp: smp_ok_def current_def starting_cong [of "s\<lparr>bsp := Wait_ap i\<rparr>" s])
  qed
  show "smp_ok A ps (s\<lparr>trampoline_mapped := False, bsp := Finished\<rparr>)" if b: "bsp s = Unwrite"
    using assms(1) b by (auto simp: smp_ok_def current_def)
qed

text \<open>The steps of a started processor.\<close>

lemma smp_ok_moved:
  assumes "smp_ok A ps s" and "distinct ps" and "i < length ps"
    and "bsp s = Wait_trampoline i \<or> bsp s = Wait_ap i" and "starting A (ps ! i) s'"
    and "bsp s' = bsp s" "bsp_ready_flag s' = bsp_ready_flag s" "trampoline_mapped s' = trampoline_mapped s"
    and "\<And>y. y \<noteq> ps ! i \<Longrightarrow> aps s' y = aps s y" and "mailbox s 0 = 1 \<Longrightarrow> mailbox s' 0 = 1"
  shows "smp_ok A ps s'"
proof -
  have c: "current ps (bsp s) = i" using assms(4) by (auto simp: current_def)
  have "aps s' (ps ! k) = Waiting (ps ! k)" if "k < i" for k
  proof -
    have "ps ! k \<noteq> ps ! i" using that assms(2,3) by (simp add: nth_eq_iff_index_eq)
    then show ?thesis using assms(1,9) that c by (simp add: smp_ok_def)
  qed
  moreover have "aps s' x = Off" if "x \<notin> set (take (Suc i) ps)" for x
  proof -
    have "x \<noteq> ps ! i" using that nth_in_take [of i "Suc i" ps] assms(3) by auto
    then show ?thesis using assms(1,9) that c by (simp add: smp_ok_def)
  qed
  ultimately have rest: "\<forall>k < i. aps s' (ps ! k) = Waiting (ps ! k)"
    "\<forall>x. x \<notin> set (take (Suc i) ps) \<longrightarrow> aps s' x = Off" by blast+
  from assms(4) show ?thesis
  proof
    assume b: "bsp s = Wait_trampoline i"
    show ?thesis using rest assms(1,3,5-8) by (simp add: smp_ok_def current_def b)
  next
    assume b: "bsp s = Wait_ap i"
    show ?thesis using rest assms(1,3,5-8,10) by (simp add: smp_ok_def current_def b)
  qed
qed

lemma smp_ok_ap_step:
  assumes "smp_ok A ps s" and "distinct ps"
    and "aps s x \<noteq> Off" "\<And>y. aps s x \<noteq> Waiting y" "aps s x \<noteq> In_reset"
    and "\<And>i. starting A (ps ! i) s \<Longrightarrow> x = ps ! i \<Longrightarrow> starting A x s' \<and> (mailbox s 0 = 1 \<longrightarrow> mailbox s' 0 = 1)"
    and "bsp s' = bsp s" "bsp_ready_flag s' = bsp_ready_flag s" "trampoline_mapped s' = trampoline_mapped s"
    and "\<And>y. y \<noteq> x \<Longrightarrow> aps s' y = aps s y"
  shows "smp_ok A ps s'"
proof -
  obtain i where i: "i < length ps" "x = ps ! i" "bsp s = Wait_trampoline i \<or> bsp s = Wait_ap i"
    "starting A (ps ! i) s"
    using smp_ok_ap [OF assms(1,3-5)] .
  show ?thesis
    by (rule smp_ok_moved [OF assms(1,2) i(1,3)]) (use assms(6-10) i in auto)
qed

lemma smp_ok_step:
  assumes "smp_step A ps s s'" and "smp_ok A ps s" and "distinct ps" and "\<forall>x \<in> set ps. apic_id_ok (smp_ver2 A) x"
  shows "smp_ok A ps s'"
  using assms(1)
proof cases
  case (ap_seen i)
  then show ?thesis using smp_ok_next [OF assms(2,3)] by simp
next
  case (paging x)
  show ?thesis
    by (rule smp_ok_ap_step [OF assms(2,3), of x]) (use paging in \<open>auto simp: ap_goes_def starting_def Let_def setup_word_def\<close>)
next
  case (stack x t)
  show ?thesis
    by (rule smp_ok_ap_step [OF assms(2,3), of x]) (use stack in \<open>auto simp: ap_goes_def starting_def Let_def setup_word_def\<close>)
next
  case (code x t sp)
  show ?thesis
    by (rule smp_ok_ap_step [OF assms(2,3), of x]) (use code in \<open>auto simp: ap_goes_def starting_def Let_def setup_word_def\<close>)
next
  case (ready x t sp c)
  show ?thesis
    by (rule smp_ok_ap_step [OF assms(2,3), of x]) (use ready in \<open>auto simp: ap_goes_def starting_def Let_def setup_word_def\<close>)
next
  case (thread x t sp c)
  show ?thesis
    by (rule smp_ok_ap_step [OF assms(2,3), of x]) (use thread in \<open>auto simp: ap_goes_def starting_def Let_def setup_word_def\<close>)
next
  case (announce x sp cpu)
  show ?thesis
    by (rule smp_ok_ap_step [OF assms(2,3), of x]) (use announce in \<open>auto simp: ap_goes_def starting_def Let_def setup_word_def\<close>)
next
  case (release x cpu)
  then show ?thesis using assms(2) by (simp add: smp_ok_def)
qed (use smp_ok_bsp [OF assms(2-4)] in auto)

lemma smp_ok_steps:
  assumes "(smp_step A ps)\<^sup>*\<^sup>* (smp_start ps) s" and "distinct ps" and "\<forall>x \<in> set ps. apic_id_ok (smp_ver2 A) x"
  shows "smp_ok A ps s"
  using assms(1) by induction (auto simp: smp_ok_start intro: smp_ok_step [OF _ _ assms(2,3)])

lemma smp_ok_state:
  assumes "smp_ok A ps s"
  shows "aps s x \<in> {Off, In_reset, Real_mode, Paging_on (smp_root A), Stack_set (smp_root A) (smp_stack A x + STACK_SIZE - 256),
     Code_loaded (smp_root A) (smp_stack A x + STACK_SIZE - 256) (smp_kstart A),
     In_kernel (smp_root A) (smp_stack A x + STACK_SIZE - 256) (smp_kstart A),
     Thread_set (smp_stack A x + STACK_SIZE - 256) x, Waiting x}"
proof (cases "\<exists>y. aps s x = Waiting y \<or> aps s x = Off \<or> aps s x = In_reset")
  case False
  obtain i where "x = ps ! i" "starting A (ps ! i) s"
    by (rule smp_ok_ap [OF assms, of x]) (use False in auto)
  then show ?thesis by (cases "aps s x") (auto simp: starting_def Let_def)
next
  case True
  then show ?thesis
  proof (elim exE disjE)
    fix y assume w: "aps s x = Waiting y"
    have "x \<in> set (take (Suc (current ps (bsp s))) ps)" using assms w by (auto simp: smp_ok_def)
    then obtain k where k: "x = ps ! k" "k \<le> current ps (bsp s)" "k < length ps" by (auto simp: in_set_conv_nth)
    show ?thesis
    proof (cases "k = current ps (bsp s)")
      case True
      with k w assms show ?thesis
        by (cases "bsp s") (auto simp: smp_ok_def current_def starting_def Let_def)
    qed (use k w assms in \<open>auto simp: smp_ok_def\<close>)
  qed simp_all
qed

section \<open>The end of the start\<close>

text \<open>How many steps a processor and the boot processor have before them.\<close>

definition ap_left :: "ap_pc \<Rightarrow> nat" where
  "ap_left pc = (case pc of Off \<Rightarrow> 6 | In_reset \<Rightarrow> 6 | Real_mode \<Rightarrow> 6 | Paging_on t \<Rightarrow> 5 | Stack_set t p \<Rightarrow> 4
     | Code_loaded t p c \<Rightarrow> 3 | In_kernel t p c \<Rightarrow> 2 | Thread_set p x \<Rightarrow> 1 | Waiting x \<Rightarrow> 0 | Released x \<Rightarrow> 0)"

definition bsp_left :: "nat \<Rightarrow> bsp_pc \<Rightarrow> nat" where
  "bsp_left n b = (case b of Setup i j \<Rightarrow> 11 * (n - Suc i) + (12 - j) | Clear_ready i \<Rightarrow> 11 * (n - Suc i) + 6
     | Send_init i \<Rightarrow> 11 * (n - Suc i) + 5 | Send_start i \<Rightarrow> 11 * (n - Suc i) + 4
     | Wait_trampoline i \<Rightarrow> 11 * (n - Suc i) + 3 | Wait_ap i \<Rightarrow> 11 * (n - Suc i) + 2
     | Unwrite \<Rightarrow> 1 | Finished \<Rightarrow> 0)"

definition smp_left :: "u64 list \<Rightarrow> smp \<Rightarrow> nat" where
  "smp_left ps s = bsp_left (length ps) (bsp s) + (\<Sum>x \<in> set ps. ap_left (aps s x))"

lemma ap_left_sum:
  assumes "x \<in> set ps" and "ap_left pc < ap_left (f x)"
  shows "(\<Sum>y \<in> set ps. ap_left ((f(x := pc)) y)) < (\<Sum>y \<in> set ps. ap_left (f y))"
proof (rule sum_strict_mono_ex1)
  show "\<forall>y \<in> set ps. ap_left ((f(x := pc)) y) \<le> ap_left (f y)" using assms(2) by simp
  show "\<exists>y \<in> set ps. ap_left ((f(x := pc)) y) < ap_left (f y)" using assms by auto
qed simp

lemma ap_left_same:
  assumes "ap_left pc = ap_left (f x)"
  shows "(\<Sum>y \<in> S. ap_left ((f(x := pc)) y)) = (\<Sum>y \<in> S. ap_left (f y))"
  by (rule sum.cong) (use assms in auto)

lemma smp_left_ap:
  assumes "smp_ok A ps s" and "aps s x \<noteq> Off" "\<And>y. aps s x \<noteq> Waiting y" "aps s x \<noteq> In_reset"
    and "ap_left pc < ap_left (aps s x)" and "bsp s' = bsp s" "aps s' = (aps s)(x := pc)"
  shows "smp_left ps s' < smp_left ps s"
proof -
  have "x \<in> set ps" by (rule smp_ok_ap [OF assms(1-4)]) auto
  then show ?thesis using ap_left_sum [of x ps pc "aps s"] assms(5-7) by (simp add: smp_left_def)
qed

lemma smp_left_deliver:
  assumes "smp_ok A ps s" and "bsp s = Send_init i \<or> bsp s = Send_start i" and "icr_dest v icr = ps ! i"
  shows "(\<Sum>y \<in> set ps. ap_left (aps (deliver v icr s) y)) = (\<Sum>y \<in> set ps. ap_left (aps s y))"
proof -
  have "ap_left (aps s (ps ! i)) = 6" using assms(1,2) by (auto simp: smp_ok_def ap_left_def)
  moreover have "ap_left In_reset = 6" "ap_left Real_mode = 6" by (simp_all add: ap_left_def)
  ultimately show ?thesis using ap_left_same [of In_reset "aps s" "ps ! i"] ap_left_same [of Real_mode "aps s" "ps ! i"]
    by (simp add: deliver_def assms(3) Let_def del: fun_upd_apply)
qed

lemma smp_left_step:
  assumes "smp_step A ps s s'" and "smp_ok A ps s" and "\<forall>x \<in> set ps. apic_id_ok (smp_ver2 A) x"
  shows "smp_left ps s' < smp_left ps s"
  using assms(1)
proof cases
  case (fill i j)
  then show ?thesis using assms(2) by (auto simp: smp_left_def bsp_left_def smp_ok_def)
next
  case (send_init i)
  then have "i < length ps" using assms(2) by (simp add: smp_ok_def)
  then show ?thesis using send_init smp_left_deliver [OF assms(2), of i] assms(3) icr_decoded
    by (simp add: smp_left_def bsp_left_def)
next
  case (send_start i)
  then have "i < length ps" using assms(2) by (simp add: smp_ok_def)
  then show ?thesis using send_start smp_left_deliver [OF assms(2), of i] assms(3) icr_decoded
    by (simp add: smp_left_def bsp_left_def)
next
  case (ap_seen i)
  then have "i < length ps" using assms(2) by (simp add: smp_ok_def)
  then show ?thesis using ap_seen by (auto simp: smp_left_def bsp_left_def next_ap_def)
next
  case (paging x)
  show ?thesis by (rule smp_left_ap [OF assms(2), of x "Paging_on (mailbox s 2)"]) (use paging in \<open>auto simp: ap_goes_def ap_left_def\<close>)
next
  case (stack x t)
  show ?thesis by (rule smp_left_ap [OF assms(2), of x "Stack_set t (mailbox s 4 - 256)"]) (use stack in \<open>auto simp: ap_goes_def ap_left_def\<close>)
next
  case (code x t sp)
  show ?thesis by (rule smp_left_ap [OF assms(2), of x "Code_loaded t sp (mailbox s 5)"]) (use code in \<open>auto simp: ap_goes_def ap_left_def\<close>)
next
  case (ready x t sp c)
  show ?thesis by (rule smp_left_ap [OF assms(2), of x "In_kernel t sp c"]) (use ready in \<open>auto simp: ap_goes_def ap_left_def\<close>)
next
  case (thread x t sp c)
  show ?thesis by (rule smp_left_ap [OF assms(2), of x "Thread_set sp (mailbox s 1)"]) (use thread in \<open>auto simp: ap_goes_def ap_left_def\<close>)
next
  case (announce x sp cpu)
  show ?thesis by (rule smp_left_ap [OF assms(2), of x "Waiting cpu"]) (use announce in \<open>auto simp: ap_goes_def ap_left_def\<close>)
next
  case (release x cpu)
  then show ?thesis using assms(2) by (simp add: smp_ok_def)
qed (simp_all add: smp_left_def bsp_left_def)

lemma smp_start_left: "distinct ps \<Longrightarrow> smp_left ps (smp_start ps) = 17 * length ps + 1"
proof -
  assume "distinct ps"
  then have "(\<Sum>x \<in> set ps. ap_left Off) = 6 * length ps" by (simp add: distinct_card ap_left_def)
  moreover have "bsp_left (length ps) (next_ap ps 0) = 11 * length ps + 1"
    by (cases ps) (simp_all add: bsp_left_def next_ap_def)
  ultimately show ?thesis unfolding smp_left_def smp_start_def by simp
qed

lemma smp_ok_moving:
  assumes "smp_ok A ps s" and "aps s x \<notin> {Off, Waiting x}"
  shows "current ps (bsp s) < length ps \<and> x = ps ! current ps (bsp s)"
proof -
  have "x \<in> set (take (Suc (current ps (bsp s))) ps)" using assms by (auto simp: smp_ok_def)
  then obtain k where k: "x = ps ! k" "k \<le> current ps (bsp s)" "k < length ps" by (auto simp: in_set_conv_nth)
  then show ?thesis using assms by (cases "k = current ps (bsp s)") (auto simp: smp_ok_def)
qed

lemma smp_progress:
  assumes "smp_ok A ps s" and "bsp s \<noteq> Finished"
  shows "\<exists>s'. smp_step A ps s s'"
proof -
  have m: "trampoline_mapped s" using assms by (simp add: smp_ok_def)
  have run: "\<exists>s'. smp_step A ps s s'" if "aps s x \<in> {Real_mode, Paging_on t, Stack_set t p, Code_loaded t p c, In_kernel t p c, Thread_set p y}"
    for x t p c y
    using that m by (auto intro: smp_step.intros)
  show ?thesis
  proof (cases "bsp s")
    case (Wait_trampoline i)
    then have "starting A (ps ! i) s" using assms(1) by (simp add: smp_ok_def)
    then show ?thesis using run [of "ps ! i"] trampoline_seen [OF Wait_trampoline, of A ps]
      by (cases "aps s (ps ! i)") (auto simp: starting_def Let_def)
  next
    case (Wait_ap i)
    then have "starting A (ps ! i) s" using assms(1) by (simp add: smp_ok_def)
    then show ?thesis using run [of "ps ! i"] ap_seen [OF Wait_ap, of A ps]
      by (cases "aps s (ps ! i)") (auto simp: starting_def Let_def)
  qed (use assms(2) in \<open>auto intro: smp_step.intros\<close>)
qed

lemma smp_run_left:
  assumes "(smp_step A ps ^^ k) (smp_start ps) s" and "distinct ps" and "\<forall>x \<in> set ps. apic_id_ok (smp_ver2 A) x"
  shows "smp_ok A ps s \<and> k + smp_left ps s \<le> 17 * length ps + 1"
  using assms(1)
proof (induction k arbitrary: s)
  case 0
  then show ?case using smp_start_left [OF assms(2)] smp_ok_start by auto
next
  case (Suc k)
  then obtain u where u: "(smp_step A ps ^^ k) (smp_start ps) u" "smp_step A ps u s" by auto
  then show ?case using Suc.IH [OF u(1)] smp_ok_step [OF u(2) _ assms(2,3)] smp_left_step [OF u(2) _ assms(3)] by fastforce
qed

lemma smp_run_finishes:
  assumes "smp_ok A ps s" and "distinct ps" and "\<forall>x \<in> set ps. apic_id_ok (smp_ver2 A) x"
  shows "\<exists>k t. (smp_step A ps ^^ k) s t \<and> (\<nexists>s'. smp_step A ps t s')"
  using assms(1)
proof (induction "smp_left ps s" arbitrary: s rule: less_induct)
  case less
  show ?case
  proof (cases "\<exists>u. smp_step A ps s u")
    case True
    then obtain u where u: "smp_step A ps s u" by blast
    then obtain k t where "(smp_step A ps ^^ k) u t" "\<nexists>s'. smp_step A ps t s'"
      using less smp_left_step [OF u _ assms(3)] smp_ok_step [OF u _ assms(2,3)] by blast
    then show ?thesis using relpowp_Suc_I2 [of "smp_step A ps", OF u] by blast
  qed (auto intro: exI [of _ 0])
qed

section \<open>What the start of the processors promises\<close>


definition two_processors :: smp_args where
  "two_processors = \<lparr> smp_ver2 = False, smp_root = 0x1000, smp_kstart = 0xFFFF800000000000, smp_stack = (\<lambda>x. x * 0x100000) \<rparr>"





end
