(* ===== verification/Boot.thy ===== *)
theory Boot
  imports System_Runs Thread_Data Heap_Init Interrupts Multi_Core
begin

text \<open>
  The start of the kernel (\<open>kernel_main\<close> in \<open>main.rs\<close>): the check of the boot information
  (\<open>arch/x86_64/consts.rs\<close>), the set-up of every component in the order of the code, the local APIC
  from the ACPI tables (\<open>arch/x86_64/acpi.rs\<close>), the system call registers (\<open>setup_syscalls\<close>) and the
  first two tasks. The messages in between are left out.
\<close>

section \<open>The boot information\<close>

text \<open>The frame buffer is given with the address of its bytes.\<close>

record boot_info =
  bi_framebuffer :: "(u64 \<times> frame_info \<times> u8 list) option"
  bi_physical_memory_offset :: "u64 option"
  bi_memory_regions :: "memory_region list"
  bi_rsdp_addr :: "u64 option"

definition check_boot_info :: "boot_info \<Rightarrow> unit outcome" where
  "check_boot_info bi =
     and_then (unwrap (bi_framebuffer bi)) (\<lambda>(a, fi, buf).
       if a \<noteq> KERNEL_BOOTDATA_FRAMEBUFFER then Panic
       else if bi_physical_memory_offset bi \<noteq> Some KERNEL_PHYSICAL_MEMORY_START then Panic
       else Done ())"

text \<open>
  The platform information the crate \<open>acpi\<close> finds, if it does: the address of the local APIC, or None
  for another interrupt model.
\<close>

definition acpi_init ::
    "env \<Rightarrow> 'd apic_ops \<Rightarrow> (u64 \<Rightarrow> u64 option option) \<Rightarrow> (bool \<times> bool) option \<Rightarrow> u64 \<Rightarrow> 'd \<Rightarrow> (lapic \<times> 'd) outcome" where
  "acpi_init e ops platform features rsdp d =
     and_then (unwrap (platform rsdp)) (\<lambda>model.
     case model of None \<Rightarrow> Panic
     | Some local_apic_address \<Rightarrow>
         and_then (add_chk (overflow_checks e) physical_memory_offset local_apic_address) (\<lambda>a.
         and_then (unwrap (virt_new e a)) (\<lambda>base.
         and_then (apic_init e ops features base d) (\<lambda>(la, d1).
         and_then (unwrap la) (\<lambda>l. Done (l, d1))))))"

section \<open>The way to the executor\<close>

record ('m, 'h, 'g, 'd) platform =
  p_env :: env
  p_font :: "u8 list list"
  p_ptes :: "'m pte_ops"
  p_boot_map :: "'m boot_map"
  p_ops :: "'m mem_ops"
  p_tasks :: "'m task_ops"
  p_fallback :: "'h fallback"
  p_gdt :: "'g gdt_ops"
  p_statics :: table_statics
  p_sections :: tls_symbols
  p_apic :: "'d apic_ops"
  p_acpi :: "u64 \<Rightarrow> u64 option option"
  p_features :: "(bool \<times> bool) option"
  p_syscall_entry :: u64
  p_start_initproc :: u64
  p_init_dir :: init_dir

record ('m, 'h, 'g, 'd) machine =
  m_tables :: "'g processor_tables"
  m_frames :: "'m frames"
  m_bytes :: bytes
  m_heap :: "'h fixed_heap"
  m_kernel :: table_kernel
  m_apic :: 'd
  m_console :: "vga_writer option"
  m_fs_base :: u64
  m_lstar :: u64
  m_efer :: u64

definition setup_syscalls :: "env \<Rightarrow> u64 \<Rightarrow> ('m, 'h, 'g, 'd) machine \<Rightarrow> ('m, 'h, 'g, 'd) machine outcome" where
  "setup_syscalls e entry s =
     and_then (unwrap (virt_new e entry)) (\<lambda>a. Done (s\<lparr>m_lstar := a, m_efer := m_efer s OR 1\<rparr>))"

text \<open>The tables of the boot loader are made fit for the kernel.\<close>

definition clean_tables :: "('m, 'h, 'g, 'd) platform \<Rightarrow> u64 \<Rightarrow> 'm \<Rightarrow> 'm outcome" where
  "clean_tables B root m =
     and_then (fix_bootloader_pollution (p_env B) (p_ptes B) root m) (globalize_kernelspace (p_env B) (p_ptes B) root)"

text \<open>The heap, and the thread data of processor 0 in it; an endless loop is \<open>Hang\<close>.\<close>

definition make_memory ::
    "('m, 'h, 'g, 'd) platform \<Rightarrow> memory_region list \<Rightarrow> ('m, 'h, 'g, 'd) machine \<Rightarrow> ('m, 'h, 'g, 'd) machine outcome" where
  "make_memory B regions s =
     (let e = p_env B; root = c_cr3 (core (m_kernel s)) in
      and_then (clean_tables B root (hw (m_frames s))) (\<lambda>m.
      case init_heap e (p_fallback B) (p_boot_map B) regions root (usable_frames regions, m) (m_heap s) of
        None \<Rightarrow> Hang
      | Some res \<Rightarrow> and_then res (\<lambda>(heap, fr, it).
          and_then (setup_thread_data e (p_ops B) (p_sections B) root 0 fr (m_bytes s)) (\<lambda>(fs, fr1, bytes).
            Done (s\<lparr>m_heap := heap, m_frames := fr1, m_bytes := bytes, m_fs_base := fs\<rparr>)))))"

text \<open>What comes before the heap: the console and the first descriptor tables.\<close>

definition early_init :: "('m, 'h, 'g, 'd) platform \<Rightarrow> boot_info \<Rightarrow> ('m, 'h, 'g, 'd) machine \<Rightarrow> ('m, 'h, 'g, 'd) machine outcome" where
  "early_init B bi s =
     and_then (check_boot_info bi) (\<lambda>_.
     and_then (unwrap (bi_framebuffer bi)) (\<lambda>(a, fi, buf).
     and_then (init_vga_framebuffer (overflow_checks (p_env B)) (p_font B) fi buf) (\<lambda>v.
     and_then (kernel_init (p_gdt B) (p_statics B) (m_tables s)) (\<lambda>t.
       Done (s\<lparr>m_console := Some v, m_tables := t\<rparr>)))))"

text \<open>\<open>kernel_main\<close> up to the loop of \<open>run_executor\<close>.\<close>

definition kernel_main :: "('m, 'h, 'g, 'd) platform \<Rightarrow> boot_info \<Rightarrow> ('m, 'h, 'g, 'd) machine \<Rightarrow> ('m, 'h, 'g, 'd) machine outcome" where
  "kernel_main B bi s =
     (let e = p_env B in
      and_then (early_init B bi s) (\<lambda>s1.
      and_then (make_memory B (bi_memory_regions bi) s1) (\<lambda>s2.
      and_then (gdt_init e (p_gdt B) (p_statics B) (m_tables s2)) (\<lambda>t.
      and_then (unwrap (bi_rsdp_addr bi)) (\<lambda>rsdp.
      and_then (acpi_init e (p_apic B) (p_acpi B) (p_features B) rsdp (m_apic s2)) (\<lambda>(la, d).
      and_then (setup_syscalls e (p_syscall_entry B) (s2\<lparr>m_tables := t, m_apic := d\<rparr>)) (\<lambda>s3.
      and_then (boot_tasks e (p_ops B) (p_ptes B) (p_tasks B) (p_init_dir B) (p_start_initproc B) (m_kernel s3) (m_frames s3))
        (\<lambda>(k, fr). Done (s3\<lparr>m_kernel := k, m_frames := fr\<rparr>)))))))))"

section \<open>What the start establishes\<close>

lemma clean_tables_Done:
  assumes "pte_ok (p_ptes B)" and "bitflags_ok (p_env B)" and "clean_tables B root m = Done m'"
    and "get_page_table (p_env B) root = Done t" and "va < lower_end"
  shows "0 \<notin> fst ` set_option (leaf_of 3 (p_env B) (p_ptes B) va (entry_slot t 3 va) m')"
proof -
  from assms(3) obtain m1 where m: "fix_bootloader_pollution (p_env B) (p_ptes B) root m = Done m1"
    "globalize_kernelspace (p_env B) (p_ptes B) root m1 = Done m'"
    by (auto simp: clean_tables_def and_then_eq_Done)
  have "only_huge (p_env B) (p_ptes B) (leaf_of 3 (p_env B) (p_ptes B) va (entry_slot t 3 va) m1)"
    using clean_up_clears [OF assms(1,2) m(1) assms(4)] assms(5) by blast
  then have "0 \<notin> fst ` set_option (leaf_of 3 (p_env B) (p_ptes B) va (entry_slot t 3 va) m1)"
    by (auto simp: only_huge_def)
  moreover have "marked (p_ptes B) m1 m'" using upper_half_global [OF assms(1,2) m(2) assms(4)] by blast
  ultimately show ?thesis
    using leaf_of_marked [OF assms(2), of "p_ptes B" m1 m' 3 va "entry_slot t 3 va"]
    by (metis option.set_map)
qed

section \<open>Pieces that come back\<close>

named_theorems no_hang \<open>pieces of code that come back or panic\<close>

lemma and_then_eq_Hang [no_hang]: "and_then m f = Hang \<longleftrightarrow> m = Hang \<or> (\<exists>x. m = Done x \<and> f x = Hang)"
  by (cases m) simp_all

lemma basic_no_hang [no_hang]:
  "unwrap y \<noteq> Hang" "add_chk oc a b \<noteq> Hang" "sub_chk oc a b \<noteq> Hang" "mul_chk oc a b \<noteq> Hang" "usz oc n \<noteq> Hang"
  "usz_minus oc n k \<noteq> Hang" "color_bytes f \<noteq> Hang" "get_page_table e r \<noteq> Hang" "sub_table e P v \<noteq> Hang"
  by (simp_all add: unwrap_def add_chk_def sub_chk_def mul_chk_def usz_def usz_minus_def color_bytes_def get_page_table_def
      sub_table_def split: option.split pixel_format.split)

subsection \<open>Page tables and frames\<close>

lemma for_each_no_hang: "(\<And>x s. f x s \<noteq> Hang) \<Longrightarrow> for_each f xs s \<noteq> Hang"
  by (induction xs arbitrary: s) (auto simp: no_hang)

lemma leaf_no_hang: "clear_leaf n e P a m \<noteq> Hang" "globalize_leaf n e P a m \<noteq> Hang"
  by (induction n arbitrary: a m) (auto simp: Let_def no_hang for_each_no_hang)

lemma clean_tables_no_hang [no_hang]: "clean_tables B r m \<noteq> Hang"
  by (simp add: clean_tables_def fix_bootloader_pollution_def globalize_kernelspace_def no_hang for_each_no_hang leaf_no_hang)

lemma check_region_virt_no_hang [no_hang]: "check_region_virt e p v rs \<noteq> Hang"
  by (induction rs) (auto simp: no_hang)

lemma allocate_frame_no_hang [no_hang]: "allocate_frame e ops r s \<noteq> Hang" "boot_allocate_frame e it \<noteq> Hang"
  by (auto simp: allocate_frame_def boot_allocate_frame_def no_hang split: prod.splits option.splits list.splits)

text \<open>The crate \<open>x86_64\<close> comes back from a mapping when the allocator it is given does.\<close>

definition mapper_returns :: "'m mem_ops \<Rightarrow> bool" where
  "mapper_returns ops \<longleftrightarrow> (\<forall>alloc t p f fl s. (\<forall>s. alloc s \<noteq> Hang) \<longrightarrow> map_to ops alloc t p f fl s \<noteq> Hang)"

definition boot_mapper_returns :: "'m boot_map \<Rightarrow> bool" where
  "boot_mapper_returns mp \<longleftrightarrow> (\<forall>alloc t p f fl s. (\<forall>it. alloc it \<noteq> Hang) \<longrightarrow> mp alloc t p f fl s \<noteq> Hang)"

lemma map_to_no_hang: "mapper_returns ops \<Longrightarrow> map_to ops (allocate_frame e ops r) t p f fl s \<noteq> Hang"
  by (simp add: mapper_returns_def no_hang)

lemma map_range_loop_no_hang: "mapper_returns ops \<Longrightarrow> map_range_loop e ops r t fl ps s \<noteq> Hang"
  by (induction ps arbitrary: s) (auto simp: no_hang map_to_no_hang)

lemma mount_stack_pages_no_hang: "mapper_returns ops \<Longrightarrow> mount_stack_pages e ops T root kt t up hps s \<noteq> Hang"
  by (induction hps arbitrary: up s) (auto simp: no_hang map_to_no_hang)

lemma setup_thread_data_no_hang: "mapper_returns ops \<Longrightarrow> setup_thread_data e ops L r cpu s m \<noteq> Hang"
  by (auto simp: setup_thread_data_def allocate_map_range_def Let_def no_hang map_range_loop_no_hang)

subsection \<open>Console, descriptor tables, local APIC\<close>

lemma put_no_hang [no_hang]: "put_pixel oc i cs z buf \<noteq> Hang" "put_row oc bpp rs i buf \<noteq> Hang"
proof -
  show p: "put_pixel oc i cs z buf \<noteq> Hang" for i cs z buf
    by (induction cs arbitrary: z buf) (auto simp: no_hang)
  show "put_row oc bpp rs i buf \<noteq> Hang"
    by (induction rs arbitrary: i buf) (auto simp: no_hang p)
qed

lemma put_rows_no_hang [no_hang]: "put_rows oc bpp (line_rest oc fi n) rs i buf \<noteq> Hang"
  by (induction rs arbitrary: i buf) (auto simp: no_hang line_rest_def)

lemma write_byte_no_hang [no_hang]: "write_byte oc font b v \<noteq> Hang"
  by (auto simp: write_byte_def new_line_def clean_row_def fill_rect_def splat_char_def advance_char_def Let_def no_hang)

lemma init_console_no_hang [no_hang]: "init_vga_framebuffer oc font fi buf \<noteq> Hang"
proof -
  have "write_string oc font bs v \<noteq> Hang" for bs v by (induction bs arbitrary: v) (auto simp: no_hang)
  then show ?thesis by (simp add: init_vga_framebuffer_def clean_screen_def fill_rect_def Let_def no_hang)
qed

lemma tables_no_hang [no_hang]: "kernel_init G S t \<noteq> Hang" "gdt_init e G S t \<noteq> Hang"
  by (auto simp: kernel_init_def init_prepaging_def global_gdt_def gdt_init_def init_gdt_def init_tss_def stack_top_def Let_def
      no_hang)

lemma acpi_no_hang [no_hang]: "acpi_init e ops pl f r d \<noteq> Hang"
  by (auto simp: acpi_init_def apic_init_def apic_init_ap_def apic_id_def apic_version_def apic_read_def apic_write_def Let_def
      no_hang split: option.splits)

subsection \<open>The heap and the first tasks\<close>

lemma heap_pages_no_hang:
  assumes "boot_mapper_ok mp view e" and "boot_mapper_returns mp"
  shows "heap_pages e mp table page n s \<noteq> Some Hang"
proof (induction "length (fst s)" arbitrary: page n s rule: less_induct)
  case less
  have one: "allocate_one e mp table page s \<noteq> Hang"
    using assms(2) by (auto simp: allocate_one_def boot_mapper_returns_def no_hang split: option.splits)
  show ?case
  proof (cases "allocate_one e mp table page s")
    case (Done x)
    obtain r s1 where x: "x = (r, s1)" by (cases x)
    show ?thesis
    proof (cases r)
      case (Inr page')
      from allocate_one_shorter [OF assms(1) Done [unfolded x Inr]] less
      have "heap_pages e mp table page' n' s1 \<noteq> Some Hang" for n' by simp
      then show ?thesis
        by (cases "add_chk (overflow_checks e) n 1") (simp_all add: heap_pages.simps [of e mp table page n] Done x Inr no_hang)
    qed (simp add: heap_pages.simps [of e mp table page n] Done x)
  qed (use one in \<open>simp_all add: heap_pages.simps [of e mp table page n]\<close>)
qed

lemma heap_frames_new_no_hang [no_hang]: "heap_frames_new oc rs \<noteq> Hang"
proof -
  have "foldr (\<lambda>x acc. and_then (sub_chk oc (mr_end x) (mr_start x)) (\<lambda>n. and_then acc (\<lambda>rs. Done (g x n rs)))) xs (Done []) \<noteq> Hang"
    for xs g by (induction xs) (auto simp: no_hang)
  then show ?thesis unfolding heap_frames_new_def .
qed

lemma make_memory_no_hang:
  assumes "boot_mapper_ok (p_boot_map B) view (p_env B)" and "boot_mapper_returns (p_boot_map B)" and "mapper_returns (p_ops B)"
  shows "make_memory B regions s \<noteq> Hang"
proof -
  have "init_heap (p_env B) (p_fallback B) (p_boot_map B) regions r st h \<noteq> None \<and>
      init_heap (p_env B) (p_fallback B) (p_boot_map B) regions r st h \<noteq> Some Hang" for r st h
    using heap_pages_no_hang [OF assms(1,2)] heap_pages_returns [OF assms(1)]
    by (auto simp: init_heap_def no_hang split: outcome.splits)
  then have "init_heap (p_env B) (p_fallback B) (p_boot_map B) regions r st h \<noteq> None"
    "init_heap (p_env B) (p_fallback B) (p_boot_map B) regions r st h \<noteq> Some Hang" for r st h by blast+
  then show ?thesis
    by (auto simp: make_memory_def Let_def no_hang setup_thread_data_no_hang [OF assms(3)] simp del: not_None_eq split: option.splits)
qed

lemma user_table_new_from_no_hang [no_hang]: "user_table_new_from ops P t m \<noteq> Hang"
  unfolding user_table_new_from_def Let_def by (simp del: upt_rec_numeral split: prod.split option.split)

lemma create_no_hang: "mapper_returns ops \<Longrightarrow> create e ops P T p func k s \<noteq> Hang"
  by (auto simp: create_def allocate_pid_def alloc_stack_def with_cr3_def user_table_frame_def
      mount_user_stack_def heap_stack_pages_def Let_def no_hang mount_stack_pages_no_hang split: prod.splits option.splits)

lemma boot_tasks_no_hang:
  assumes "spin_ok e" and "boot_state k" and "mapper_returns ops"
  shows "boot_tasks e ops P T dir start k s \<noteq> Hang"
proof
  assume hang: "boot_tasks e ops P T dir start k s = Hang"
  have "create_init e ops r s \<noteq> Hang" for r
    by (simp add: create_init_def user_table_from_current_def with_cr3_def user_table_frame_def no_hang)
  with hang obtain init where init: "create_init e ops (c_cr3 (core k)) s = Done init" and
    rest: "and_then (add_task e init k) (\<lambda>k1. and_then (create e ops P T (task_id init) start (set_current_task_id (task_id init) k1) s)
       (\<lambda>(ctx, k2, s1). and_then (holding_registry e (\<lambda>k3. and_then (registry_add e (with_init_mount dir ctx) k3)
            (\<lambda>k4. Done ((), queue_for_execution (task_id ctx) k4))) k2) (\<lambda>(_, k5). Done (k5, s1)))) = Hang"
    by (auto simp: boot_tasks_def with_init_mount_def Let_def no_hang)
  obtain k1 where k1: "add_task e init k = Done k1"
    using add_task_root [OF assms(1,2), of init] create_init_Done [OF init] by (simp add: fresh_context_def)
  with rest create_no_hang [OF assms(3)] obtain ctx k2 s1 where
    c: "create e ops P T (task_id init) start (set_current_task_id (task_id init) k1) s = Done (ctx, k2, s1)" and
    fin: "and_then (holding_registry e (\<lambda>k3. and_then (registry_add e (with_init_mount dir ctx) k3)
            (\<lambda>k4. Done ((), queue_for_execution (task_id ctx) k4))) k2) (\<lambda>(_, k5). Done (k5, s1)) = Hang"
    by (auto simp: no_hang)
  from fin boot_registers(3) [OF assms(1,2) init k1 c] show False by simp
qed

lemma setup_syscalls_no_hang [no_hang]: "setup_syscalls e a s \<noteq> Hang"
  by (simp add: setup_syscalls_def no_hang)

section \<open>Properties\<close>



section \<open>A machine that starts\<close>

text \<open>
  Two usable frames, no page mapped by the boot loader, a mapper that says yes to everything, and the
  boxes of one page.
\<close>

definition eager_boot :: "(u64 \<Rightarrow> u64) boot_map" where
  "eager_boot alloc t p f fl s = Done (None, s)"

definition sample_platform :: "(u64 \<Rightarrow> u64, usize \<times> usize, segment option list, (u64 \<Rightarrow> u32) \<times> (u32 \<Rightarrow> u64)) platform" where
  "sample_platform = \<lparr> p_env = documented_env True, p_font = replicate 128 (replicate 8 0x18), p_ptes = word_ptes,
     p_boot_map = eager_boot, p_ops = idle_ops, p_tasks = idle_tasks, p_fallback = null_fallback, p_gdt = list_gdt,
     p_statics = \<lparr> early_tss = 0x100, tss_addr = 0x200, double_fault_stack = 0x10000, r3_to_r0_stack = 0x20000 \<rparr>,
     p_sections = example_sections, p_apic = plain_apic, p_acpi = (\<lambda>_. Some (Some 0xFEE00000)), p_features = Some (True, True),
     p_syscall_entry = 0xFFFF800000001000, p_start_initproc = 0x1234, p_init_dir = [] \<rparr>"

definition sample_boot_info :: boot_info where
  "sample_boot_info = \<lparr> bi_framebuffer = Some (KERNEL_BOOTDATA_FRAMEBUFFER, example_frame, replicate 640 0),
     bi_physical_memory_offset = Some KERNEL_PHYSICAL_MEMORY_START,
     bi_memory_regions = [\<lparr> mr_start = 0x110000, mr_end = 0x112000, mr_usable = True \<rparr>], bi_rsdp_addr = Some 0xE0000 \<rparr>"

definition sample_machine :: "(u64 \<Rightarrow> u64, usize \<times> usize, segment option list, (u64 \<Rightarrow> u32) \<times> (u32 \<Rightarrow> u64)) machine" where
  "sample_machine = \<lparr> m_tables = fresh_tables, m_frames = \<lparr> hw = (\<lambda>_. 0), frame_entries = [] \<rparr>, m_bytes = (\<lambda>_. 7),
     m_heap = fixed_new (0, 0), m_kernel = start_kernel, m_apic = (\<lambda>_. 0, \<lambda>_. 0), m_console = None, m_fs_base = 0,
     m_lstar = 0, m_efer = 0 \<rparr>"

lemma sample_clean: "clean_tables sample_platform 0x5000 (\<lambda>_. 0) = Done (\<lambda>_. 0)"
proof -
  let ?e = "documented_env True"
  have "clear_leaf 3 ?e word_ptes x (\<lambda>_. 0) = Done (\<lambda>_. 0)" "globalize_leaf 3 ?e word_ptes x (\<lambda>_. 0) = Done (\<lambda>_. 0)" for x
    by (simp_all add: top_level has_flag_def word_ptes_def documented_env_def pt_bits)
  then show ?thesis
    by (simp add: clean_tables_def sample_platform_def fix_bootloader_pollution_def globalize_kernelspace_def example_page_table
        for_each_idle)
qed

text \<open>Every box of the idle machine is the one at 0x110000; the first one fixes the start of its region.\<close>

lemma sample_frame:
  assumes "frame_entries s = [\<lparr> region_start = 0x110000, region_end = 0x112000, virt_start = v \<rparr>]"
  shows "\<exists>a. allocate_frame (documented_env True) idle_ops 0x5000 s =
    Done (Some 0x110000, s\<lparr>frame_entries := [\<lparr> region_start = 0x110000, region_end = 0x112000, virt_start = Some a \<rparr>]\<rparr>)"
  using assms
  by (cases s; cases v; simp add: allocate_frame_def idle_ops_def example_page_table in_region_def;
      simp add: documented_env_def sign_extend_47_def canonical_def kernel_addresses sub_chk_def)

lemma sample_map_range:
  assumes "frame_entries s = [\<lparr> region_start = 0x110000, region_end = 0x112000, virt_start = v \<rparr>]"
  shows "\<exists>s'. map_range_loop (documented_env True) idle_ops 0x5000 t fl ps s = Done s'"
  using assms
proof (induction ps arbitrary: s v)
  case (Cons p ps)
  from sample_frame [OF Cons.prems] obtain a where
    a: "allocate_frame (documented_env True) idle_ops 0x5000 s =
      Done (Some 0x110000, s\<lparr>frame_entries := [\<lparr> region_start = 0x110000, region_end = 0x112000, virt_start = Some a \<rparr>]\<rparr>)" ..
  have "\<exists>s'. map_range_loop (documented_env True) idle_ops 0x5000 t fl ps
      (s\<lparr>frame_entries := [\<lparr> region_start = 0x110000, region_end = 0x112000, virt_start = Some a \<rparr>]\<rparr>) = Done s'"
    by (rule Cons.IH [where v = "Some a"]) simp
  then show ?case by (simp add: a) (simp add: idle_ops_def)
qed simp

lemma sample_heap:
  "\<exists>heap it. init_heap (documented_env True) null_fallback eager_boot (bi_memory_regions sample_boot_info) 0x5000
     (usable_frames (bi_memory_regions sample_boot_info), \<lambda>_. 0) (fixed_new (0, 0)) =
   Some (Done (heap, \<lparr> hw = (\<lambda>_. 0), frame_entries = [\<lparr> region_start = 0x110000, region_end = 0x112000, virt_start = None \<rparr>] \<rparr>, it))"
proof -
  let ?e = "documented_env True" and ?s = "([0x110000, 0x111000], \<lambda>_. 0) :: u64 list \<times> (u64 \<Rightarrow> u64)"
  have va: "virt_add ?e KERNEL_HEAP_START 4096 = Some 0xFFFFC00000001000"
    "virt_add ?e 0xFFFFC00000001000 4096 = Some 0xFFFFC00000002000"
    by (simp_all add: documented_env_def kernel_addresses sign_extend_47_def canonical_def)
  have pa: "phys_try_new ?e 0x110000 = Some 0x110000" "phys_try_new ?e 0x111000 = Some 0x111000"
    by (simp_all add: documented_env_def)
  have us: "usable_frames (bi_memory_regions sample_boot_info) = [0x110000, 0x111000]"
    by (simp add: usable_frames_def sample_boot_info_def step_by_page_def page_starts_def upt_rec_numeral upt_conv_Cons)
  have "heap_pages ?e eager_boot 0xFFFFA00000005000 KERNEL_HEAP_START 0 ?s = Some (Done (2, [], \<lambda>_. 0))"
    by (simp add: heap_pages.simps allocate_one_def boot_allocate_frame_def eager_boot_def pa va add_chk_def)
  then show ?thesis
    unfolding us by (simp add: init_heap_unfold [OF documented_virt documented_page example_page_table] mul_chk_def heap_frames_new_def
        sub_chk_def sample_boot_info_def)
qed

lemma sample_memory:
  assumes "m_frames s = m_frames sample_machine" and "m_kernel s = start_kernel" and "m_heap s = fixed_new (0, 0)"
  shows "\<exists>heap fr bytes fs. make_memory sample_platform (bi_memory_regions sample_boot_info) s =
    Done (s\<lparr>m_heap := heap, m_frames := fr, m_bytes := bytes, m_fs_base := fs\<rparr>)"
proof -
  let ?e = "documented_env True"
  obtain heap it where h: "init_heap ?e null_fallback eager_boot (bi_memory_regions sample_boot_info) 0x5000
     (usable_frames (bi_memory_regions sample_boot_info), \<lambda>_. 0) (fixed_new (0, 0)) =
   Some (Done (heap, \<lparr> hw = (\<lambda>_. 0), frame_entries = [\<lparr> region_start = 0x110000, region_end = 0x112000, virt_start = None \<rparr>] \<rparr>, it))"
    using sample_heap by blast
  let ?fr = "\<lparr> hw = (\<lambda>_. 0), frame_entries = [\<lparr> region_start = 0x110000, region_end = 0x112000, virt_start = None \<rparr>] \<rparr> :: (u64 \<Rightarrow> u64) frames"
  have a: "thread_start 0 = 0xFFFFB00000000000" and zero: "(0 :: u64) < 0x10000000"
    by (simp_all add: thread_start_def kernel_addresses)
  obtain s1 where "map_range_loop ?e idle_ops 0x5000 0xFFFFA00000005000 thread_flags (page_starts 0xFFFFB00000000000 16) ?fr = Done s1"
    using sample_map_range [where s = ?fr and v = None] by fastforce
  then have pages: "allocate_map_range ?e idle_ops 0x5000 0xFFFFB00000000000 0x10000 thread_flags ?fr = Done s1"
    by (simp add: thread_pages(2) [OF documented_virt documented_page zero, unfolded a KERNEL_THREAD_STORAGE_SIZE_def, simplified]
        example_page_table)
  have virt: "virt_new ?e 0xFFFFB00000000000 = Some 0xFFFFB00000000000"
    "virt_add ?e 0xFFFFB00000000000 4 = Some 0xFFFFB00000000004" "virt_add ?e 0xFFFFB00000000004 12 = Some 0xFFFFB00000000010"
    "virt_sub ?e 0xFFFFB00000000010 8 = Some 0xFFFFB00000000008"
    by (simp_all add: documented_env_def sign_extend_47_def canonical_def)
  obtain bytes where "setup_thread_data ?e idle_ops example_sections 0x5000 0 ?fr (m_bytes s) = Done (0xFFFFB00000000008, s1, bytes)"
    by (simp add: setup_thread_data_def Let_def mul_chk_def add_chk_def sub_chk_def example_sections_def kernel_addresses
        KERNEL_THREAD_STORAGE_SIZE_def virt pages)
  then show ?thesis
    using assms h sample_clean
    by (auto simp: make_memory_def Let_def sample_platform_def sample_machine_def start_kernel_def intro!: exI)
qed

lemma sample_stacks:
  "stack_top (documented_env True) (double_fault_stack (p_statics sample_platform)) DOUBLE_FAULT_STACK_SIZE = Done 0x12000"
  "stack_top (documented_env True) (r3_to_r0_stack (p_statics sample_platform)) R3_TO_R0_INT_SIZE = Done 0x22000"
  by (simp_all add: stack_top_def DOUBLE_FAULT_STACK_SIZE_def R3_TO_R0_INT_SIZE_def sample_platform_def)
     (simp_all add: documented_env_def sign_extend_47_def canonical_def)

lemma sample_start: "\<exists>s'. kernel_main sample_platform sample_boot_info sample_machine = Done s'"
proof -
  let ?e = "documented_env True"
  note fields = sample_platform_def sample_boot_info_def sample_machine_def
  obtain v where "init_vga_framebuffer True (replicate 128 (replicate 8 0x18)) example_frame (replicate 640 0) = Done v"
    using init_console_ok [of example_frame "replicate 640 0" "replicate 128 (replicate 8 0x18)" True] example_io_ok(2)
    by (auto simp: frame_ok_def example_frame_def)
  moreover obtain t1 where t1: "kernel_init list_gdt (p_statics sample_platform) fresh_tables = Done t1" "gdt t1 = [None]"
    by (simp add: kernel_init_def init_prepaging_def global_gdt_def list_gdt_def seg_eval load_segments_def fresh_tables_def)
  ultimately have early: "early_init sample_platform sample_boot_info sample_machine =
      Done (sample_machine\<lparr>m_console := Some v, m_tables := t1\<rparr>)"
    by (simp add: early_init_def check_boot_info_def fields documented_env_def)
  let ?s1 = "sample_machine\<lparr>m_console := Some v, m_tables := t1\<rparr>"
  from sample_memory [of ?s1] obtain heap fr bytes fs where
    mem: "make_memory sample_platform (bi_memory_regions sample_boot_info) ?s1 =
      Done (?s1\<lparr>m_heap := heap, m_frames := fr, m_bytes := bytes, m_fs_base := fs\<rparr>)"
    by (auto simp: sample_machine_def)
  have "length (gdt t1) = 1" by (simp add: t1)
  from gdt_init_Done [OF list_gdt_ok this sample_stacks] obtain t2 where
    t2: "gdt_init ?e list_gdt (p_statics sample_platform) t1 = Done t2" by metis
  have acpi: "\<exists>la d'. acpi_init ?e plain_apic (p_acpi sample_platform) (p_features sample_platform) 0xE0000 d = Done (la, d')" for d
    by (simp add: acpi_init_def sample_platform_def apic_init_def apic_init_ap_def apic_id_def apic_version_def Let_def add_chk_def
        physical_memory_offset_def kernel_addresses)
       (simp add: documented_env_def sign_extend_47_def canonical_def)
  have sys: "setup_syscalls ?e 0xFFFF800000001000 s = Done (s\<lparr>m_lstar := 0xFFFF800000001000, m_efer := m_efer s OR 1\<rparr>)"
    for s :: "('m, 'h, 'g, 'd) machine"
    by (simp add: setup_syscalls_def documented_env_def sign_extend_47_def canonical_def)
  obtain k' s' where "boot_tasks ?e idle_ops word_ptes idle_tasks [] 0x1234 start_kernel fr = Done (k', s')"
    using idle_boot by blast
  with early mem t2 acpi [of "(\<lambda>_. 0, \<lambda>_. 0)"] show ?thesis
    by (auto simp: kernel_main_def Let_def sys sample_platform_def sample_machine_def)
       (auto simp: sample_boot_info_def)
qed

lemma sample_fields:
  "p_env sample_platform = documented_env True" "p_ptes sample_platform = word_ptes" "p_gdt sample_platform = list_gdt"
  "p_boot_map sample_platform = eager_boot" "p_ops sample_platform = idle_ops" "p_sections sample_platform = example_sections"
  "p_font sample_platform = replicate 128 (replicate 8 0x18)" "m_kernel sample_machine = start_kernel"
  "m_tables sample_machine = fresh_tables"
  "bi_framebuffer sample_boot_info = Some (KERNEL_BOOTDATA_FRAMEBUFFER, example_frame, replicate 640 0)"
  by (simp_all add: sample_platform_def sample_machine_def sample_boot_info_def)


text \<open>A mapper without room.\<close>

definition full_boot :: "(u64 \<Rightarrow> u64) boot_map" where
  "full_boot alloc t p f fl s = Done (Some PageAlreadyMapped, s)"


end
