(* ===== verification/Page_Dump.thy ===== *)
theory Page_Dump
  imports Page_Tables
begin

text \<open>
  The dump of the page tables (\<open>arch/x86_64/paging/debug.rs\<close>, \<open>utils/shortflags.rs\<close>): the four loops
  over the entries, and the ranges they yield, merged by \<open>coalesce\<close> of the crate \<open>itertools\<close>, a
  parameter. The coroutine is the list of what it yields.
\<close>

section \<open>The loops\<close>

type_synonym range = "u64 \<times> u64 \<times> u64"

fun each_entry :: "(nat \<Rightarrow> 'a list outcome) \<Rightarrow> nat list \<Rightarrow> 'a list outcome" where
  "each_entry f [] = Done []"
| "each_entry f (i # is) = and_then (f i) (\<lambda>xs. and_then (each_entry f is) (\<lambda>ys. Done (xs @ ys)))"

definition at_entry :: "u64 \<Rightarrow> nat \<Rightarrow> u64" where
  "at_entry table i = table + 8 * of_nat i"

definition dump_l1 :: "env \<Rightarrow> 'm pte_ops \<Rightarrow> u64 \<Rightarrow> u64 \<Rightarrow> 'm \<Rightarrow> range list outcome" where
  "dump_l1 e P table start2 m = each_entry (\<lambda>i.
     let x1f = entry_flags P (load_entry P (at_entry table i) m) in
     if \<not> bf_contains e x1f pt_present then Done []
     else and_then (unwrap (virt_add e start2 (of_nat i * 2 ^ 12))) (\<lambda>start1.
          and_then (unwrap (virt_add e start1 (2 ^ 12))) (\<lambda>end1. Done [(start1, end1, x1f)]))) [0..<512]"

definition dump_l2 :: "env \<Rightarrow> 'm pte_ops \<Rightarrow> u64 \<Rightarrow> u64 \<Rightarrow> u64 \<Rightarrow> 'm \<Rightarrow> range list outcome" where
  "dump_l2 e P table start3 x3f m = each_entry (\<lambda>i.
     let x2 = load_entry P (at_entry table i) m; x2f = entry_flags P x2 AND x3f in
     if \<not> bf_contains e x2f pt_present then Done []
     else and_then (unwrap (virt_add e start3 (of_nat i * 2 ^ 21))) (\<lambda>start2.
          if has_flag e P pt_huge x2
          then and_then (unwrap (virt_add e start2 (2 ^ 21))) (\<lambda>end2. Done [(start2, end2, x2f)])
          else and_then (sub_table e P x2) (\<lambda>t. dump_l1 e P t start2 m))) [0..<512]"

definition dump_l3 :: "env \<Rightarrow> 'm pte_ops \<Rightarrow> u64 \<Rightarrow> u64 \<Rightarrow> u64 \<Rightarrow> 'm \<Rightarrow> range list outcome" where
  "dump_l3 e P table start4 x4f m = each_entry (\<lambda>i.
     let x3 = load_entry P (at_entry table i) m; x3f = entry_flags P x3 AND x4f in
     if \<not> bf_contains e x3f pt_present then Done []
     else and_then (unwrap (virt_add e start4 (of_nat i * 2 ^ 30))) (\<lambda>start3.
          if has_flag e P pt_huge x3
          then and_then (unwrap (virt_add e start3 (2 ^ 30))) (\<lambda>end3. Done [(start3, end3, x3f)])
          else and_then (sub_table e P x3) (\<lambda>t. dump_l2 e P t start3 x3f m))) [0..<512]"

definition dump_l4 :: "env \<Rightarrow> 'm pte_ops \<Rightarrow> u64 \<Rightarrow> 'm \<Rightarrow> range list outcome" where
  "dump_l4 e P root m =
     and_then (get_page_table e root) (\<lambda>table. each_entry (\<lambda>i.
     let x4 = load_entry P (at_entry table i) m in
     if \<not> has_flag e P pt_present x4 then Done []
     else and_then (unwrap (virt_new e (of_nat i * 2 ^ 39))) (\<lambda>start4.
          and_then (sub_table e P x4) (\<lambda>t. dump_l3 e P t start4 (entry_flags P x4) m))) [0..<512])"

text \<open>The flags that do not count, and the merging of neighbours.\<close>

definition pt_accessed :: u64 where "pt_accessed = 0x20"
definition pt_dirty :: u64 where "pt_dirty = 0x40"

definition removed_fields :: u64 where
  "removed_fields = pt_accessed OR pt_dirty OR pt_huge"

definition merge_ranges :: "range \<Rightarrow> range \<Rightarrow> range + range \<times> range" where
  "merge_ranges a b = (case (a, b) of ((afrom, ato, aflags), (bfrom, bto, bflags)) \<Rightarrow>
     if ato = bfrom \<and> aflags = bflags then Inl (afrom, bto, aflags) else Inr (a, b))"

type_synonym coalesce = "(range \<Rightarrow> range \<Rightarrow> range + range \<times> range) \<Rightarrow> range list \<Rightarrow> range list"

definition explore_page_ranges :: "coalesce \<Rightarrow> env \<Rightarrow> 'm pte_ops \<Rightarrow> u64 \<Rightarrow> 'm \<Rightarrow> range list outcome" where
  "explore_page_ranges coal e P root m =
     and_then (dump_l4 e P root m) (\<lambda>rs.
       Done (coal merge_ranges (map (\<lambda>(f, t, flags). (f, t, flags AND NOT removed_fields)) rs)))"

section \<open>The lines\<close>

definition short_names :: "(u64 \<times> string) list" where
  "short_names = [(pt_present, ''P''), (pt_writable, ''W''), (pt_user, ''UA''), (0x8, ''WT''), (0x10, ''NC''),
     (pt_accessed, ''A''), (pt_dirty, ''D''), (pt_huge, ''H''), (pt_global, ''G''), (pt_no_execute, ''NE'')]"

text \<open>The flags that are set, with a bar between them; \<open>first\<close> is the variable of the code.\<close>

fun short_flags_from :: "env \<Rightarrow> (u64 \<times> string) list \<Rightarrow> bool \<Rightarrow> u64 \<Rightarrow> string" where
  "short_flags_from e [] first flags = ''''"
| "short_flags_from e ((b, name) # rest) first flags =
     (if bf_contains e flags b
      then (if first then '''' else ''|'') @ name @ short_flags_from e rest False flags
      else short_flags_from e rest first flags)"

definition short_flags :: "env \<Rightarrow> u64 \<Rightarrow> string" where
  "short_flags e flags = short_flags_from e short_names True flags"

text \<open>Each line has the bounds, the physical address of the first byte and the flags.\<close>

fun print_lines :: "env \<Rightarrow> 'm mem_ops \<Rightarrow> u64 \<Rightarrow> 'm \<Rightarrow> range list \<Rightarrow> (u64 \<times> u64 \<times> u64 \<times> string) list outcome" where
  "print_lines e ops table m [] = Done []"
| "print_lines e ops table m ((f, t, flags) # rs) =
     and_then (unwrap (translate_addr ops table f m)) (\<lambda>p.
     and_then (print_lines e ops table m rs) (\<lambda>ls. Done ((f, t, p, short_flags e flags) # ls)))"

definition print_tables :: "coalesce \<Rightarrow> env \<Rightarrow> 'm pte_ops \<Rightarrow> 'm mem_ops \<Rightarrow> u64 \<Rightarrow> 'm \<Rightarrow> (u64 \<times> u64 \<times> u64 \<times> string) list outcome" where
  "print_tables coal e P ops root m =
     and_then (get_page_table e root) (\<lambda>table.
     and_then (explore_page_ranges coal e P root m) (print_lines e ops table m))"

section \<open>The walk of the processor, with the flags the dump shows\<close>

primrec walk_flags :: "nat \<Rightarrow> env \<Rightarrow> 'm pte_ops \<Rightarrow> u64 \<Rightarrow> u64 \<Rightarrow> u64 \<Rightarrow> 'm \<Rightarrow> u64 option" where
  "walk_flags 0 e P va a inh m =
     (let f = entry_flags P (load_entry P a m) in if bf_contains e f pt_present then Some f else None)"
| "walk_flags (Suc n) e P va a inh m =
     (let v = load_entry P a m; f = entry_flags P v AND inh in
      if \<not> bf_contains e f pt_present then None
      else if has_flag e P pt_huge v then Some f
      else (case sub_table e P v of Done t \<Rightarrow> walk_flags n e P va (entry_slot t n va) f m | _ \<Rightarrow> None))"

text \<open>The same from the entries of the walk: a page of 4 KiB has the flags of its own entry, a larger one
  those that every entry on the way has.\<close>

definition shown_flags :: "'m pte_ops \<Rightarrow> nat \<times> u64 \<Rightarrow> u64 list \<Rightarrow> u64 \<Rightarrow> u64" where
  "shown_flags P leaf vs inh = (if fst leaf = 0 then entry_flags P (snd leaf)
     else fold (\<lambda>v acc. entry_flags P v AND acc) vs inh)"

lemma walk_flags_leaf:
  assumes "bitflags_ok e"
  shows "inh AND pt_present = pt_present \<Longrightarrow> walk_flags n e P va a inh m =
    map_option (\<lambda>l. shown_flags P l (visited n e P va a m) inh) (leaf_of n e P va a m)"
proof (induction n arbitrary: a inh)
  case 0
  then show ?case using assms by (simp add: Let_def has_flag_def shown_flags_def)
next
  case (Suc n)
  have p: "bf_contains e (entry_flags P x AND inh) pt_present = has_flag e P pt_present x" for x
    using assms Suc.prems by (simp add: has_flag_def bitflags_ok_def and.assoc)
  have "(entry_flags P x AND inh) AND pt_present = pt_present" if "has_flag e P pt_present x" for x
    using that Suc.prems assms by (simp add: has_flag_iff and.assoc)
  with Suc.IH show ?case
    by (cases "sub_table e P (load_entry P a m)"; cases "leaf_of (Suc n) e P va a m")
       (auto simp: Let_def p shown_flags_def split: if_splits)
qed

section \<open>Addresses and indices\<close>

definition page_base :: "nat \<Rightarrow> u64 \<Rightarrow> u64" where
  "page_base n va = va AND NOT (mask (12 + 9 * n))"

definition in_range :: "u64 \<Rightarrow> u64 \<Rightarrow> u64 \<Rightarrow> bool" where
  "in_range f t va \<longleftrightarrow> va - f < t - f"

lemma index_bits:
  assumes "i < 512" and "bit (of_nat i :: u64) j"
  shows "j < 9"
proof (rule ccontr)
  assume "\<not> j < 9"
  then have "(2 :: nat) ^ 9 \<le> 2 ^ j" by (intro power_increasing) simp_all
  then have "i < 2 ^ j" using assms(1) by simp
  then have "\<not> bit i j" by (simp add: bit_iff_odd)
  moreover have "bit (unat (of_nat i :: u64)) j" using assms(2) by (simp only: bit_unsigned_iff) simp
  ultimately show False using assms(1) by (simp add: unat_of_nat_u64)
qed

text \<open>An entry \<open>i\<close> of a table for the addresses from \<open>s\<close> on starts at \<open>s + i * 2 ^ k\<close>.\<close>

lemma entry_sum:
  fixes s :: u64
  assumes "s AND mask (21 + 9 * n) = 0" and "i < 512" and "n \<le> 2"
  shows "s + of_nat i * 2 ^ (12 + 9 * n) = s OR push_bit (12 + 9 * n) (of_nat i)"
proof -
  have 1: "j < 9" if "bit (of_nat i :: u64) j" for j using index_bits [OF assms(2) that] .
  have 2: "\<not> bit s j" if "j < 21 + 9 * n" for j
    using bit_eq_iff [THEN iffD1, OF assms(1), rule_format, of j] that assms(3) by (simp add: bit_simps)
  have "s AND push_bit (12 + 9 * n) (of_nat i) = 0"
    by (rule bit_word_eqI) (use 1 2 in \<open>fastforce simp: bit_simps\<close>)
  then show ?thesis by (simp add: push_bit_eq_mult disjunctive_add_eq_or)
qed

lemma of_nat_va_index: "of_nat (va_index n va) = drop_bit (12 + 9 * n) va AND (mask 9 :: u64)"
  by (simp add: va_index_def mask_eq_exp_minus_1)

lemma page_base_split: "n \<le> 2 \<Longrightarrow> page_base n va = page_base (Suc n) va OR push_bit (12 + 9 * n) (of_nat (va_index n va))"
  unfolding page_base_def of_nat_va_index by (rule bit_word_eqI) (auto simp: bit_simps dest: bit_imp_le_length)

lemma page_base_aligned: "page_base n va AND mask (12 + 9 * n) = 0"
  unfolding page_base_def by (rule bit_word_eqI) (auto simp: bit_simps)

lemma drop_page_base: "drop_bit (12 + 9 * n) (page_base n va) = drop_bit (12 + 9 * n) va"
proof (rule bit_word_eqI)
  fix j
  show "bit (drop_bit (12 + 9 * n) (page_base n va)) j = bit (drop_bit (12 + 9 * n) va) j"
    using bit_imp_le_length [of va "12 + 9 * n + j"] by (auto simp: page_base_def bit_simps)
qed

lemma page_base_entry:
  fixes s :: u64
  assumes "s AND mask (21 + 9 * n) = 0" and "i < 512" and "n \<le> 2"
  shows "page_base n va = s + of_nat i * 2 ^ (12 + 9 * n) \<longleftrightarrow> page_base (Suc n) va = s \<and> va_index n va = i"
proof -
  let ?K = "12 + 9 * n" and ?w = "s OR push_bit (12 + 9 * n) (of_nat i)"
  have 1: "j < 9" if "bit (of_nat i :: u64) j" for j using index_bits [OF assms(2) that] .
  have 2: "\<not> bit s j" if "j < 21 + 9 * n" for j
    using bit_eq_iff [THEN iffD1, OF assms(1), rule_format, of j] that assms(3) by (simp add: bit_simps)
  have "page_base (Suc n) ?w = s"
    unfolding page_base_def by (rule bit_word_eqI) (use 1 2 in \<open>fastforce simp: bit_simps\<close>)
  moreover have "drop_bit ?K ?w AND mask 9 = of_nat i"
    by (rule bit_word_eqI) (use 1 2 assms(3) in \<open>fastforce simp: bit_simps\<close>)
  then have "va_index n ?w = i" using assms(2) by (simp add: va_index_def mask_eq_exp_minus_1 unat_of_nat_u64)
  moreover have "page_base (Suc n) (page_base n va) = page_base (Suc n) va"
    unfolding page_base_def by (rule bit_word_eqI) (auto simp: bit_simps)
  moreover have "va_index n (page_base n va) = va_index n va" by (simp add: va_index_def drop_page_base)
  ultimately show ?thesis
    using page_base_split [OF assms(3), of va] entry_sum [OF assms] by metis
qed

section \<open>Ranges of one page\<close>

lemma div_eq_block: "0 < d \<Longrightarrow> (v :: nat) div d = q \<longleftrightarrow> d * q \<le> v \<and> v < d * q + d"
  using div_nat_eqI [of d q v] dividend_less_times_div [of d v] times_div_less_eq_dividend [of d v] by auto

lemma aligned_block:
  fixes f :: u64
  assumes "f AND mask k = 0" and "k \<le> 39"
  shows "2 ^ k dvd unat f" and "unat f + 2 ^ k \<le> 2 ^ 64" and "unat f < 2 ^ 47 \<Longrightarrow> unat f + 2 ^ k \<le> 2 ^ 47"
    and "unat (2 ^ k :: u64) = 2 ^ k"
proof -
  have "take_bit k f = 0" using assms(1) by (simp add: take_bit_eq_mask)
  then have "take_bit k (unat f) = 0" by (metis unsigned_take_bit_eq unsigned_0)
  then show F: "2 ^ k dvd unat f" by (simp add: take_bit_eq_mod dvd_eq_mod_eq_0)
  have room: "unat f + 2 ^ k \<le> 2 ^ j" if "unat f < 2 ^ j" "k \<le> j" for j
  proof -
    have "(2 :: nat) ^ k dvd 2 ^ j" using that(2) by (intro le_imp_power_dvd)
    then have "2 ^ k dvd 2 ^ j - unat f" using F by (rule dvd_diff_nat)
    then have "2 ^ k \<le> 2 ^ j - unat f" using that(1) by (intro dvd_imp_le) simp_all
    then show ?thesis using that(1) by simp
  qed
  show "unat f + 2 ^ k \<le> 2 ^ 64" using room [of 64] unat_lt_2p64 [of f] assms(2) by simp
  show "unat f + 2 ^ k \<le> 2 ^ 47" if "unat f < 2 ^ 47" using room [OF that] assms(2) by simp
  have "(2 :: nat) ^ k < 2 ^ 64" using assms(2) by (intro power_strict_increasing) simp_all
  then show "unat (2 ^ k :: u64) = 2 ^ k" using unat_of_nat_u64 [of "2 ^ k"] by simp
qed

lemma page_base_iff:
  assumes "f AND mask (12 + 9 * n) = 0" and "n \<le> 3"
  shows "page_base n va = f \<longleftrightarrow> unat va div 2 ^ (12 + 9 * n) = unat f div 2 ^ (12 + 9 * n)"
proof -
  let ?K = "12 + 9 * n"
  have S: "unat (2 ^ ?K :: u64) = 2 ^ ?K" using assms(2) by (intro aligned_block(4) [OF assms(1)]) simp
  have "page_base n va = f \<longleftrightarrow> drop_bit ?K va = drop_bit ?K f"
  proof
    assume "page_base n va = f"
    then show "drop_bit ?K va = drop_bit ?K f" using drop_page_base [of n va] by simp
  next
    assume d: "drop_bit ?K va = drop_bit ?K f"
    have "page_base n x = push_bit ?K (drop_bit ?K x)" for x
      unfolding page_base_def by (rule bit_word_eqI) (auto simp: bit_simps dest: bit_imp_le_length)
    moreover have "page_base n f = f"
    proof (rule bit_word_eqI)
      fix j
      assume "j < LENGTH(64)"
      then show "bit (page_base n f) j = bit f j"
        using bit_eq_iff [THEN iffD1, OF assms(1), rule_format, of j] by (auto simp: page_base_def bit_simps)
    qed
    ultimately show "page_base n va = f" using d by simp
  qed
  also have "\<dots> \<longleftrightarrow> unat va div 2 ^ ?K = unat f div 2 ^ ?K"
    by (simp add: word_unat_eq_iff drop_bit_eq_div unat_div_distrib S)
  finally show ?thesis .
qed

text \<open>Among the canonical addresses, a range of one page holds those of the page.\<close>

lemma in_range_page:
  assumes "virt_ok e" and "canonical va" and "canonical f" and "f AND mask (12 + 9 * n) = 0" and "n \<le> 2"
    and "virt_add e f (2 ^ (12 + 9 * n)) = Some t"
  shows "in_range f t va \<longleftrightarrow> page_base n va = f"
proof -
  let ?K = "12 + 9 * n"
  have k39: "?K \<le> 39" and n3: "n \<le> 3" using assms(5) by simp_all
  note B = aligned_block [OF assms(4) k39]
  have "page_base n va = f \<longleftrightarrow> unat va div 2 ^ ?K = unat f div 2 ^ ?K" by (rule page_base_iff [OF assms(4) n3])
  also have "\<dots> \<longleftrightarrow> unat f \<le> unat va \<and> unat va < unat f + 2 ^ ?K"
  proof -
    obtain q where "unat f = 2 ^ ?K * q" using B(1) by (rule dvdE)
    then show ?thesis using div_eq_block [of "2 ^ ?K" "unat va" q] by simp
  qed
  also have "\<dots> \<longleftrightarrow> in_range f t va"
  proof -
    have sub: "unat (x - f) = (if unat f \<le> unat x then unat x - unat f else unat x + 2 ^ 64 - unat f)" for x
      by (simp add: unat_sub_if_size word_size)
    have "sign_extend_47 (f + 2 ^ ?K) = Some t"
      using assms(6) by (simp add: virt_simps [OF assms(1)] split: if_splits)
    then consider (plain) "t = f + 2 ^ ?K" | (edge) "\<not> canonical (f + 2 ^ ?K)" "t = (f + 2 ^ ?K) OR 0xFFFF000000000000"
      by (auto simp: sign_extend_47_def split: if_splits)
    then show ?thesis
    proof cases
      case plain
      then have "in_range f t va \<longleftrightarrow> unat (va - f) < 2 ^ ?K" by (simp add: in_range_def word_less_nat_alt B(4))
      then show ?thesis using sub [of va] B(2) by auto
    next
      case edge
      have "unat f + 2 ^ ?K \<noteq> 2 ^ 64"
      proof
        assume "unat f + 2 ^ ?K = 2 ^ 64"
        moreover have "unat (f + 2 ^ ?K) = (unat f + unat (2 ^ ?K :: u64)) mod 2 ^ 64"
          by (simp only: unat_word_ariths(1)) simp
        ultimately have "unat (f + 2 ^ ?K) = 0" unfolding B(4) by simp
        then have "f + 2 ^ ?K = 0" by (simp only: unat_eq_0)
        with edge(1) show False by (simp add: canonical_def)
      qed
      then have T: "unat (f + 2 ^ ?K) = unat f + 2 ^ ?K"
        using B(2,4) by (subst unat_add_no_overflow) simp_all
      with edge(1) assms(3) have low: "unat f < 2 ^ 47" "2 ^ 47 \<le> unat f + 2 ^ ?K"
        by (auto simp: canonical_def word_less_nat_alt word_le_nat_alt)
      with B(3) have end47: "unat f + 2 ^ ?K = 2 ^ 47" by simp
      with T have "f + 2 ^ ?K = 0x800000000000" by (simp add: word_unat_eq_iff)
      with edge(2) have t: "t = 0xFFFF800000000000" by simp
      have "unat (t - f) = 0xFFFF800000000000 - unat f" using low(1) by (simp add: sub t)
      then have "in_range f t va \<longleftrightarrow> unat (va - f) < 0xFFFF800000000000 - unat f"
        by (simp add: in_range_def word_less_nat_alt)
      moreover have "unat va < 0x800000000000 \<or> 0xFFFF800000000000 \<le> unat va"
        using assms(2) by (auto simp: canonical_def word_less_nat_alt word_le_nat_alt)
      ultimately show ?thesis using end47 low(1) sub [of va] unat_lt_2p64 [of va] by (auto split: if_splits)
    qed
  qed
  finally show ?thesis by (rule sym)
qed

section \<open>Where the entries start\<close>

lemma entry_start:
  assumes "virt_ok e" and "canonical s" and "s AND mask (21 + 9 * n) = 0" and "i < 512" and "n \<le> 2"
    and "virt_add e s (of_nat i * 2 ^ (12 + 9 * n)) = Some a"
  shows "a = s + of_nat i * 2 ^ (12 + 9 * n)" and "canonical a" and "a AND mask (12 + 9 * n) = 0"
    and "page_base n va = a \<longleftrightarrow> page_base (Suc n) va = s \<and> va_index n va = i"
proof -
  let ?K = "12 + 9 * n" and ?x = "of_nat i * 2 ^ (12 + 9 * n) :: u64"
  have j39: "21 + 9 * n \<le> 39" using assms(5) by simp
  note B = aligned_block [OF assms(3) j39]
  have p: "(2 :: nat) ^ (21 + 9 * n) = 512 * 2 ^ ?K" by (simp add: power_add)
  have lt: "i * 2 ^ ?K < 2 ^ (21 + 9 * n)" using assms(4) unfolding p by (intro mult_strict_right_mono) simp_all
  then have x: "unat ?x = i * 2 ^ ?K" using unat_of_nat_u64 [of "i * 2 ^ ?K"] B(2) by simp
  then have sum: "unat (s + ?x) = unat s + i * 2 ^ ?K"
    using lt B(2) by (subst unat_add_no_overflow) simp_all
  have can: "canonical (s + ?x)"
    using assms(2) sum lt B(3) by (auto simp: canonical_def word_less_nat_alt word_le_nat_alt)
  then show a: "a = s + ?x"
    using assms(6) by (simp add: virt_simps [OF assms(1)] sign_extend_47_def split: if_splits)
  show "canonical a" using can a by simp
  show "a AND mask ?K = 0"
    unfolding a entry_sum [OF assms(3-5)]
  proof (rule bit_word_eqI)
    fix j
    show "bit ((s OR push_bit ?K (of_nat i)) AND mask ?K) j = bit (0 :: u64) j"
      using bit_eq_iff [THEN iffD1, OF assms(3), rule_format, of j] by (auto simp: bit_simps)
  qed
  show "page_base n va = a \<longleftrightarrow> page_base (Suc n) va = s \<and> va_index n va = i"
    unfolding a by (rule page_base_entry [OF assms(3-5)])
qed

lemma top_start:
  assumes "virt_ok e" and "canonical va" and "i < 512" and "virt_new e (of_nat i * 2 ^ 39) = Some a"
  shows "canonical a" and "a AND mask 39 = 0" and "page_base 3 va = a \<longleftrightarrow> va_index 3 va = i"
proof -
  let ?x = "of_nat i * 2 ^ 39 :: u64"
  have x: "unat ?x = i * 2 ^ 39" using unat_of_nat_u64 [of "i * 2 ^ 39"] assms(3) by simp
  have se: "sign_extend_47 ?x = Some a" using assms(4) by (simp add: virt_simps [OF assms(1)])
  have va: "unat va < 2 ^ 47 \<or> 0xFFFF800000000000 \<le> unat va"
    using assms(2) by (auto simp: canonical_def word_less_nat_alt word_le_nat_alt)
  have a: "canonical a \<and> unat a = 2 ^ 39 * (if i < 256 then i else i + 33553920)"
  proof (cases "i < 256")
    case True
    then have "canonical ?x" using x by (simp add: canonical_def word_less_nat_alt)
    with se True x show ?thesis by (simp add: sign_extend_47_def)
  next
    case False
    have hi: "(0xFFFF000000000000 :: u64) = push_bit 48 (mask 16)" by (simp add: push_bit_eq_mult mask_eq_exp_minus_1)
    have "push_bit 39 (of_nat i :: u64) AND push_bit 48 (mask 16) = 0"
      by (rule bit_word_eqI) (use index_bits [OF assms(3)] in \<open>fastforce simp: bit_simps\<close>)
    then have "?x OR 0xFFFF000000000000 = ?x + 0xFFFF000000000000"
      unfolding hi by (simp add: push_bit_eq_mult disjunctive_add_eq_or)
    moreover have "\<not> canonical ?x"
      using False x assms(3) by (auto simp: canonical_def word_less_nat_alt word_le_nat_alt)
    ultimately have s: "a = ?x + 0xFFFF000000000000" using se by (simp add: sign_extend_47_def split: if_splits)
    then have "unat a = unat ?x + unat (0xFFFF000000000000 :: u64)"
      using x assms(3) by (simp only: s) (subst unat_add_no_overflow, simp_all)
    then have u: "unat a = 2 ^ 39 * (i + 33553920)" unfolding x by simp
    then have "canonical a" using False by (simp add: canonical_def word_less_nat_alt word_le_nat_alt)
    with u False show ?thesis by simp
  qed
  then show "canonical a" by blast
  have "take_bit 39 (unat a) = 0" using a by (simp add: take_bit_eq_mod)
  then have "unat (take_bit 39 a) = 0" by (simp add: unsigned_take_bit_eq)
  then show al: "a AND mask 39 = 0" by (simp only: unat_eq_0 take_bit_eq_mask)
  have al': "a AND mask (12 + 9 * 3) = 0" using al by simp
  have "page_base 3 va = a \<longleftrightarrow> unat va div 2 ^ 39 = unat a div 2 ^ 39"
    using page_base_iff [OF al', of va] by simp
  also have "\<dots> \<longleftrightarrow> unat va div 2 ^ 39 = (if i < 256 then i else i + 33553920)" using a by simp
  also have "\<dots> \<longleftrightarrow> va_index 3 va = i"
  proof -
    define q where "q = unat va div 2 ^ 39"
    have q: "q < 256 \<or> 33554176 \<le> q \<and> q < 33554432"
      using va unat_lt_2p64 [of va] unfolding q_def by auto
    have "va_index 3 va = q mod 512"
      unfolding q_def va_index_top by simp
    moreover have "q mod 512 = (if q < 256 then q else q - 33553920)"
    proof (cases "q < 256")
      case False
      with q have "q = (q - 33553920) + 512 * 65535" "q - 33553920 < 512" by auto
      then have "q mod 512 = q - 33553920" by (metis mod_less mod_mult_self2)
      with False show ?thesis by simp
    qed simp
    ultimately show ?thesis using q assms(3) unfolding q_def [symmetric] by auto
  qed
  finally show "page_base 3 va = a \<longleftrightarrow> va_index 3 va = i" .
qed

section \<open>What the loops yield\<close>

definition shows_flags :: "u64 \<Rightarrow> u64 \<Rightarrow> range list \<Rightarrow> bool" where
  "shows_flags va flags rs \<longleftrightarrow> (\<exists>f t. (f, t, flags) \<in> set rs \<and> in_range f t va)"

lemma shows_simps [simp]:
  "shows_flags va fl [] = False"
  "shows_flags va fl (rs @ rs') = (shows_flags va fl rs \<or> shows_flags va fl rs')"
  unfolding shows_flags_def by auto

lemma each_entry_shows:
  assumes "each_entry f is = Done rs"
    and "\<And>i ys. i \<in> set is \<Longrightarrow> f i = Done ys \<Longrightarrow> shows_flags va fl ys \<longleftrightarrow> R i"
  shows "shows_flags va fl rs \<longleftrightarrow> (\<exists>i \<in> set is. R i)"
  using assms by (induction "is" arbitrary: rs) (fastforce simp: and_then_eq_Done)+

lemma page_shows:
  assumes "virt_ok e" and "canonical va" and "canonical s" and "s AND mask (21 + 9 * n) = 0" and "i < 512" and "n \<le> 2"
    and "virt_add e s (of_nat i * 2 ^ (12 + 9 * n)) = Some a" and "virt_add e a (2 ^ (12 + 9 * n)) = Some t"
  shows "shows_flags va fl [(a, t, fl')] \<longleftrightarrow> (page_base (Suc n) va = s \<and> va_index n va = i) \<and> fl = fl'"
proof -
  note A = entry_start [OF assms(1,3-7)]
  show ?thesis using in_range_page [OF assms(1,2) A(2,3) assms(6,8)] A(4) by (auto simp: shows_flags_def)
qed

lemma index_choice: "(\<exists>i \<in> set [0..<512]. (B \<and> va_index n va = i) \<and> Q i) \<longleftrightarrow> B \<and> Q (va_index n va)"
  using va_index_less by auto

lemma dump_l1_shows:
  assumes "virt_ok e" and "canonical va" and "canonical s" and "s AND mask 21 = 0" and "dump_l1 e P table s m = Done rs"
  shows "shows_flags va fl rs \<longleftrightarrow>
    page_base 1 va = s \<and> walk_flags 0 e P va (entry_slot table 0 va) inh m = Some fl"
proof -
  have "shows_flags va fl rs \<longleftrightarrow> (\<exists>i \<in> set [0..<512]. (page_base 1 va = s \<and> va_index 0 va = i) \<and>
      walk_flags 0 e P va (at_entry table i) inh m = Some fl)"
  proof (rule each_entry_shows [OF assms(5) [unfolded dump_l1_def]])
    fix i ys
    assume i: "i \<in> set [0..<512]" and ys: "(let x1f = entry_flags P (load_entry P (at_entry table i) m)
       in if \<not> bf_contains e x1f pt_present then Done []
          else and_then (unwrap (virt_add e s (of_nat i * 2 ^ 12))) (\<lambda>start1.
               and_then (unwrap (virt_add e start1 (2 ^ 12))) (\<lambda>end1. Done [(start1, end1, x1f)]))) = Done ys"
    show "shows_flags va fl ys \<longleftrightarrow> (page_base 1 va = s \<and> va_index 0 va = i) \<and>
      walk_flags 0 e P va (at_entry table i) inh m = Some fl"
      using ys page_shows [OF assms(1-3), of 0 i] assms(4) i
      by (auto simp: Let_def and_then_eq_Done split: if_splits)
  qed
  then show ?thesis unfolding index_choice by (simp add: at_entry_def entry_slot_def)
qed


lemma entry_slot_at: "at_entry table (va_index n va) = entry_slot table n va"
  by (simp add: at_entry_def entry_slot_def)

text \<open>One present entry of a table of level 2 or 3, given what the loops below it yield.\<close>

lemma mid_entry_shows:
  fixes D :: "u64 \<Rightarrow> u64 \<Rightarrow> range list outcome"
  assumes "virt_ok e" and "canonical va" and "canonical s" and "s AND mask (21 + 9 * Suc k) = 0" and "i < 512" and "k \<le> 1"
    and "x = load_entry P (at_entry table i) m" and "f = entry_flags P x AND inh"
    and ys: "(if \<not> bf_contains e f pt_present then Done []
       else and_then (unwrap (virt_add e s (of_nat i * 2 ^ (12 + 9 * Suc k)))) (\<lambda>a.
            if has_flag e P pt_huge x
            then and_then (unwrap (virt_add e a (2 ^ (12 + 9 * Suc k)))) (\<lambda>b. Done [(a, b, f)])
            else and_then (sub_table e P x) (\<lambda>t. D t a))) = Done ys"
    and D: "\<And>t a rs. canonical a \<Longrightarrow> a AND mask (12 + 9 * Suc k) = 0 \<Longrightarrow> D t a = Done rs \<Longrightarrow>
       shows_flags va fl rs \<longleftrightarrow> page_base (Suc k) va = a \<and> walk_flags k e P va (entry_slot t k va) f m = Some fl"
  shows "shows_flags va fl ys \<longleftrightarrow> (page_base (Suc (Suc k)) va = s \<and> va_index (Suc k) va = i) \<and>
    walk_flags (Suc k) e P va (at_entry table i) inh m = Some fl"
proof (cases "bf_contains e f pt_present")
  case False
  with ys show ?thesis by (simp add: Let_def assms(7,8))
next
  case present: True
  with ys obtain a where a: "virt_add e s (of_nat i * 2 ^ (12 + 9 * Suc k)) = Some a"
    and rest: "(if has_flag e P pt_huge x
       then and_then (unwrap (virt_add e a (2 ^ (12 + 9 * Suc k)))) (\<lambda>b. Done [(a, b, f)])
       else and_then (sub_table e P x) (\<lambda>t. D t a)) = Done ys"
    by (auto simp: and_then_eq_Done)
  have k2: "Suc k \<le> 2" using assms(6) by simp
  note A = entry_start [OF assms(1,3-5) k2 a]
  show ?thesis
  proof (cases "has_flag e P pt_huge x")
    case True
    with rest obtain b where "virt_add e a (2 ^ (12 + 9 * Suc k)) = Some b" and b: "ys = [(a, b, f)]"
      by (auto simp: and_then_eq_Done)
    note p = page_shows [OF assms(1-5) k2 a this(1), of fl f]
    have "walk_flags (Suc k) e P va (at_entry table i) inh m = Some f"
      using present True by (simp add: Let_def assms(7,8))
    then show ?thesis unfolding b p by auto
  next
    case False
    with rest obtain t where t: "sub_table e P x = Done t" and "D t a = Done ys" by (auto simp: and_then_eq_Done)
    note d = D [OF A(2,3) this(2)]
    have "walk_flags (Suc k) e P va (at_entry table i) inh m = walk_flags k e P va (entry_slot t k va) f m"
      using present False t by (simp add: Let_def assms(7,8))
    then show ?thesis unfolding d A(4) by simp
  qed
qed

lemma dump_l2_shows:
  assumes "virt_ok e" and "canonical va" and "canonical s" and "s AND mask 30 = 0" and "dump_l2 e P table s inh m = Done rs"
  shows "shows_flags va fl rs \<longleftrightarrow>
    page_base 2 va = s \<and> walk_flags 1 e P va (entry_slot table 1 va) inh m = Some fl"
proof -
  let ?f = "\<lambda>i. entry_flags P (load_entry P (at_entry table i) m) AND inh"
  have s: "s AND mask (21 + 9 * Suc 0) = 0" and k: "(21 :: nat) = 12 + 9 * Suc 0" "0 \<le> (1 :: nat)"
    using assms(4) by simp_all
  have "shows_flags va fl rs \<longleftrightarrow> (\<exists>i \<in> set [0..<512]. (page_base (Suc (Suc 0)) va = s \<and> va_index (Suc 0) va = i) \<and>
      walk_flags (Suc 0) e P va (at_entry table i) inh m = Some fl)"
  proof (rule each_entry_shows [OF assms(5) [unfolded dump_l2_def Let_def k(1)]])
    fix i ys
    assume i: "i \<in> set [0..<512]"
    then have "i < 512" by simp
    note entry = mid_entry_shows [OF assms(1-3) s this k(2) refl refl, where D = "\<lambda>t a. dump_l1 e P t a m"]
    show "shows_flags va fl ys \<longleftrightarrow> (page_base (Suc (Suc 0)) va = s \<and> va_index (Suc 0) va = i) \<and>
        walk_flags (Suc 0) e P va (at_entry table i) inh m = Some fl"
      if "(if \<not> bf_contains e (?f i) pt_present then Done []
        else and_then (unwrap (virt_add e s (of_nat i * 2 ^ (12 + 9 * Suc 0)))) (\<lambda>a.
             if has_flag e P pt_huge (load_entry P (at_entry table i) m)
             then and_then (unwrap (virt_add e a (2 ^ (12 + 9 * Suc 0)))) (\<lambda>b. Done [(a, b, ?f i)])
             else and_then (sub_table e P (load_entry P (at_entry table i) m)) (\<lambda>t. dump_l1 e P t a m))) = Done ys"
      using that by (rule entry) (simp add: dump_l1_shows [OF assms(1,2), where inh = "?f i"] numeral_2_eq_2 del: walk_flags.simps)
  qed
  then show ?thesis unfolding index_choice entry_slot_at by (simp add: numeral_2_eq_2 numeral_3_eq_3)
qed

lemma dump_l3_shows:
  assumes "virt_ok e" and "canonical va" and "canonical s" and "s AND mask 39 = 0" and "dump_l3 e P table s inh m = Done rs"
  shows "shows_flags va fl rs \<longleftrightarrow>
    page_base 3 va = s \<and> walk_flags 2 e P va (entry_slot table 2 va) inh m = Some fl"
proof -
  let ?f = "\<lambda>i. entry_flags P (load_entry P (at_entry table i) m) AND inh"
  have s: "s AND mask (21 + 9 * Suc 1) = 0" and k: "(30 :: nat) = 12 + 9 * Suc 1" "1 \<le> (1 :: nat)"
    using assms(4) by simp_all
  have "shows_flags va fl rs \<longleftrightarrow> (\<exists>i \<in> set [0..<512]. (page_base (Suc (Suc 1)) va = s \<and> va_index (Suc 1) va = i) \<and>
      walk_flags (Suc 1) e P va (at_entry table i) inh m = Some fl)"
  proof (rule each_entry_shows [OF assms(5) [unfolded dump_l3_def Let_def k(1)]])
    fix i ys
    assume i: "i \<in> set [0..<512]"
    then have "i < 512" by simp
    note entry = mid_entry_shows [OF assms(1-3) s this k(2) refl refl, where D = "\<lambda>t a. dump_l2 e P t a (?f i) m"]
    show "shows_flags va fl ys \<longleftrightarrow> (page_base (Suc (Suc 1)) va = s \<and> va_index (Suc 1) va = i) \<and>
        walk_flags (Suc 1) e P va (at_entry table i) inh m = Some fl"
      if "(if \<not> bf_contains e (?f i) pt_present then Done []
        else and_then (unwrap (virt_add e s (of_nat i * 2 ^ (12 + 9 * Suc 1)))) (\<lambda>a.
             if has_flag e P pt_huge (load_entry P (at_entry table i) m)
             then and_then (unwrap (virt_add e a (2 ^ (12 + 9 * Suc 1)))) (\<lambda>b. Done [(a, b, ?f i)])
             else and_then (sub_table e P (load_entry P (at_entry table i) m)) (\<lambda>t. dump_l2 e P t a (?f i) m))) = Done ys"
      using that by (rule entry) (simp add: dump_l2_shows [OF assms(1,2)] numeral_2_eq_2 del: walk_flags.simps)
  qed
  then show ?thesis unfolding index_choice entry_slot_at by (simp add: numeral_2_eq_2 numeral_3_eq_3)
qed

lemma dump_l4_shows:
  assumes "virt_ok e" and "bitflags_ok e" and "canonical va" and "dump_l4 e P root m = Done rs"
    and "get_page_table e root = Done table"
    and "\<And>i. i < 512 \<Longrightarrow> \<not> has_flag e P pt_huge (load_entry P (at_entry table i) m)"
  shows "shows_flags va fl rs \<longleftrightarrow> walk_flags 3 e P va (entry_slot table 3 va) (- 1) m = Some fl"
proof -
  let ?x = "\<lambda>i. load_entry P (at_entry table i) m"
  have rs: "each_entry (\<lambda>i. if \<not> has_flag e P pt_present (?x i) then Done []
     else and_then (unwrap (virt_new e (of_nat i * 2 ^ 39))) (\<lambda>a.
          and_then (sub_table e P (?x i)) (\<lambda>t. dump_l3 e P t a (entry_flags P (?x i)) m))) [0..<512] = Done rs"
    using assms(4,5) by (simp only: dump_l4_def and_then.simps Let_def)
  have "shows_flags va fl rs \<longleftrightarrow> (\<exists>i \<in> set [0..<512]. (True \<and> va_index 3 va = i) \<and>
      walk_flags 3 e P va (at_entry table i) (- 1) m = Some fl)"
  proof (rule each_entry_shows [OF rs])
    fix i ys
    assume i: "i \<in> set [0..<512]" and ys: "(if \<not> has_flag e P pt_present (?x i) then Done []
      else and_then (unwrap (virt_new e (of_nat i * 2 ^ 39))) (\<lambda>a.
           and_then (sub_table e P (?x i)) (\<lambda>t. dump_l3 e P t a (entry_flags P (?x i)) m))) = Done ys"
    from i have i512: "i < 512" by simp
    show "shows_flags va fl ys \<longleftrightarrow> (True \<and> va_index 3 va = i) \<and>
      walk_flags 3 e P va (at_entry table i) (- 1) m = Some fl"
    proof (cases "has_flag e P pt_present (?x i)")
      case False
      with ys show ?thesis by (simp add: has_flag_def numeral_3_eq_3 Let_def)
    next
      case True
      with ys obtain a t where a: "virt_new e (of_nat i * 2 ^ 39) = Some a" and t: "sub_table e P (?x i) = Done t"
        and d: "dump_l3 e P t a (entry_flags P (?x i)) m = Done ys"
        by (auto simp: and_then_eq_Done)
      note A = top_start [OF assms(1,3) i512 a]
      have "walk_flags 3 e P va (at_entry table i) (- 1) m =
          walk_flags 2 e P va (entry_slot t 2 va) (entry_flags P (?x i)) m"
        using True t assms(6) [OF i512] by (simp add: has_flag_def numeral_3_eq_3 numeral_2_eq_2 Let_def del: walk_flags.simps(1))
      then show ?thesis unfolding dump_l3_shows [OF assms(1,3) A(1,2) d] A(3) by simp
    qed
  qed
  then show ?thesis unfolding index_choice entry_slot_at by simp
qed

section \<open>The dump and the walk\<close>

text \<open>
  C35: The dump shows what the processor would translate. A canonical address lies in a range that
  \<open>explore_page_ranges\<close> yields, before neighbours are merged, exactly when the walk through the four levels
  finds a page for it, and the flags of the range are those of the page: for a page of 2 MiB or 1 GiB the
  flags that all entries on the way have, for a page of 4 KiB those of its own entry, whatever the
  entries above it forbid (\<open>x1f\<close> is not masked). No entry of level 4 is huge, as the processor demands.
\<close>

theorem dump_matches_walk:
  assumes "virt_ok e" and "bitflags_ok e" and "canonical va"
    and "get_page_table e root = Done table" and "dump_l4 e P root m = Done rs"
    and "\<And>i. i < 512 \<Longrightarrow> \<not> has_flag e P pt_huge (load_entry P (at_entry table i) m)"
  shows "(\<exists>f t. (f, t, flags) \<in> set rs \<and> in_range f t va) \<longleftrightarrow>
    (\<exists>leaf. leaf_of 3 e P va (entry_slot table 3 va) m = Some leaf \<and>
       flags = shown_flags P leaf (visited 3 e P va (entry_slot table 3 va) m) (- 1))"
proof -
  have "(\<exists>f t. (f, t, flags) \<in> set rs \<and> in_range f t va) \<longleftrightarrow>
      walk_flags 3 e P va (entry_slot table 3 va) (- 1) m = Some flags"
    using dump_l4_shows [OF assms(1-3,5,4,6)] by (simp add: shows_flags_def)
  then show ?thesis by (auto simp: walk_flags_leaf [OF assms(2)])
qed

text \<open>One page of 1 GiB at the address 0.\<close>

definition huge_entries :: "u64 \<Rightarrow> u64" where
  "huge_entries = (\<lambda>_. 0)(example_table := 0x2003, example_table + 0x1000 := 0x83)"

lemma at_entry_eq: "j < 512 \<Longrightarrow> at_entry t j = c \<longleftrightarrow> unat (c - t) = 8 * j"
proof -
  assume "j < 512"
  then have "unat (8 * of_nat j :: u64) = 8 * j" using unat_of_nat_u64 [of "8 * j"] by simp
  then have "unat (c - t) = 8 * j \<longleftrightarrow> c - t = 8 * of_nat j" by (simp only: word_unat_eq_iff)
  then show ?thesis by (auto simp: at_entry_def algebra_simps)
qed

lemma each_entry_first:
  assumes "f 0 = Done xs" and "\<And>j. 0 < j \<Longrightarrow> j < 512 \<Longrightarrow> f j = Done []"
  shows "each_entry f [0..<512] = Done xs"
proof -
  have "each_entry f is = Done []" if "\<forall>j \<in> set is. 0 < j \<and> j < 512" for "is"
    using that assms(2) by (induction "is") auto
  then have "each_entry f [Suc 0..<512] = Done []" by simp
  moreover have "[0..<512] = 0 # [Suc 0..<512]" by (rule upt_conv_Cons) simp
  ultimately show ?thesis using assms(1) by (simp del: upt_rec_numeral)
qed

lemma huge_entries_at:
  "huge_entries (at_entry example_table 0) = 0x2003"
  "huge_entries (at_entry (example_table + 0x1000) 0) = 0x83"
  "0 < j \<Longrightarrow> j < 512 \<Longrightarrow> huge_entries (at_entry example_table j) = 0"
  "0 < j \<Longrightarrow> j < 512 \<Longrightarrow> huge_entries (at_entry (example_table + 0x1000) j) = 0"
  by (simp_all add: huge_entries_def at_entry_eq example_table_def)

lemma huge_dump:
  "dump_l4 (documented_env True) word_ptes 0x1000 huge_entries = Done [(0, 0x40000000, 3)]"
proof -
  have flags: "entry_flags word_ptes 0x2003 = 3" "entry_flags word_ptes 0x83 = 0x83" "entry_flags word_ptes 0 = 0"
    "load_entry word_ptes a m = m a" for a m
    by (simp_all add: word_ptes_def pt_flag_mask_def)
  have sub: "sub_table (documented_env True) word_ptes 0x2003 = Done (example_table + 0x1000)"
    by (simp add: sub_table_def word_ptes_def documented_env_def sign_extend_47_def canonical_def
        physical_memory_offset_def kernel_addresses example_table_def pt_flag_mask_def)
  have "dump_l3 (documented_env True) word_ptes (example_table + 0x1000) 0 3 huge_entries = Done [(0, 0x40000000, 3)]"
    unfolding dump_l3_def
    by (rule each_entry_first; simp only: flags huge_entries_at Let_def)
      (simp_all add: documented_env_def has_flag_def flags pt_bits sign_extend_47_def canonical_def)
  then show ?thesis
    unfolding dump_l4_def example_walk and_then.simps
    by (intro each_entry_first; simp only: flags huge_entries_at Let_def sub)
      (simp_all add: documented_env_def has_flag_def flags pt_bits sign_extend_47_def canonical_def)
qed

theorem dump_matches_walk_witness:
  "\<exists>rs leaf. dump_l4 (documented_env True) word_ptes 0x1000 huge_entries = Done rs \<and>
     leaf_of 3 (documented_env True) word_ptes 0x1234 (entry_slot example_table 3 0x1234) huge_entries = Some leaf \<and>
     3 = shown_flags word_ptes leaf
       (visited 3 (documented_env True) word_ptes 0x1234 (entry_slot example_table 3 0x1234) huge_entries) (- 1)"
proof -
  have "\<not> has_flag (documented_env True) word_ptes pt_huge (load_entry word_ptes (at_entry example_table i) huge_entries)"
    if "i < 512" for i
    using that huge_entries_at(1) huge_entries_at(3) [of i]
    by (cases "i = 0") (simp_all add: has_flag_def word_ptes_def documented_env_def pt_bits pt_flag_mask_def)
  from dump_matches_walk [OF documented_virt documented_bitflags _ example_walk huge_dump this, where va = "0x1234" and flags = "3"]
  have "\<exists>leaf. leaf_of 3 (documented_env True) word_ptes 0x1234 (entry_slot example_table 3 0x1234) huge_entries = Some leaf \<and>
     3 = shown_flags word_ptes leaf
       (visited 3 (documented_env True) word_ptes 0x1234 (entry_slot example_table 3 0x1234) huge_entries) (- 1)"
    by (simp add: canonical_def in_range_def)
  with huge_dump show ?thesis by blast
qed

end
